(* ===== verification/GoPrelude.thy ===== *)
theory GoPrelude
  imports Main "HOL-Library.AList" "HOL-Library.Multiset"
begin

text \<open>
  Shared vocabulary of the development: outcomes of Go code that may panic, Go maps as
  association lists with one entry per key, Go slices indexed by \<open>int\<close>, loops over slices and
  over map ranges, and the collections of simplification rules the component theories use.
\<close>

section \<open>Outcomes of Go code\<close>

text \<open>
  A Go statement either completes, panics (with the reason), or, for a recursion or an unbounded
  loop translated with a step budget, has not finished within the budget.
\<close>

datatype go_panic =
    NilDereference
  | IndexOutOfRange
  | TypeAssertion
  | DivideByZero
  | NilMapWrite
  | ExplicitPanic string

datatype 'a res = Ok 'a | Panic go_panic | OutOfFuel

primrec bindR :: "'a res \<Rightarrow> ('a \<Rightarrow> 'b res) \<Rightarrow> 'b res" where
  "bindR (Ok x) f = f x"
| "bindR (Panic p) f = Panic p"
| "bindR OutOfFuel f = OutOfFuel"

definition is_ok :: "'a res \<Rightarrow> bool" where
  "is_ok r \<longleftrightarrow> (case r of Ok _ \<Rightarrow> True | _ \<Rightarrow> False)"

named_theorems res_simps \<open>inversion of successful outcomes\<close>
named_theorems map_simps \<open>lookups in Go maps after updates, deletions and ranges\<close>

lemma bindR_Ok_iff [res_simps]: "bindR r f = Ok y \<longleftrightarrow> (\<exists>x. r = Ok x \<and> f x = Ok y)"
  by (cases r) auto

lemma bindR_OkE [elim!]:
  assumes "bindR r f = Ok y" obtains x where "r = Ok x" "f x = Ok y"
  using assms by (cases r) auto

lemma bindR_Panic_iff:
  "bindR r f = Panic p \<longleftrightarrow> r = Panic p \<or> (\<exists>x. r = Ok x \<and> f x = Panic p)"
  by (cases r) auto

lemma bindR_OutOfFuel_iff:
  "bindR r f = OutOfFuel \<longleftrightarrow> r = OutOfFuel \<or> (\<exists>x. r = Ok x \<and> f x = OutOfFuel)"
  by (cases r) auto

lemma bindR_cong [fundef_cong]:
  "r = r' \<Longrightarrow> (\<And>x. r' = Ok x \<Longrightarrow> f x = g x) \<Longrightarrow> bindR r f = bindR r' g"
  by (cases r') auto

lemma bindR_assoc: "bindR (bindR r f) g = bindR r (\<lambda>x. bindR (f x) g)"
  by (cases r) auto

lemma is_ok_simps [simp]: "is_ok (Ok x)" "\<not> is_ok (Panic p)" "\<not> is_ok OutOfFuel"
  by (simp_all add: is_ok_def)

lemma is_ok_iff: "is_ok r \<longleftrightarrow> (\<exists>x. r = Ok x)"
  by (cases r) auto

text \<open>A value that Go would dereference: \<open>None\<close> is the nil pointer.\<close>

definition deref :: "'a option \<Rightarrow> 'a res" where
  "deref p = (case p of None \<Rightarrow> Panic NilDereference | Some x \<Rightarrow> Ok x)"

lemma deref_simps [simp]: "deref None = Panic NilDereference" "deref (Some x) = Ok x"
  by (simp_all add: deref_def)

lemma deref_Ok_iff [res_simps]: "deref p = Ok x \<longleftrightarrow> p = Some x"
  by (cases p) auto

section \<open>Loops over slices\<close>

text \<open>
  \<open>loopR body xs s\<close> is \<open>for _, x := range xs { s = body(x, s) }\<close>; a \<open>continue\<close> of the source is the
  body's return of the state it has reached.
\<close>

primrec loopR :: "('a \<Rightarrow> 's \<Rightarrow> 's res) \<Rightarrow> 'a list \<Rightarrow> 's \<Rightarrow> 's res" where
  "loopR body [] s = Ok s"
| "loopR body (x # xs) s = bindR (body x s) (loopR body xs)"

lemma loopR_append: "loopR body (xs @ ys) s = bindR (loopR body xs s) (loopR body ys)"
proof (induction xs arbitrary: s)
  case (Cons x xs)
  then show ?case by (cases "body x s") simp_all
qed simp

lemma loopR_inv:
  assumes "loopR body xs s = Ok t" and "I s"
    and "\<And>x u v. x \<in> set xs \<Longrightarrow> I u \<Longrightarrow> body x u = Ok v \<Longrightarrow> I v"
  shows "I t"
  using assms
proof (induction xs arbitrary: s)
  case (Cons x xs)
  from Cons.prems(1) obtain v where v: "body x s = Ok v" "loopR body xs v = Ok t" by auto
  with Cons.prems(2,3) have "I v" by (meson list.set_intros(1))
  with v(2) show ?case by (rule Cons.IH) (auto intro: Cons.prems(3))
qed auto

text \<open>The same for a reflexive and transitive relation between the state before and after.\<close>

lemma loopR_rel:
  assumes "loopR body xs s = Ok t"
    and refl: "\<And>u. Rel u u" and trans: "\<And>u v w. Rel u v \<Longrightarrow> Rel v w \<Longrightarrow> Rel u w"
    and step: "\<And>x u v. x \<in> set xs \<Longrightarrow> body x u = Ok v \<Longrightarrow> Rel u v"
  shows "Rel s t"
  using assms(1) by (rule loopR_inv [where I = "Rel s"]) (auto intro: refl trans step)

lemma loopR_total:
  assumes "I s" and "\<And>x u. x \<in> set xs \<Longrightarrow> I u \<Longrightarrow> \<exists>v. body x u = Ok v \<and> I v"
  shows "\<exists>t. loopR body xs s = Ok t \<and> I t"
  using assms
proof (induction xs arbitrary: s)
  case (Cons x xs)
  from Cons.prems obtain v where "body x s = Ok v" "I v" by (meson list.set_intros(1))
  moreover from Cons.IH [OF \<open>I v\<close>] Cons.prems(2) obtain t where "loopR body xs v = Ok t" "I t"
    by auto
  ultimately show ?case by auto
qed auto

lemma loopR_Ok_fold: "loopR (\<lambda>x s. Ok (f x s)) xs s = Ok (fold f xs s)"
  by (induction xs arbitrary: s) auto

lemma loopR_cong [fundef_cong]:
  "xs = ys \<Longrightarrow> s = t \<Longrightarrow> (\<And>x u. x \<in> set ys \<Longrightarrow> f x u = g x u) \<Longrightarrow> loopR f xs s = loopR g ys t"
proof (induction xs arbitrary: ys s t)
  case (Cons x xs)
  then show ?case by (cases "g x t") auto
qed auto

text \<open>
  \<open>findR body xs\<close> is a loop that returns from its function at the first element for which the body
  does; \<open>None\<close> is falling out of the loop.
\<close>

primrec findR :: "('a \<Rightarrow> 'b option res) \<Rightarrow> 'a list \<Rightarrow> 'b option res" where
  "findR body [] = Ok None"
| "findR body (x # xs) =
     bindR (body x) (\<lambda>r. case r of Some y \<Rightarrow> Ok (Some y) | None \<Rightarrow> findR body xs)"

lemma findR_Some:
  "findR body xs = Ok (Some y) \<Longrightarrow> \<exists>x \<in> set xs. body x = Ok (Some y)"
  by (induction xs) (auto split: option.splits)

lemma findR_None:
  "findR body xs = Ok None \<longleftrightarrow> (\<forall>x \<in> set xs. body x = Ok None)"
  by (induction xs) (auto simp: bindR_Ok_iff split: option.splits)

section \<open>Go slices indexed by int\<close>

definition in_range :: "'a list \<Rightarrow> int \<Rightarrow> bool" where
  "in_range xs i \<longleftrightarrow> 0 \<le> i \<and> i < int (length xs)"

definition slice_get :: "'a list \<Rightarrow> int \<Rightarrow> 'a res" where
  "slice_get xs i = (if in_range xs i then Ok (xs ! nat i) else Panic IndexOutOfRange)"

definition slice_set :: "'a list \<Rightarrow> int \<Rightarrow> 'a \<Rightarrow> 'a list res" where
  "slice_set xs i v = (if in_range xs i then Ok (xs[nat i := v]) else Panic IndexOutOfRange)"

lemma slice_get_Ok [res_simps]: "slice_get xs i = Ok v \<longleftrightarrow> in_range xs i \<and> v = xs ! nat i"
  by (auto simp: slice_get_def)

lemma slice_set_Ok [res_simps]: "slice_set xs i v = Ok ys \<longleftrightarrow> in_range xs i \<and> ys = xs[nat i := v]"
  by (auto simp: slice_set_def)

lemma in_range_update [simp]: "in_range (xs[k := v]) i = in_range xs i"
  by (simp add: in_range_def)

lemma in_range_length: "length xs = length ys \<Longrightarrow> in_range xs i = in_range ys i"
  by (simp add: in_range_def)

section \<open>Go maps\<close>

text \<open>
  A Go map is an association list with at most one entry per key: \<open>map_of\<close> looks a key up
  (\<open>v, ok := m[k]\<close>), \<open>AList.update\<close> stores, \<open>AList.delete\<close> is the builtin \<open>delete\<close>. Keeping the
  entries in a list makes \<open>range\<close> and \<open>len\<close> executable; Go leaves the order of a range open, so
  a loop whose result can depend on it takes the order as an argument (\<open>range_keys\<close>).
\<close>

type_synonym ('k, 'v) gomap = "('k \<times> 'v) list"

abbreviation mget :: "('k, 'v) gomap \<Rightarrow> 'k \<Rightarrow> 'v option" where
  "mget m k \<equiv> map_of m k"

abbreviation mput :: "'k \<Rightarrow> 'v \<Rightarrow> ('k, 'v) gomap \<Rightarrow> ('k, 'v) gomap" where
  "mput k v m \<equiv> AList.update k v m"

abbreviation mdel :: "'k \<Rightarrow> ('k, 'v) gomap \<Rightarrow> ('k, 'v) gomap" where
  "mdel k m \<equiv> AList.delete k m"

definition mhas :: "('k, 'v) gomap \<Rightarrow> 'k \<Rightarrow> bool" where
  "mhas m k \<longleftrightarrow> mget m k \<noteq> None"

text \<open>A read without the \<open>ok\<close> test returns the zero value of the element type for a missing key.\<close>

definition mget0 :: "'v \<Rightarrow> ('k, 'v) gomap \<Rightarrow> 'k \<Rightarrow> 'v" where
  "mget0 z m k = (case mget m k of None \<Rightarrow> z | Some v \<Rightarrow> v)"

definition wf_map :: "('k, 'v) gomap \<Rightarrow> bool" where
  "wf_map m \<longleftrightarrow> distinct (map fst m)"

text \<open>
  A range order: for the keys of a map, the sequence in which one \<open>range\<close> statement visits them.
  The language promises a permutation and nothing else.
\<close>

definition is_range_order :: "('k list \<Rightarrow> 'k list) \<Rightarrow> bool" where
  "is_range_order ord \<longleftrightarrow> (\<forall>ks. mset (ord ks) = mset ks)"

definition range_keys :: "('k list \<Rightarrow> 'k list) \<Rightarrow> ('k, 'v) gomap \<Rightarrow> 'k list" where
  "range_keys ord m = ord (map fst m)"

lemma set_range_keys: "is_range_order ord \<Longrightarrow> set (range_keys ord m) = dom (map_of m)"
  unfolding is_range_order_def range_keys_def
  by (metis dom_map_of_conv_image_fst image_set set_mset_mset)

lemma is_range_order_id: "is_range_order (\<lambda>ks. ks)"
  by (simp add: is_range_order_def)

lemma is_range_order_rev: "is_range_order rev"
  by (simp add: is_range_order_def)

lemma mget_mput [map_simps, simp]: "mget (mput k v m) k' = (if k' = k then Some v else mget m k')"
  by (simp add: update_conv)

lemma mget_mdel [map_simps, simp]: "mget (mdel k m) k' = (if k' = k then None else mget m k')"
  by (simp add: delete_conv)

lemma wf_map_mput [simp]: "wf_map m \<Longrightarrow> wf_map (mput k v m)"
  by (simp add: wf_map_def distinct_update)

lemma wf_map_mdel [simp]: "wf_map m \<Longrightarrow> wf_map (mdel k m)"
  by (simp add: wf_map_def distinct_delete)

lemma wf_map_Nil [simp]: "wf_map []"
  by (simp add: wf_map_def)

lemma wf_map_in_set: "wf_map m \<Longrightarrow> (k, v) \<in> set m \<longleftrightarrow> mget m k = Some v"
  by (auto simp: wf_map_def)

lemma list_all_wf_map:
  assumes "wf_map m"
  shows "list_all (\<lambda>(k, v). P k v) m \<longleftrightarrow> (\<forall>k v. mget m k = Some v \<longrightarrow> P k v)"
proof -
  have "list_all (\<lambda>(k, v). P k v) m \<longleftrightarrow> (\<forall>k v. (k, v) \<in> set m \<longrightarrow> P k v)"
    by (auto simp: list_all_iff)
  then show ?thesis by (simp add: wf_map_in_set [OF assms])
qed

lemma list_ex_wf_map:
  assumes "wf_map m"
  shows "list_ex (\<lambda>(k, v). P k v) m \<longleftrightarrow> (\<exists>k v. mget m k = Some v \<and> P k v)"
proof -
  have "list_ex (\<lambda>(k, v). P k v) m \<longleftrightarrow> (\<exists>k v. (k, v) \<in> set m \<and> P k v)"
    by (auto simp: list_ex_iff)
  then show ?thesis by (simp add: wf_map_in_set [OF assms])
qed

lemma mhas_mput [map_simps, simp]: "mhas (mput k v m) k' \<longleftrightarrow> k' = k \<or> mhas m k'"
  by (simp add: mhas_def)

lemma mhas_mdel [map_simps, simp]: "mhas (mdel k m) k' \<longleftrightarrow> k' \<noteq> k \<and> mhas m k'"
  by (simp add: mhas_def)

lemma mhas_Nil [simp]: "\<not> mhas [] k"
  by (simp add: mhas_def)

lemma mget0_mput [map_simps, simp]:
  "mget0 z (mput k v m) k' = (if k' = k then v else mget0 z m k')"
  by (simp add: mget0_def)

lemma mget0_Nil [simp]: "mget0 z [] k = z"
  by (simp add: mget0_def)

lemma length_mput: "length (mput k v m) = (if mhas m k then length m else Suc (length m))"
  by (induction m) (auto simp: mhas_def)

end
