(* ===== verification/GoFmt.thy ===== *)
theory GoFmt
  imports GoPrelude
begin

text \<open>
  The part of package \<open>fmt\<close> the sources use to build map keys and to compare slices: decimal
  rendering of \<open>int\<close> (\<open>%d\<close>), of a slice of \<open>int\<close> (\<open>fmt.Sprint\<close>, \<open>%v\<close>) and of a pair \<open>%d-%d\<close>. The
  renderings are injective, so comparing them is comparing the values.
\<close>

fun dec_nat :: "nat \<Rightarrow> string" where
  "dec_nat n =
     (if n < 10 then [char_of (48 + n)] else dec_nat (n div 10) @ [char_of (48 + n mod 10)])"

declare dec_nat.simps [simp del]

definition itoa :: "int \<Rightarrow> string" where
  "itoa i = (if i < 0 then CHR ''-'' # dec_nat (nat (- i)) else dec_nat (nat i))"

fun join_with :: "char \<Rightarrow> string list \<Rightarrow> string" where
  "join_with sep [] = []"
| "join_with sep [s] = s"
| "join_with sep (s # t # ss) = s @ sep # join_with sep (t # ss)"

definition sprint_ints :: "int list \<Rightarrow> string" where
  "sprint_ints xs = CHR ''['' # join_with CHR '' '' (map itoa xs) @ '']''"

definition pair_key :: "int \<Rightarrow> int \<Rightarrow> string" where
  "pair_key a b = itoa a @ CHR ''-'' # itoa b"

section \<open>Injectivity\<close>

definition is_digit :: "char \<Rightarrow> bool" where
  "is_digit c \<longleftrightarrow> 48 \<le> (of_char c :: nat) \<and> (of_char c :: nat) \<le> 57"

definition dec_value :: "string \<Rightarrow> nat" where
  "dec_value cs = foldl (\<lambda>a c. 10 * a + (of_char c - 48)) 0 cs"

lemma dec_value_snoc: "dec_value (cs @ [c]) = 10 * dec_value cs + (of_char c - 48)"
  by (simp add: dec_value_def)

lemma of_char_digit: "k < 10 \<Longrightarrow> (of_char (char_of (48 + k :: nat)) :: nat) = 48 + k"
  by simp

lemma dec_value_dec_nat: "dec_value (dec_nat n) = n"
proof (induction n rule: dec_nat.induct)
  case (1 n)
  show ?case
  proof (cases "n < 10")
    case True
    then show ?thesis by (subst dec_nat.simps) (simp add: dec_value_def)
  next
    case False
    with 1 show ?thesis by (subst dec_nat.simps) (simp add: dec_value_snoc)
  qed
qed

lemma dec_nat_digits: "c \<in> set (dec_nat n) \<Longrightarrow> is_digit c"
proof (induction n rule: dec_nat.induct)
  case (1 n)
  show ?case
  proof (cases "n < 10")
    case True
    with "1.prems" show ?thesis by (subst (asm) dec_nat.simps) (simp add: is_digit_def)
  next
    case False
    with "1.prems" have "c \<in> set (dec_nat (n div 10)) \<or> c = char_of (48 + n mod 10)"
      by (subst (asm) dec_nat.simps) auto
    with 1 False show ?thesis by (auto simp: is_digit_def)
  qed
qed

lemma dec_nat_nonempty: "dec_nat n \<noteq> []"
  by (subst dec_nat.simps) simp

lemma dec_nat_inject: "dec_nat m = dec_nat n \<longleftrightarrow> m = n"
  by (metis dec_value_dec_nat)

lemma minus_not_digit: "\<not> is_digit CHR ''-''" "\<not> is_digit CHR '' ''" "\<not> is_digit CHR '']''"
  by (simp_all add: is_digit_def)

lemma dec_nat_not_minus: "dec_nat n \<noteq> CHR ''-'' # s"
  using dec_nat_digits [of "CHR ''-''" n] minus_not_digit(1) by auto

lemma itoa_inject: "itoa a = itoa b \<longleftrightarrow> a = b"
  by (auto simp: itoa_def dec_nat_inject dec_nat_not_minus dec_nat_not_minus [symmetric])

lemma itoa_nonempty: "itoa i \<noteq> []"
  by (simp add: itoa_def dec_nat_nonempty)

lemma itoa_chars: "c \<in> set (itoa i) \<Longrightarrow> is_digit c \<or> c = CHR ''-''"
  by (auto simp: itoa_def dest: dec_nat_digits split: if_splits)

lemma itoa_no_space: "CHR '' '' \<notin> set (itoa i)"
  using itoa_chars minus_not_digit(2) by blast

text \<open>A separator that occurs in neither prefix determines the split.\<close>

lemma split_at_sep:
  assumes "xs @ c # ys = xs' @ c # ys'" and "c \<notin> set xs" and "c \<notin> set xs'"
  shows "xs = xs' \<and> ys = ys'"
  using assms
  by (induction xs arbitrary: xs') (auto simp: append_eq_Cons_conv Cons_eq_append_conv)

lemma join_with_Cons: "ss \<noteq> [] \<Longrightarrow> join_with sep (s # ss) = s @ sep # join_with sep ss"
  by (cases ss) auto

lemma sep_in_join: "ss \<noteq> [] \<Longrightarrow> sep \<in> set (join_with sep (s # ss))"
  by (simp add: join_with_Cons)

lemma join_with_inject:
  assumes "join_with sep ss = join_with sep ts"
    and "\<forall>s \<in> set ss. s \<noteq> [] \<and> sep \<notin> set s" and "\<forall>t \<in> set ts. t \<noteq> [] \<and> sep \<notin> set t"
  shows "ss = ts"
  using assms
proof (induction ss arbitrary: ts)
  case Nil
  then show ?case by (cases ts; cases "tl ts") auto
next
  case (Cons s ss)
  show ?case
  proof (cases ts)
    case Nil
    with Cons.prems show ?thesis by (cases ss) auto
  next
    case (Cons t tt)
    show ?thesis
    proof (cases "ss = [] \<or> tt = []")
      case True
      then have "ss = [] \<and> tt = []"
        using Cons Cons.prems sep_in_join [of ss sep s] sep_in_join [of tt sep t]
        by (metis join_with.simps(2) list.set_intros(1))
      with Cons Cons.prems(1) show ?thesis by simp
    next
      case False
      then have "s @ sep # join_with sep ss = t @ sep # join_with sep tt"
        using Cons Cons.prems(1) by (simp add: join_with_Cons)
      with Cons Cons.prems have "s = t \<and> join_with sep ss = join_with sep tt"
        by (intro split_at_sep) auto
      with Cons Cons.IH [of tt] Cons.prems show ?thesis by auto
    qed
  qed
qed

lemma sprint_ints_inject: "sprint_ints xs = sprint_ints ys \<longleftrightarrow> xs = ys"
proof
  assume "sprint_ints xs = sprint_ints ys"
  then have "join_with CHR '' '' (map itoa xs) = join_with CHR '' '' (map itoa ys)"
    by (simp add: sprint_ints_def)
  then have "map itoa xs = map itoa ys"
    by (rule join_with_inject) (auto simp: itoa_nonempty itoa_no_space)
  moreover have "inj itoa" by (simp add: inj_def itoa_inject)
  ultimately show "xs = ys" by (simp add: inj_map_eq_map)
qed simp

lemma pair_key_inject: "pair_key a b = pair_key c d \<longleftrightarrow> a = c \<and> b = d"
proof
  have nd: "CHR ''-'' \<notin> set (dec_nat n)" for n
    using dec_nat_digits minus_not_digit(1) by blast
  assume eq: "pair_key a b = pair_key c d"
  show "a = c \<and> b = d"
  proof (cases "a < 0 \<longleftrightarrow> c < 0")
    case True
    with eq have "dec_nat (nat \<bar>a\<bar>) @ CHR ''-'' # itoa b = dec_nat (nat \<bar>c\<bar>) @ CHR ''-'' # itoa d"
      by (auto simp: pair_key_def itoa_def [of a] itoa_def [of c] split: if_splits)
    then have "dec_nat (nat \<bar>a\<bar>) = dec_nat (nat \<bar>c\<bar>) \<and> itoa b = itoa d"
      by (intro split_at_sep) (auto simp: nd)
    with True show ?thesis by (auto simp: dec_nat_inject itoa_inject)
  next
    case False
    with eq obtain n m s t where "dec_nat n @ s = CHR ''-'' # t"
      by (auto simp: pair_key_def itoa_def [of a] itoa_def [of c] split: if_splits) metis+
    moreover obtain k ks where "dec_nat n = k # ks"
      using dec_nat_nonempty by (meson neq_Nil_conv)
    ultimately show ?thesis using nd [of n] by auto
  qed
qed simp

end
