(* ===== verification/SSAView.thy ===== *)
theory SSAView
  imports GoFmt
begin

text \<open>
  The view the concurrency package has of package \<open>ssa\<close> and of the pointer-analysis results: the
  accessors it calls on values, instructions, basic blocks and call-graph nodes. Values, calls,
  instructions and call-graph nodes carry an identity, since the sources compare them by pointer. A position is
  \<open>token.Pos\<close>, with \<open>0\<close> for \<open>token.NoPos\<close>.
\<close>

definition NoPos :: int where
  "NoPos = 0"

record ssa_value =
  val_id :: nat
  val_global :: bool      \<comment> \<open>is a \<open>*ssa.Global\<close>\<close>
  val_type :: string      \<comment> \<open>\<open>Type().String()\<close>\<close>
  val_str :: string       \<comment> \<open>\<open>String()\<close>\<close>
  val_name :: string      \<comment> \<open>\<open>Name()\<close>\<close>

record cg_node =
  cg_id :: nat
  cg_func :: string       \<comment> \<open>\<open>GetFunc().String()\<close>\<close>

record call_common =
  cc_id :: nat
  cc_name :: string       \<comment> \<open>\<open>Value.Name()\<close>\<close>
  cc_args :: "ssa_value list"
  cc_value :: ssa_value   \<comment> \<open>\<open>Value\<close>\<close>
  cc_method :: "(string \<times> string) option" \<comment> \<open>\<open>Method.Name()\<close>, \<open>Method.String()\<close> of an invocation\<close>
  cc_str :: string        \<comment> \<open>\<open>String()\<close>\<close>

record select_state =
  sel_pos :: int          \<comment> \<open>\<open>Pos\<close>\<close>
  sel_chan :: ssa_value   \<comment> \<open>\<open>Chan\<close>\<close>
  sel_send :: bool        \<comment> \<open>\<open>Dir == types.SendOnly\<close>\<close>

definition sel_chan_type :: "select_state \<Rightarrow> string" where
  "sel_chan_type st = val_type (sel_chan st)"

text \<open>The instructions with the operands that are read; \<open>ARROW\<close> is a channel receive, \<open>MUL\<close> a load.\<close>

datatype unop = ARROW | MUL | XOR | SUB | NOT

datatype instr_kind =
    KCall call_common
  | KDefer call_common
  | KGo call_common
  | KReturn "ssa_value list"
  | KPanic
  | KRunDefers
  | KIf
  | KSelect "select_state list" bool    \<comment> \<open>\<open>States\<close>, \<open>Blocking\<close>\<close>
  | KSend ssa_value ssa_value           \<comment> \<open>\<open>Chan\<close>, \<open>X\<close>\<close>
  | KUnOp unop ssa_value
  | KStore ssa_value                    \<comment> \<open>\<open>Addr\<close>\<close>
  | KMapUpdate ssa_value
  | KSlice ssa_value
  | KField ssa_value int
  | KFieldAddr ssa_value int
  | KLookup ssa_value
  | KIndex ssa_value
  | KIndexAddr ssa_value
  | KMakeClosure
  | KMakeChan
  | KChangeType
  | KMakeInterface
  | KOther

record instruction =
  inst_id :: nat
  inst_pos :: int         \<comment> \<open>\<open>Pos()\<close>\<close>
  inst_str :: string      \<comment> \<open>\<open>String()\<close>\<close>
  inst_block :: int       \<comment> \<open>\<open>Block().Index\<close>\<close>
  inst_kind :: instr_kind
  inst_val :: ssa_value   \<comment> \<open>the value it defines, if it is one\<close>

text \<open>The blocks of a function in order; a successor is named by its index.\<close>

record basic_block =
  bb_index :: int
  bb_comment :: string
  bb_instrs :: "instruction list"
  bb_succs :: "int list"

end
