(* ===== verification/ConcUtil.thy ===== *)
theory ConcUtil
  imports GoFmt
begin

text \<open>
  \<open>concurrency/util.go\<close>: the comparisons of slices and maps of \<open>int\<close> that the detectors use to
  recognise a state explored before, a common lock and equal points-to sets. Go's \<open>int\<close> occurs
  here only in comparisons, so it is \<open>int\<close>.
\<close>

definition HasCommonIntArray :: "int list \<Rightarrow> int list \<Rightarrow> bool" where
  "HasCommonIntArray a b =
     (let elementSet = fold (\<lambda>elem m. mput elem () m) a []
      in list_ex (\<lambda>elem. mhas elementSet elem) b)"

text \<open>
  \<open>sort.Ints\<close> sorts in place, so the two argument slices are returned as the call leaves them.
\<close>

definition IntArrayEquals :: "int list \<Rightarrow> int list \<Rightarrow> bool \<times> int list \<times> int list" where
  "IntArrayEquals a b =
     (if length a \<noteq> length b then (False, a, b)
      else let a' = sort a; b' = sort b in (sprint_ints a' = sprint_ints b', a', b'))"

definition IntMapEquals :: "(int, int) gomap \<Rightarrow> (int, int) gomap \<Rightarrow> bool" where
  "IntMapEquals a b =
     (if length a \<noteq> length b then False
      else list_all (\<lambda>(key, value1).
             case mget b key of Some value2 \<Rightarrow> value1 = value2 | None \<Rightarrow> False) a)"

definition count_map :: "int list \<Rightarrow> (int, int) gomap" where
  "count_map xs = fold (\<lambda>num m. mput num (mget0 0 m num + 1) m) xs []"

definition IntArrayContains :: "int list \<Rightarrow> int list \<Rightarrow> bool" where
  "IntArrayContains a b =
     (let countMap1 = count_map a; countMap2 = count_map b
      in list_all (\<lambda>(num, cnt). \<not> mget0 0 countMap1 num < cnt) countMap2)"

definition IntMapContains :: "(int, int) gomap \<Rightarrow> (int, int) gomap \<Rightarrow> bool" where
  "IntMapContains a b =
     list_all (\<lambda>(key, value). case mget b key of None \<Rightarrow> True | Some val \<Rightarrow> val = value) a"

definition hasRepeatState :: "int list \<Rightarrow> bool" where
  "hasRepeatState points =
     (let size = length points
      in if size < 4 then False
         else let last2 = drop (size - 2) points;
                  llast2 = take 2 (drop (size - 4) points)
              in sprint_ints last2 = sprint_ints llast2)"

section \<open>Characterisations\<close>

lemma mhas_fold_put: "mhas (fold (\<lambda>e m. mput e () m) a m) x \<longleftrightarrow> x \<in> set a \<or> mhas m x"
  by (induction a arbitrary: m) auto

lemma HasCommonIntArray_set: "HasCommonIntArray a b \<longleftrightarrow> set a \<inter> set b \<noteq> {}"
  by (auto simp: HasCommonIntArray_def mhas_fold_put list_ex_iff)

lemma HasCommonIntArray_sym: "HasCommonIntArray a b = HasCommonIntArray b a"
  by (auto simp: HasCommonIntArray_set)

lemma sort_eq_iff_mset: "sort a = sort b \<longleftrightarrow> mset a = mset (b :: int list)"
  by (metis mset_sort properties_for_sort sorted_sort)

lemma IntArrayEquals_mset: "fst (IntArrayEquals a b) \<longleftrightarrow> mset a = mset b"
  by (auto simp: IntArrayEquals_def Let_def sprint_ints_inject sort_eq_iff_mset
      dest: mset_eq_length)

lemma IntArrayEquals_args:
  "mset (fst (snd (IntArrayEquals a b))) = mset a \<and> mset (snd (snd (IntArrayEquals a b))) = mset b"
  by (auto simp: IntArrayEquals_def Let_def)

lemma mget0_count_fold:
  "mget0 0 (fold (\<lambda>num m. mput num (mget0 0 m num + 1) m) xs m) x
     = mget0 0 m x + int (count (mset xs) x)"
  by (induction xs arbitrary: m) auto

lemma mget0_count_map: "mget0 0 (count_map xs) x = int (count (mset xs) x)"
  by (simp add: count_map_def mget0_count_fold)

lemma wf_count_fold: "wf_map m \<Longrightarrow> wf_map (fold (\<lambda>num m. mput num (mget0 0 m num + 1) m) xs m)"
  by (induction xs arbitrary: m) auto

lemma wf_count_map: "wf_map (count_map xs)"
  by (simp add: count_map_def wf_count_fold)

lemma mhas_count_fold:
  "mhas (fold (\<lambda>num m. mput num (mget0 0 m num + 1) m) xs m) x \<longleftrightarrow> x \<in> set xs \<or> mhas m x"
  by (induction xs arbitrary: m) auto

lemma count_map_entry: "(x, c) \<in> set (count_map xs) \<Longrightarrow> c = int (count (mset xs) x)"
  using wf_map_in_set [OF wf_count_map] mget0_count_map [of xs x] by (simp add: mget0_def)

lemma count_map_has: "x \<in> set xs \<Longrightarrow> (x, int (count (mset xs) x)) \<in> set (count_map xs)"
  using mhas_count_fold [of xs "[]" x] count_map_entry [of x _ xs]
  by (fastforce simp: mhas_def count_map_def dest: map_of_SomeD)

lemma IntArrayContains_subset: "IntArrayContains a b \<longleftrightarrow> mset b \<subseteq># mset a"
proof
  assume L: "IntArrayContains a b"
  show "mset b \<subseteq># mset a"
  proof (rule mset_subset_eqI)
    fix x
    show "count (mset b) x \<le> count (mset a) x"
    proof (cases "x \<in> set b")
      case True
      with L count_map_has [OF True] show ?thesis
        by (auto simp: IntArrayContains_def Let_def list_all_iff mget0_count_map)
    next
      case False
      then have "count (mset b) x = 0" by simp
      then show ?thesis by linarith
    qed
  qed
next
  assume "mset b \<subseteq># mset a"
  then show "IntArrayContains a b"
    by (auto simp: IntArrayContains_def Let_def list_all_iff mget0_count_map not_less
        dest!: count_map_entry intro: mset_subset_eq_count)
qed

lemma IntMapContains_compatible:
  assumes "wf_map a"
  shows "IntMapContains a b \<longleftrightarrow>
    (\<forall>k v w. mget a k = Some v \<longrightarrow> mget b k = Some w \<longrightarrow> v = w)"
  by (auto simp: IntMapContains_def list_all_wf_map [OF assms] split: option.splits)

lemma IntMapEquals_iff:
  assumes "wf_map a" and "wf_map b"
  shows "IntMapEquals a b \<longleftrightarrow> map_of a = map_of b"
proof -
  have dom: "card (dom (map_of m)) = length m" if "wf_map m" for m :: "(int, int) gomap"
    using that by (metis distinct_card dom_map_of_conv_image_fst length_map list.set_map wf_map_def)
  have A: "list_all (\<lambda>(k, v). case mget b k of Some w \<Rightarrow> v = w | None \<Rightarrow> False) a \<longleftrightarrow>
      map_of a \<subseteq>\<^sub>m map_of b"
    by (fastforce simp: list_all_wf_map [OF assms(1)] map_le_def dom_def split: option.splits)
  show ?thesis
  proof
    assume "IntMapEquals a b"
    then have le: "map_of a \<subseteq>\<^sub>m map_of b" and "length a = length b"
      using A by (auto simp: IntMapEquals_def split: if_splits)
    then have "dom (map_of a) = dom (map_of b)"
      using dom [OF assms(1)] dom [OF assms(2)] map_le_implies_dom_le [OF le]
      by (metis card_subset_eq finite_dom_map_of)
    with le show "map_of a = map_of b"
      by (metis map_le_antisym map_le_def)
  next
    assume "map_of a = map_of b"
    with A dom [OF assms(1)] dom [OF assms(2)] show "IntMapEquals a b"
      by (simp add: IntMapEquals_def)
  qed
qed

lemma length_4_list: "length qs = 4 \<Longrightarrow> \<exists>a b c d. qs = [a, b, c, d]"
  by (auto simp: numeral_eq_Suc length_Suc_conv)

lemma hasRepeatState_iff:
  "hasRepeatState points \<longleftrightarrow> (\<exists>ps x y. points = ps @ [x, y, x, y])"
proof
  assume h: "hasRepeatState points"
  then have len: "4 \<le> length points"
    by (auto simp: hasRepeatState_def Let_def split: if_splits)
  let ?ps = "take (length points - 4) points" and ?qs = "drop (length points - 4) points"
  have "length ?qs = 4" using len by simp
  then obtain a b c d where q: "?qs = [a, b, c, d]" by (blast dest: length_4_list)
  have "length points - 2 = 2 + (length points - 4)" using len by simp
  then have "drop (length points - 2) points = drop 2 ?qs" by (simp only: drop_drop)
  with q have "[c, d] = [a, b]"
    using h len by (simp add: hasRepeatState_def Let_def sprint_ints_inject)
  with q show "\<exists>ps x y. points = ps @ [x, y, x, y]"
    by (metis append_take_drop_id list.inject)
next
  assume "\<exists>ps x y. points = ps @ [x, y, x, y]"
  then show "hasRepeatState points"
    by (auto simp: hasRepeatState_def Let_def sprint_ints_inject)
qed

end
