(* ===== verification/RFGModel.thy ===== *)
theory RFGModel
  imports SSAView ConcUtil
begin

text \<open>
  The data of \<open>concurrency/rfg.go\<close> and \<open>concurrency/rfgplus.go\<close>: nodes of the resource flow graph,
  the graph itself, the states of the blocking-bug exploration and the records of the race
  detector.

  Every \<open>*Node\<close> is created with a fresh \<open>id\<close> and registered in \<open>id2node\<close> under it, so a pointer to
  a node is that id, and dereferencing a pointer is a lookup in \<open>id2node\<close> (\<open>node_at\<close>); a pointer
  that may be nil is an \<open>option\<close>. The back pointers \<open>detectionState.g\<close> and \<open>RFGPlusGraph.g\<close> are
  left out: the functions take the graph as an argument. Package variables and flags are the
  record \<open>env\<close>, with the two choices Go leaves open: the order of a range over a map and the
  numbers drawn by \<open>math/rand\<close>.
\<close>

section \<open>Package variables, flags and run-time choices\<close>

record env =
  DEBUG :: bool
  EXPLORE_ALL_STATES :: bool
  RANDOM_STATE :: bool
  Plus :: bool
  DoRace :: bool
  UNIQUE_RACE_LOC :: bool
  USE_PTS_COMBINE :: bool
  MORE_WRITE :: bool
  map_order :: "int list \<Rightarrow> int list"   \<comment> \<open>order of one range over the keys of a map\<close>
  str_order :: "string list \<Rightarrow> string list"
  Intn :: "nat \<Rightarrow> nat \<Rightarrow> nat"            \<comment> \<open>\<open>Intn k size\<close>: the \<open>k\<close>-th draw of \<open>rand.Intn(size)\<close>\<close>

definition default_env :: env where
  "default_env = \<lparr>DEBUG = False, EXPLORE_ALL_STATES = True, RANDOM_STATE = True, Plus = False,
     DoRace = False, UNIQUE_RACE_LOC = True, USE_PTS_COMBINE = False, MORE_WRITE = False,
     map_order = (\<lambda>ks. ks), str_order = (\<lambda>ks. ks), Intn = (\<lambda>k size. k mod size)\<rparr>"

definition proper_env :: "env \<Rightarrow> bool" where
  "proper_env E \<longleftrightarrow> is_range_order (map_order E) \<and> is_range_order (str_order E) \<and> (\<forall>k size. 0 < size \<longrightarrow> Intn E k size < size)"

section \<open>Nodes\<close>

datatype TypeOfNode =
    NGoroutine | NChannel | NSelect | NCase | NCaseDone | NReturn | NLoop | NROC | NClose
  | NLock | NUnlock | NRLock | NRUnlock
  | NFunc | NExit
  | NCancel | NCtxDone
  | NWGWait | NWGDone
  | NCONDWait | NSignal | NBroadcast
  | NRW

record ctx_pair =
  pair_loc :: string
  base_obj :: int

record RWNode =
  rw_n :: int             \<comment> \<open>the node it belongs to\<close>
  rw_id :: int
  rw_write :: bool        \<comment> \<open>\<open>typID = NWrite\<close>\<close>
  rw_inst :: instruction
  rw_lockset :: "int list"
  rw_pts :: "int list"
  rw_field :: int

record node =
  node_id :: int
  typId :: TypeOfNode
  cgnode :: cg_node
  parent_id :: int
  gid :: int
  g_name :: string
  g_inst :: "instruction option"
  ch_name :: string
  ch_send_inst :: "instruction option"
  ch_rec_inst :: "instruction option"
  ch_ptr :: "ssa_value option"
  isSender :: bool
  ch_close_inst :: "instruction option"
  loop_name :: string
  loop_bb :: "basic_block option"
  enterLoop :: bool
  roc_name :: string
  roc_bb :: "basic_block option"
  enterROC :: bool
  roc_ch :: "ssa_value option"
  sel_name :: string
  sel_inst :: "instruction option"
  sel_cases :: "int option list"
  is_in_for_loop :: bool
  case_ch_name :: string
  case_sel :: "int option"
  case_to_end :: bool
  case_state :: "select_state option"
  default_inst :: "instruction option"
  select_node_id :: int
  fn_name :: string
  lock_name :: string
  lock_inst :: "instruction option"
  lock_ptr :: "ssa_value option"
  unlock_name :: string
  unlock_inst :: "instruction option"
  ctx_name :: string
  cancel_inst :: "instruction option"
  done_inst :: "instruction option"
  ctx_p :: "ctx_pair option"
  is_cancel :: bool
  wg_ptr :: "ssa_value option"
  wg_pts :: "int list"
  wait_inst :: "instruction option"
  wg_done_inst :: "instruction option"
  seen_done :: bool
  isWGDone :: bool
  cond_ptr :: "ssa_value option"
  signal_inst :: "instruction option"
  broadcast_inst :: "instruction option"
  from_defer :: bool
  ret_inst :: "instruction option"
  is_copy :: bool
  rws :: "RWNode list"
  node_hip :: "int list"

text \<open>A composite literal \<open>&Node{...}\<close> starts from the zero value of every field.\<close>

definition zero_cg_node :: cg_node where
  "zero_cg_node = \<lparr>cg_id = 0, cg_func = []\<rparr>"

definition zero_node :: node where
  "zero_node = \<lparr>node_id = 0, typId = NGoroutine, cgnode = zero_cg_node, parent_id = 0, gid = 0,
     g_name = [], g_inst = None,
     ch_name = [], ch_send_inst = None, ch_rec_inst = None, ch_ptr = None, isSender = False,
     ch_close_inst = None,
     loop_name = [], loop_bb = None, enterLoop = False,
     roc_name = [], roc_bb = None, enterROC = False, roc_ch = None,
     sel_name = [], sel_inst = None, sel_cases = [], is_in_for_loop = False,
     case_ch_name = [], case_sel = None, case_to_end = False, case_state = None,
     default_inst = None, select_node_id = 0, fn_name = [],
     lock_name = [], lock_inst = None, lock_ptr = None, unlock_name = [], unlock_inst = None,
     ctx_name = [], cancel_inst = None, done_inst = None, ctx_p = None, is_cancel = False,
     wg_ptr = None, wg_pts = [], wait_inst = None, wg_done_inst = None, seen_done = False,
     isWGDone = False, cond_ptr = None, signal_inst = None, broadcast_inst = None,
     from_defer = False, ret_inst = None, is_copy = False, rws = [], node_hip = []\<rparr>"

section \<open>Exploration states\<close>

record detectionState =
  splitting_points :: "int list"
  pause_ats :: "int list"
  can_walk :: "(int, bool) gomap"
  pairs :: "(int, int) gomap"
  hip :: "int list"
  visit_last :: "int list"
  visit_loops :: "(string, int) gomap"
  lockset :: "(int, int) gomap"
  rlockset :: "(int, int) gomap"
  doublelock :: "(int, int list) gomap"
  twolock :: "(int, int list) gomap"
  triplelocks :: "(int, int list) gomap"
  visited :: "(int, int) gomap"
  start_node_id :: int
  start_tid :: int

section \<open>The graph\<close>

record ProducerConsumer =
  producers :: "int list"
  consumers :: "int list"

record CFError =
  cf_inst_pos :: int
  cf_inst_unlock_pos :: int
  cf_interupt_pos :: int
  cf_stmt_str :: string

record BlockError =
  tid2loc :: "(int, string) gomap"
  be_state :: detectionState

record DataRace =
  race_a :: RWNode
  race_b :: RWNode
  pos_a :: int
  pos_b :: int
  stmt_a :: string
  stmt_b :: string
  loc_a :: string
  loc_b :: string
  race_entries :: "(string, string) gomap"

record RFGPlusGraph =
  pts2WriteNode :: "(string, (int, RWNode) gomap) gomap"
  pts2ReadNode :: "(string, (int, RWNode) gomap) gomap"
  obj2WriteNode :: "(int, (int, RWNode) gomap) gomap"
  obj2ReadNode :: "(int, (int, RWNode) gomap) gomap"
  checked :: "(string, string) gomap"
  size_edge :: int
  size_node :: int
  races :: "(string, DataRace) gomap"

text \<open>
  \<open>pa\<close> stands for the queries of the pointer-analysis result the detectors make:
  \<open>PointsToByContext(key, ctx).PointsTo().GetPTS()\<close>, \<open>GetGlobalVarID\<close> and \<open>GetPTSByObjID\<close>.
\<close>

record pta_result =
  PointsTo :: "ssa_value \<Rightarrow> cg_node \<Rightarrow> int list"
  GetGlobalVarID :: "ssa_value \<Rightarrow> int list"
  GetPTSByObjID :: "int \<Rightarrow> int list"

record RFGraph =
  pa :: pta_result
  next_ID :: int                       \<comment> \<open>the package variable \<open>ID\<close>\<close>
  roots :: "int list"
  adjList :: "(int option, int list) gomap"
  id2node :: "(int, node) gomap"
  g_visited :: "(string, int) gomap"
  contexts :: "(int, ctx_pair) gomap"
  rfg_alias :: "(int, int) gomap"
  tid2end :: "(int, int) gomap"
  resources :: "(int, ProducerConsumer) gomap"
  states :: "detectionState list"
  tid2wg_pts :: "(int, int list) gomap"
  cferrs :: "CFError list"
  berrs :: "BlockError list"
  rfgplus :: RFGPlusGraph
  holding_locks :: "(int, (int, bool) gomap) gomap"
  holding_rlocks :: "(int, (int, bool) gomap) gomap"
  cache :: "(string, bool) gomap"
  syncAdjList :: "(int, int list) gomap"
  gid2nloop :: "(int, (int, int) gomap) gomap"

definition InitializeRFGPlus :: RFGPlusGraph where
  "InitializeRFGPlus = \<lparr>pts2WriteNode = [], pts2ReadNode = [], obj2WriteNode = [],
     obj2ReadNode = [], checked = [], size_edge = 0, size_node = 0, races = []\<rparr>"

text \<open>\<open>CreateGraph\<close> stores the pointer-analysis result; the other fields start empty.\<close>

definition InitializeRFG :: "pta_result \<Rightarrow> RFGraph" where
  "InitializeRFG ptResult = \<lparr>pa = ptResult, next_ID = 0, roots = [], adjList = [], id2node = [],
     g_visited = [], contexts = [], rfg_alias = [], tid2end = [], resources = [], states = [],
     tid2wg_pts = [], cferrs = [], berrs = [], rfgplus = InitializeRFGPlus, holding_locks = [],
     holding_rlocks = [], cache = [], syncAdjList = [], gid2nloop = []\<rparr>"

text \<open>
  \<open>getSourceCode\<close> looks the position up in the file set of the program and reads the line from the
  file: a parameter here, giving the location as a string and the statement.
\<close>

type_synonym source = "int \<Rightarrow> string \<times> string"

text \<open>Dereferencing a \<open>*Node\<close>, and reading the kids of a node.\<close>

definition node_at :: "RFGraph \<Rightarrow> int \<Rightarrow> node res" where
  "node_at g i = deref (mget (id2node g) i)"

definition kids :: "RFGraph \<Rightarrow> int \<Rightarrow> int list" where
  "kids g i = mget0 [] (adjList g) (Some i)"

text \<open>\<open>getPTS\<close>: the objects a value may point to, with aliased objects replaced by their base.\<close>

definition getPTS :: "RFGraph \<Rightarrow> ssa_value \<Rightarrow> cg_node \<Rightarrow> int list" where
  "getPTS g key cg =
     (if val_global key then GetGlobalVarID (pa g) key
      else map (\<lambda>obj. case mget (rfg_alias g) obj of Some base \<Rightarrow> base | None \<Rightarrow> obj)
             (PointsTo (pa g) key cg))"

text \<open>
  The ssa value stored in a field of a node: the points-to query of a nil value finds no pointer and
  returns the empty set (outside the debug mode of the pointer analysis).
\<close>

definition ptr_pts :: "RFGraph \<Rightarrow> ssa_value option \<Rightarrow> cg_node \<Rightarrow> int list" where
  "ptr_pts g v cg = (case v of None \<Rightarrow> [] | Some key \<Rightarrow> getPTS g key cg)"

definition node_pts :: "RFGraph \<Rightarrow> ssa_value option \<Rightarrow> cg_node \<Rightarrow> int list res" where
  "node_pts g v cg = Ok (ptr_pts g v cg)"

lemma node_at_Ok [res_simps]: "node_at g i = Ok n \<longleftrightarrow> mget (id2node g) i = Some n"
  by (simp add: node_at_def deref_Ok_iff)

lemma node_pts_Ok [res_simps]: "node_pts g v cg = Ok pts \<longleftrightarrow> pts = ptr_pts g v cg"
  by (auto simp: node_pts_def)

end
