(* ===== verification/DetState.thy ===== *)
theory DetState
  imports RFGModel
begin

text \<open>
  Methods of \<open>detectionState\<close> and the helpers of \<open>RFGraph\<close> that only read a state: which goroutines
  are paused, which may walk, which lock holders can be resumed, which consumers a producer can be
  matched with, and whether a new state has been explored before.
\<close>

section \<open>Reading a state\<close>

definition pause_at :: "detectionState \<Rightarrow> int \<Rightarrow> int res" where
  "pause_at h tid = slice_get (pause_ats h) tid"

definition isInHIP :: "detectionState \<Rightarrow> int \<Rightarrow> bool" where
  "isInHIP h tid = list_ex (\<lambda>t. t = tid) (hip h)"

definition isInLocks :: "detectionState \<Rightarrow> int \<Rightarrow> bool" where
  "isInLocks h i =
     (list_ex (\<lambda>(_, l). list_ex (\<lambda>n. n = i) l) (doublelock h) \<or>
      list_ex (\<lambda>(_, l). list_ex (\<lambda>n. n = i) l) (twolock h) \<or>
      list_ex (\<lambda>(_, l). list_ex (\<lambda>n. n = i) l) (triplelocks h))"

text \<open>One round of the loop over a lock set: the paused lock to resume, if the round returns it.\<close>

definition paused_lock_of ::
  "RFGraph \<Rightarrow> detectionState \<Rightarrow> TypeOfNode \<Rightarrow> (int, int) gomap \<Rightarrow> int \<Rightarrow> (int \<times> int) option res" where
  "paused_lock_of g h typ locks obj =
     bindR (deref (mget locks obj)) (\<lambda>l.
     bindR (node_at g l) (\<lambda>lock.
     bindR (pause_at h (gid lock)) (\<lambda>i.
       if i < 0 \<or> \<not> isInHIP h (gid lock) then Ok None
       else bindR (node_at g i) (\<lambda>nd.
         if typId nd = typ \<and> \<not> isInLocks h (node_id nd) then Ok (Some (i, gid nd)) else Ok None))))"

definition holdingLock :: "env \<Rightarrow> RFGraph \<Rightarrow> detectionState \<Rightarrow> (int \<times> int) res" where
  "holdingLock E g h =
     bindR (findR (paused_lock_of g h NLock (lockset h)) (range_keys (map_order E) (lockset h)))
       (\<lambda>r. case r of Some x \<Rightarrow> Ok x | None \<Rightarrow> Ok (-1, -1))"

definition holdingRLock :: "env \<Rightarrow> RFGraph \<Rightarrow> detectionState \<Rightarrow> (int \<times> int) res" where
  "holdingRLock E g h =
     bindR (findR (paused_lock_of g h NRLock (rlockset h)) (range_keys (map_order E) (rlockset h)))
       (\<lambda>r. case r of Some x \<Rightarrow> Ok x | None \<Rightarrow> Ok (-1, -1))"

text \<open>
  \<open>getRandomTID\<close> draws until an acceptable thread comes up; \<open>k\<close> counts the draws of the run, and
  the first argument bounds the draws of this call.
\<close>

fun getRandomTID :: "nat \<Rightarrow> env \<Rightarrow> nat \<Rightarrow> detectionState \<Rightarrow> int \<Rightarrow> int \<Rightarrow> (int \<times> nat) res" where
  "getRandomTID 0 E k h cur_tid prev_tid =
     (if hip h = [] then Ok (-1, k) else OutOfFuel)"
| "getRandomTID (Suc fuel) E k h cur_tid prev_tid =
     (if hip h = [] then Ok (-1, k)
      else let size = length (hip h); random_idx = Intn E k size in
        bindR (slice_get (hip h) (int random_idx)) (\<lambda>random_tid.
          if size = 2 \<and> random_tid = cur_tid then
            (if prev_tid = random_tid then
               bindR (slice_get (hip h) (1 - int random_idx)) (\<lambda>other. Ok (other, Suc k))
             else getRandomTID fuel E (Suc k) h cur_tid prev_tid)
          else if random_tid \<noteq> cur_tid then Ok (random_tid, Suc k)
          else if size = 1 \<and> random_tid = prev_tid then Ok (random_tid, Suc k)
          else getRandomTID fuel E (Suc k) h cur_tid prev_tid))"

definition canHIP :: "detectionState \<Rightarrow> int \<Rightarrow> int \<Rightarrow> bool" where
  "canHIP h check_tid cur_tid =
     (if check_tid = cur_tid then False else list_ex (\<lambda>i. i = check_tid) (hip h))"

definition hasVisitLast :: "detectionState \<Rightarrow> bool" where
  "hasVisitLast h = list_ex (\<lambda>i. i > 0) (visit_last h)"

definition hasManyPausedWaits :: "RFGraph \<Rightarrow> detectionState \<Rightarrow> bool" where
  "hasManyPausedWaits g h =
     (length (filter (\<lambda>i. case mget (id2node g) i of
                 Some n \<Rightarrow> typId n = NCONDWait | None \<Rightarrow> False) (pause_ats h)) \<ge> 1)"

definition noPausedIsWalkable :: "detectionState \<Rightarrow> bool res" where
  "noPausedIsWalkable h =
     bindR (findR (\<lambda>tid. bindR (pause_at h tid) (\<lambda>i.
              if mget (can_walk h) i = Some True then Ok (Some ()) else Ok None)) (hip h))
       (\<lambda>r. Ok (r = None))"

definition noWalk :: "detectionState \<Rightarrow> bool" where
  "noWalk h = list_all (\<lambda>(_, can). \<not> can) (can_walk h)"

definition hasMeaningfulPaused :: "detectionState \<Rightarrow> bool" where
  "hasMeaningfulPaused h = list_ex (\<lambda>pause. pause \<ge> 0) (pause_ats h)"

definition noPaused :: "detectionState \<Rightarrow> bool" where
  "noPaused h = list_all (\<lambda>pause. pause = -2) (pause_ats h)"

definition noPausedWaits :: "RFGraph \<Rightarrow> detectionState \<Rightarrow> (int \<times> int) res" where
  "noPausedWaits g h =
     bindR (findR (\<lambda>pause. if pause < 0 then Ok None else
              bindR (node_at g pause) (\<lambda>nd.
                if typId nd = NUnlock \<or> typId nd = NRUnlock \<or> typId nd = NWGWait
                then Ok (Some (node_id nd, gid nd)) else Ok None)) (pause_ats h))
       (\<lambda>r. case r of Some x \<Rightarrow> Ok x | None \<Rightarrow> Ok (-1, -1))"

definition copy_state :: "detectionState \<Rightarrow> int \<Rightarrow> detectionState" where
  "copy_state h i = \<lparr>splitting_points = splitting_points h @ [i], pause_ats = pause_ats h,
     can_walk = can_walk h, pairs = pairs h, hip = hip h, visit_last = visit_last h,
     visit_loops = visit_loops h, lockset = lockset h, rlockset = rlockset h,
     doublelock = doublelock h, twolock = twolock h, triplelocks = triplelocks h,
     visited = visited h, start_node_id = 0, start_tid = 0\<rparr>"

section \<open>Reading the graph\<close>

definition isDuplicateState :: "RFGraph \<Rightarrow> detectionState \<Rightarrow> bool" where
  "isDuplicateState g state =
     (if hasRepeatState (splitting_points state) then True
      else list_ex (\<lambda>s. IntArrayContains (splitting_points s) (splitting_points state) \<or>
                        IntMapContains (pairs s) (pairs state)) (states g))"

definition noOtherLockOnResource :: "RFGraph \<Rightarrow> int list \<Rightarrow> bool" where
  "noOtherLockOnResource g pts =
     list_all (\<lambda>obj. case mget (resources g) obj of
        None \<Rightarrow> True | Some pcs \<Rightarrow> \<not> length (consumers pcs) > 1) pts"

text \<open>
  \<open>pickConsumers\<close>: the first loop keeps, per thread, the smallest consumer id, and collects the
  consumers with the \<open>select_node_id\<close> of the first one; the second adds each thread's smallest
  consumer if it is not paired and can happen in parallel.
\<close>

definition pick_round ::
  "RFGraph \<Rightarrow> int \<Rightarrow> int list \<times> (int, int) gomap \<times> int \<Rightarrow> (int list \<times> (int, int) gomap \<times> int) res" where
  "pick_round g c = (\<lambda>(ret, tid2nodeid, sel). bindR (node_at g c) (\<lambda>n.
     let tid2nodeid' = (case mget tid2nodeid (gid n) of
             Some nid \<Rightarrow> mput (gid n) (if nid > node_id n then node_id n else nid) tid2nodeid
           | None \<Rightarrow> mput (gid n) (node_id n) tid2nodeid)
     in if sel = -1 then Ok (ret, tid2nodeid', select_node_id n)
        else if select_node_id n = sel then Ok (ret @ [c], tid2nodeid', sel)
        else Ok (ret, tid2nodeid', sel)))"

definition pickConsumers ::
  "env \<Rightarrow> RFGraph \<Rightarrow> int list \<Rightarrow> int \<Rightarrow> detectionState \<Rightarrow> int list res" where
  "pickConsumers E g cs cur_tid ds =
     bindR (loopR (pick_round g) cs ([], [], -1)) (\<lambda>(ret, tid2nodeid, _).
       Ok (ret @ concat (map (\<lambda>tid. case mget tid2nodeid tid of
               Some i \<Rightarrow> if \<not> mhas (pairs ds) i \<and> canHIP ds tid cur_tid then [i] else []
             | None \<Rightarrow> []) (range_keys (map_order E) tid2nodeid))))"

definition onlyICanWalk :: "RFGraph \<Rightarrow> int \<Rightarrow> detectionState \<Rightarrow> bool res" where
  "onlyICanWalk g cur_tid ds =
     bindR (findR (\<lambda>tid. bindR (pause_at ds tid) (\<lambda>paused.
              if cur_tid = tid \<or> paused = -2 \<or> paused = -1 then Ok None else Ok (Some ())))
            (map int [0..<length (roots g)]))
       (\<lambda>r. Ok (r = None))"

section \<open>What they compute\<close>

lemma isInHIP_iff: "isInHIP h t \<longleftrightarrow> t \<in> set (hip h)"
  by (auto simp: isInHIP_def list_ex_iff)

lemma canHIP_iff: "canHIP h t cur \<longleftrightarrow> t \<noteq> cur \<and> t \<in> set (hip h)"
  by (auto simp: canHIP_def list_ex_iff)

lemma getRandomTID_mem:
  assumes "getRandomTID fuel E k h cur prev = Ok (t, k')" and "hip h \<noteq> []"
  shows "t \<in> set (hip h)"
  using assms
  by (induction fuel E k h cur prev rule: getRandomTID.induct)
     (auto simp: Let_def res_simps in_range_def split: if_splits)

lemma getRandomTID_other:
  assumes "getRandomTID fuel E k h cur prev = Ok (t, k')" and "distinct (hip h)"
    and "3 \<le> length (hip h)"
  shows "t \<noteq> cur"
  using assms
  by (induction fuel E k h cur prev rule: getRandomTID.induct)
     (auto simp: Let_def res_simps split: if_splits)

lemma noPaused_iff: "noPaused h \<longleftrightarrow> set (pause_ats h) \<subseteq> {-2}"
  by (auto simp: noPaused_def list_all_iff)

lemma noPaused_not_meaningful: "noPaused h \<Longrightarrow> \<not> hasMeaningfulPaused h"
  by (force simp: noPaused_def hasMeaningfulPaused_def list_all_iff list_ex_iff)

lemma holdingLock_sound:
  assumes "holdingLock E g h = Ok (i, t)" and "t \<noteq> -1"
  shows "\<exists>n. mget (id2node g) i = Some n \<and> typId n = NLock \<and> gid n = t \<and> i \<in> set (pause_ats h)
           \<and> 0 \<le> i \<and> \<not> isInLocks h (node_id n)"
  using assms
  by (fastforce simp: holdingLock_def paused_lock_of_def pause_at_def res_simps in_range_def
      split: option.splits if_splits dest!: findR_Some)

lemma holdingRLock_sound:
  assumes "holdingRLock E g h = Ok (i, t)" and "t \<noteq> -1"
  shows "\<exists>n. mget (id2node g) i = Some n \<and> typId n = NRLock \<and> gid n = t \<and> i \<in> set (pause_ats h)
           \<and> 0 \<le> i \<and> \<not> isInLocks h (node_id n)"
  using assms
  by (fastforce simp: holdingRLock_def paused_lock_of_def pause_at_def res_simps in_range_def
      split: option.splits if_splits dest!: findR_Some)

lemma copy_state_sel [simp]:
  "splitting_points (copy_state h i) = splitting_points h @ [i]"
  "pause_ats (copy_state h i) = pause_ats h" "can_walk (copy_state h i) = can_walk h"
  "pairs (copy_state h i) = pairs h" "hip (copy_state h i) = hip h"
  "visit_last (copy_state h i) = visit_last h" "visit_loops (copy_state h i) = visit_loops h"
  "lockset (copy_state h i) = lockset h" "rlockset (copy_state h i) = rlockset h"
  "doublelock (copy_state h i) = doublelock h" "twolock (copy_state h i) = twolock h"
  "triplelocks (copy_state h i) = triplelocks h" "visited (copy_state h i) = visited h"
  by (simp_all add: copy_state_def)

text \<open>The table \<open>pickConsumers\<close> builds: the smallest consumer of each thread.\<close>

definition min_of_thread :: "RFGraph \<Rightarrow> int list \<Rightarrow> int \<Rightarrow> int option" where
  "min_of_thread g cs tid =
     (let own = filter (\<lambda>c. case mget (id2node g) c of Some n \<Rightarrow> gid n = tid | None \<Rightarrow> False) cs
      in if own = [] then None else Some (Min (set own)))"

definition ids_ok :: "RFGraph \<Rightarrow> bool" where
  "ids_ok g \<longleftrightarrow> (\<forall>i n. mget (id2node g) i = Some n \<longrightarrow> node_id n = i)"

lemma min_of_thread_snoc:
  assumes "mget (id2node g) c = Some n"
  shows "min_of_thread g (cs @ [c]) tid =
    (if gid n = tid then (case min_of_thread g cs tid of None \<Rightarrow> Some c | Some m \<Rightarrow> Some (min m c))
     else min_of_thread g cs tid)"
proof -
  define own where
    "own = filter (\<lambda>c. case mget (id2node g) c of Some n \<Rightarrow> gid n = tid | None \<Rightarrow> False) cs"
  have "Min (insert c (set own)) = min (Min (set own)) c" if "own \<noteq> []"
    using that by (simp add: min.commute)
  with assms show ?thesis
    by (simp add: min_of_thread_def Let_def flip: own_def)
qed

lemma pick_loop_table:
  assumes "ids_ok g" and "loopR (pick_round g) cs ([], [], -1) = Ok (ret, tbl, sel)"
  shows "mget tbl = min_of_thread g cs \<and> wf_map tbl \<and> set ret \<subseteq> set cs"
  using assms(2)
proof (induction cs arbitrary: ret tbl sel rule: rev_induct)
  case Nil
  then show ?case by (auto simp: min_of_thread_def)
next
  case (snoc c cs)
  from snoc.prems obtain ret0 tbl0 sel0 where
    0: "loopR (pick_round g) cs ([], [], -1) = Ok (ret0, tbl0, sel0)"
    and r: "pick_round g c (ret0, tbl0, sel0) = Ok (ret, tbl, sel)"
    by (auto simp: loopR_append)
  from snoc.IH [OF 0] have IH: "mget tbl0 = min_of_thread g cs" "wf_map tbl0" "set ret0 \<subseteq> set cs"
    by auto
  from r obtain n where n: "mget (id2node g) c = Some n" "node_id n = c"
    using assms(1) by (auto simp: pick_round_def res_simps ids_ok_def)
  from r n have tbl: "tbl = (case mget tbl0 (gid n) of
      Some nid \<Rightarrow> mput (gid n) (if nid > c then c else nid) tbl0 | None \<Rightarrow> mput (gid n) c tbl0)"
    and ret: "set ret \<subseteq> insert c (set ret0)"
    by (auto simp: pick_round_def res_simps Let_def split: if_splits)
  have "mget tbl = min_of_thread g (cs @ [c])"
    by (auto simp: fun_eq_iff min_of_thread_snoc [OF n(1)] tbl IH(1) min_def split: option.splits)
  moreover have "wf_map tbl" using IH(2) by (auto simp: tbl split: option.splits)
  ultimately show ?case using ret IH(3) by auto
qed

text \<open>
  What \<open>pickConsumers\<close> offers: besides consumers of the list that share the first one's select, only
  the smallest consumer of a parallel thread, and only if it is not paired yet.
\<close>

lemma pickConsumers_sound:
  assumes "ids_ok g" and "proper_env E" and "pickConsumers E g cs cur ds = Ok xs"
  shows "set xs \<subseteq> set cs"
proof -
  from assms(3) obtain ret tbl sel where
    l: "loopR (pick_round g) cs ([], [], -1) = Ok (ret, tbl, sel)"
    and xs: "xs = ret @ concat (map (\<lambda>tid. case mget tbl tid of
               Some i \<Rightarrow> if \<not> mhas (pairs ds) i \<and> canHIP ds tid cur then [i] else []
             | None \<Rightarrow> []) (range_keys (map_order E) tbl))"
    by (auto simp: pickConsumers_def)
  from pick_loop_table [OF assms(1) l]
  have T: "mget tbl = min_of_thread g cs" "set ret \<subseteq> set cs" by auto
  have "i \<in> set cs" if "mget tbl tid = Some i" for tid i
  proof -
    let ?own = "filter (\<lambda>c. case mget (id2node g) c of Some n \<Rightarrow> gid n = tid | None \<Rightarrow> False) cs"
    from that T(1) have "?own \<noteq> []" "i = Min (set ?own)"
      by (auto simp: min_of_thread_def Let_def split: if_splits)
    then have "i \<in> set ?own" by (metis List.finite_set Min_in set_empty)
    then show ?thesis by simp
  qed
  with T(2) show ?thesis by (auto simp: xs split: option.splits if_splits)
qed

lemma pickConsumers_complete:
  assumes "ids_ok g" and "proper_env E" and "pickConsumers E g cs cur ds = Ok xs"
    and "min_of_thread g cs tid = Some i" and "mget (pairs ds) i = None" and "canHIP ds tid cur"
  shows "i \<in> set xs"
proof -
  from assms(3) obtain ret tbl sel where
    l: "loopR (pick_round g) cs ([], [], -1) = Ok (ret, tbl, sel)"
    and xs: "xs = ret @ concat (map (\<lambda>tid. case mget tbl tid of
               Some i \<Rightarrow> if \<not> mhas (pairs ds) i \<and> canHIP ds tid cur then [i] else []
             | None \<Rightarrow> []) (range_keys (map_order E) tbl))"
    by (auto simp: pickConsumers_def)
  from pick_loop_table [OF assms(1) l] assms(4) have "mget tbl tid = Some i" by simp
  moreover from this have "tid \<in> set (range_keys (map_order E) tbl)"
    using assms(2) by (auto simp: proper_env_def set_range_keys)
  ultimately show ?thesis using assms(5,6) by (force simp: xs mhas_def)
qed

end
