(* ===== verification/Matching.thy ===== *)
theory Matching
  imports DetState
begin

text \<open>
  The closures of \<open>RFGraph.visitNode\<close>: pausing a thread, splitting off a new state, matching a
  producer with its consumers, a consumer with its producer, and the lock tests. A visit reads and
  updates the graph (only its queue of states), the current state and the flag \<open>traverse\<close>
  (\<open>vstate\<close>). The node being visited is passed as its record \<open>cur\<close>, other nodes as pointers.
\<close>

type_synonym vstate = "RFGraph \<times> detectionState \<times> bool"

definition push_state :: "RFGraph \<Rightarrow> detectionState \<Rightarrow> RFGraph" where
  "push_state g d = g\<lparr>states := states g @ [d]\<rparr>"

definition pauseHere :: "int \<Rightarrow> int \<Rightarrow> vstate \<Rightarrow> vstate res" where
  "pauseHere cur_tid paused_node_id = (\<lambda>(g, ds, traverse).
     bindR (slice_set (pause_ats ds) cur_tid paused_node_id) (\<lambda>pa.
       Ok (g, ds\<lparr>pause_ats := pa\<rparr>, False)))"

definition createNewState ::
  "node \<Rightarrow> int \<Rightarrow> int \<Rightarrow> RFGraph \<Rightarrow> detectionState \<Rightarrow> RFGraph res" where
  "createNewState cur consumer matched_producer_id g ds =
     bindR (node_at g consumer) (\<lambda>c.
       if \<not> mhas (pairs ds) (node_id c) \<and> mget0 0 (visited ds) (node_id c) = 0 \<and>
          canHIP ds (gid c) (gid cur)
       then (let d = copy_state ds (node_id cur) in
         if isDuplicateState g d then Ok g
         else Ok (push_state g (d\<lparr>pairs := mput (node_id c) matched_producer_id (pairs d),
                                  can_walk := mput (node_id c) True (can_walk d),
                                  start_node_id := matched_producer_id,
                                  start_tid := gid cur\<rparr>)))
       else Ok g)"

text \<open>\<open>for _, obj := range pts { m[obj] = lock }\<close>.\<close>

definition put_all :: "int list \<Rightarrow> int \<Rightarrow> (int, int) gomap \<Rightarrow> (int, int) gomap" where
  "put_all pts lock m = fold (\<lambda>obj m. mput obj lock m) pts m"

lemma mget_put_all: "mget (put_all pts l m) k = (if k \<in> set pts then Some l else mget m k)"
  by (induction pts arbitrary: m) (auto simp: put_all_def)

definition createNewLockState ::
  "node \<Rightarrow> int list \<Rightarrow> node \<Rightarrow> RFGraph \<Rightarrow> detectionState \<Rightarrow> RFGraph res" where
  "createNewLockState lock pts held g ds =
     (let d = copy_state ds (node_id lock) in
      if isDuplicateState g d then Ok g
      else bindR (slice_set (pause_ats d) (gid held) (node_id held)) (\<lambda>pa.
        Ok (push_state g
          (d\<lparr>lockset := put_all pts (node_id lock) (mdel (gid held) (lockset d)),
             pause_ats := pa,
             visited := mput (node_id held) 0 (visited d),
             can_walk := mput (node_id lock) True (can_walk d),
             start_node_id := node_id lock,
             start_tid := gid lock\<rparr>))))"

definition markConsumerAfterMatching ::
  "int option \<Rightarrow> int \<Rightarrow> RFGraph \<Rightarrow> detectionState \<Rightarrow> detectionState res" where
  "markConsumerAfterMatching consumer matched_producer_id g ds =
     bindR (deref consumer) (\<lambda>cp. bindR (node_at g cp) (\<lambda>c.
     let ds = ds\<lparr>pairs := mput (node_id c) matched_producer_id (pairs ds)\<rparr> in
     bindR (pause_at ds (gid c)) (\<lambda>cur_pause_id.
       if cur_pause_id \<ge> 0 \<and> cur_pause_id < node_id c then Ok ds
       else let ds = ds\<lparr>can_walk := mput (node_id c) True (can_walk ds)\<rparr> in
         bindR (slice_set (pause_ats ds) (gid c) (node_id c)) (\<lambda>pa.
         let ds = ds\<lparr>pause_ats := pa\<rparr> in
         if typId c = NCase \<or> typId c = NCaseDone then
           bindR (deref (case_sel c)) (\<lambda>sp. bindR (node_at g sp) (\<lambda>sel.
             if mget0 0 (visited ds) (node_id sel) = 0
             then Ok (ds\<lparr>visited := mput (node_id sel) 1 (visited ds)\<rparr>) else Ok ds))
         else Ok ds))))"

text \<open>A case whose select has been visited and matched is no longer offered.\<close>

definition case_taken :: "RFGraph \<Rightarrow> detectionState \<Rightarrow> node \<Rightarrow> bool res" where
  "case_taken g ds c =
     (if typId c = NCase \<or> typId c = NCaseDone then
        bindR (deref (case_sel c)) (\<lambda>sp. bindR (node_at g sp) (\<lambda>sel.
          Ok (mget0 0 (visited ds) (node_id sel) = 1)))
      else Ok False)"

text \<open>
  One consumer of \<open>matchChannel\<close>: the first one matches in this state (\<open>ds_consumer\<close>), each further
  one in a new state. The loop carries \<open>found_consumer\<close>, \<open>ds_consumer\<close> and the graph.
\<close>

definition match_round ::
  "env \<Rightarrow> node \<Rightarrow> int \<Rightarrow> detectionState \<Rightarrow> int \<Rightarrow> bool \<times> int option \<times> RFGraph \<Rightarrow>
     (bool \<times> int option \<times> RFGraph) res" where
  "match_round E cur matched_producer_id ds consumer = (\<lambda>(found_consumer, ds_consumer, g).
     bindR (node_at g consumer) (\<lambda>c.
     bindR (case_taken g ds c) (\<lambda>taken.
       if taken then Ok (found_consumer, ds_consumer, g)
       else if found_consumer \<and> EXPLORE_ALL_STATES E then
         bindR (createNewState cur consumer matched_producer_id g ds) (\<lambda>g'.
           Ok (found_consumer, ds_consumer, g'))
       else if \<not> mhas (pairs ds) (node_id c) \<and> canHIP ds (gid c) (gid cur) then
         Ok (True, Some consumer, g)
       else Ok (found_consumer, ds_consumer, g))))"

definition match_objs ::
  "env \<Rightarrow> node \<Rightarrow> int \<Rightarrow> detectionState \<Rightarrow> int list \<Rightarrow> bool \<times> int option \<times> RFGraph \<Rightarrow>
     (bool \<times> int option \<times> RFGraph) res" where
  "match_objs E cur matched_producer_id ds pts s0 =
     loopR (\<lambda>obj s. case mget (resources (snd (snd s))) obj of None \<Rightarrow> Ok s
        | Some pcs \<Rightarrow>
            bindR (pickConsumers E (snd (snd s)) (consumers pcs) (gid cur) ds) (\<lambda>possibles.
              loopR (match_round E cur matched_producer_id ds) possibles s)) pts s0"

definition matchChannel ::
  "env \<Rightarrow> node \<Rightarrow> int list \<Rightarrow> bool \<Rightarrow> int \<Rightarrow> vstate \<Rightarrow> vstate res" where
  "matchChannel E cur pts need_new_state matched_producer_id = (\<lambda>(g, ds, traverse).
     bindR (match_objs E cur matched_producer_id ds pts (need_new_state, None, g))
       (\<lambda>(found_consumer, ds_consumer, g').
         bindR (if found_consumer
                then markConsumerAfterMatching ds_consumer matched_producer_id g' ds else Ok ds)
           (\<lambda>ds'. pauseHere (gid cur) matched_producer_id (g', ds', traverse))))"

definition matchConsumer :: "node \<Rightarrow> bool \<Rightarrow> vstate \<Rightarrow> vstate res" where
  "matchConsumer cur inform = (\<lambda>(g, ds, traverse).
     case mget (pairs ds) (node_id cur) of
       Some producer_id \<Rightarrow>
         if producer_id \<ge> 0 then
           (if inform then Ok (g, ds\<lparr>can_walk := mput producer_id True (can_walk ds)\<rparr>, traverse)
            else Ok (g, ds, traverse))
         else pauseHere (gid cur) (node_id cur) (g, ds, traverse)
     | None \<Rightarrow> pauseHere (gid cur) (node_id cur) (g, ds, traverse))"

definition matchAllConsumer ::
  "env \<Rightarrow> node \<Rightarrow> int \<Rightarrow> RFGraph \<times> detectionState \<Rightarrow> (RFGraph \<times> detectionState) res" where
  "matchAllConsumer E cur obj = (\<lambda>(g, ds).
     case mget (resources g) obj of None \<Rightarrow> Ok (g, ds)
     | Some pcs \<Rightarrow>
         bindR (pickConsumers E g (consumers pcs) (gid cur) ds) (\<lambda>possibles.
           loopR (\<lambda>consumer (g, ds).
             bindR (node_at g consumer) (\<lambda>c.
             bindR (case_taken g ds c) (\<lambda>taken.
               if taken then Ok (g, ds)
               else if \<not> mhas (pairs ds) (node_id c) \<and> canHIP ds (gid c) (gid cur) then
                 bindR (markConsumerAfterMatching (Some consumer) (node_id cur) g ds)
                   (\<lambda>ds'. Ok (g, ds'))
               else Ok (g, ds)))) possibles (g, ds)))"

definition isTimer :: "node \<Rightarrow> bool" where
  "isTimer c = (case case_state c of None \<Rightarrow> False
     | Some st \<Rightarrow> sel_chan_type st = ''<-chan time.Time'')"

definition updateLoops :: "string \<Rightarrow> bool \<Rightarrow> int \<Rightarrow> detectionState \<Rightarrow> detectionState" where
  "updateLoops nm is_enter nd ds =
     (if is_enter then ds\<lparr>visit_loops := mput nm nd (visit_loops ds)\<rparr>
      else ds\<lparr>visit_loops := mdel nm (visit_loops ds)\<rparr>)"

definition hasUnclosedLoop :: "RFGraph \<Rightarrow> node \<Rightarrow> detectionState \<Rightarrow> bool res" where
  "hasUnclosedLoop g cur ds =
     bindR (findR (\<lambda>(_, p). bindR (node_at g p) (\<lambda>nd.
              if gid nd = gid cur \<and> cg_func (cgnode nd) = cg_func (cgnode cur)
              then Ok (Some ()) else Ok None)) (visit_loops ds))
       (\<lambda>r. Ok (r \<noteq> None))"

definition cannotLock :: "detectionState \<Rightarrow> int list \<Rightarrow> int option" where
  "cannotLock ds pts =
     (case List.find (\<lambda>obj. mhas (lockset ds) obj) pts of
        None \<Rightarrow> None | Some obj \<Rightarrow> mget (lockset ds) obj)"

definition cannotRLock :: "detectionState \<Rightarrow> int list \<Rightarrow> int option" where
  "cannotRLock ds pts =
     (case List.find (\<lambda>obj. mhas (rlockset ds) obj) pts of
        None \<Rightarrow> None | Some obj \<Rightarrow> mget (rlockset ds) obj)"

text \<open>
  The loop of \<open>matchWGDone\<close> over the objects of a wait group. A producer that has not finished ends
  the function with \<open>false\<close>, but only under \<open>DEBUG\<close>.
\<close>

definition wg_unfinished :: "env \<Rightarrow> RFGraph \<Rightarrow> detectionState \<Rightarrow> int \<Rightarrow> unit option res" where
  "wg_unfinished E g ds producer =
     bindR (node_at g producer) (\<lambda>p.
     bindR (pause_at ds (gid p)) (\<lambda>paused.
       if paused = -2 then Ok None
       else bindR (case mget (tid2end g) (gid p) of None \<Rightarrow> Ok False
                   | Some done_node \<Rightarrow> bindR (node_at g done_node) (\<lambda>d.
                       Ok (mget0 0 (visited ds) (node_id d) = 1)))
              (\<lambda>seen. if seen then Ok None else if DEBUG E then Ok (Some ()) else Ok None)))"

definition wg_round ::
  "env \<Rightarrow> node \<Rightarrow> detectionState \<Rightarrow> int \<Rightarrow> bool \<times> int option \<times> RFGraph \<Rightarrow>
     (bool \<times> int option \<times> RFGraph) res" where
  "wg_round E cur ds consumer = (\<lambda>(found_consumer, ds_consumer, g).
     if found_consumer \<and> EXPLORE_ALL_STATES E then
       bindR (createNewState cur consumer (node_id cur) g ds) (\<lambda>g'.
         Ok (found_consumer, ds_consumer, g'))
     else bindR (node_at g consumer) (\<lambda>c.
       if \<not> mhas (pairs ds) (node_id c) \<and> canHIP ds (gid c) (gid cur)
       then Ok (True, Some consumer, g) else Ok (found_consumer, ds_consumer, g)))"

primrec matchWGDone_objs ::
  "env \<Rightarrow> node \<Rightarrow> int list \<Rightarrow> RFGraph \<times> detectionState \<Rightarrow>
     (bool \<times> RFGraph \<times> detectionState) res" where
  "matchWGDone_objs E cur [] s = Ok (True, s)"
| "matchWGDone_objs E cur (obj # objs) s =
     (case s of (g, ds) \<Rightarrow>
      case mget (resources g) obj of None \<Rightarrow> matchWGDone_objs E cur objs (g, ds)
      | Some pcs \<Rightarrow>
          bindR (findR (wg_unfinished E g ds) (producers pcs)) (\<lambda>r.
            if r \<noteq> None then Ok (False, g, ds)
            else bindR (pickConsumers E g (consumers pcs) (gid cur) ds) (\<lambda>possibles.
              bindR (loopR (wg_round E cur ds) possibles (False, None, g))
                (\<lambda>(found_consumer, ds_consumer, g').
                  bindR (if found_consumer
                         then markConsumerAfterMatching ds_consumer (node_id cur) g' ds else Ok ds)
                    (\<lambda>ds'. matchWGDone_objs E cur objs (g', ds'))))))"

definition matchWGDone ::
  "env \<Rightarrow> node \<Rightarrow> RFGraph \<times> detectionState \<Rightarrow> (bool \<times> RFGraph \<times> detectionState) res" where
  "matchWGDone E cur s = matchWGDone_objs E cur (wg_pts cur) s"

end
