(* ===== verification/VisitNode.thy ===== *)
theory VisitNode
  imports Matching
begin

text \<open>
  \<open>RFGraph.visitNode\<close>, one definition per case of its switch, and \<open>RFGraph.visit\<close>. A select visits
  the node of a chosen case, and \<open>visit\<close> visits the kids of a node, so the two are mutually
  recursive: \<open>visitNode\<close> takes the visit of a case as an argument, and \<open>visit\<close> spends one unit of
  fuel per nesting level (\<open>visit_enough_fuel\<close> in theory \<open>VisitProps\<close> says how much is enough).
\<close>

type_synonym visit_fn = "int \<Rightarrow> bool \<Rightarrow> RFGraph \<times> detectionState \<Rightarrow> vstate res"

section \<open>Channels and select cases\<close>

definition visit_NChannel :: "env \<Rightarrow> node \<Rightarrow> vstate \<Rightarrow> vstate res" where
  "visit_NChannel E cur = (\<lambda>(g, ds, traverse).
     if isSender cur then
       bindR (node_pts g (ch_ptr cur) (cgnode cur)) (\<lambda>pts.
         matchChannel E cur pts False (node_id cur) (g, ds, traverse))
     else matchConsumer cur True (g, ds, traverse))"

definition visit_NCase :: "node \<Rightarrow> vstate \<Rightarrow> vstate res" where
  "visit_NCase cur = (\<lambda>(g, ds, traverse).
     bindR (deref (case_sel cur)) (\<lambda>sp. bindR (node_at g sp) (\<lambda>select_node.
     bindR (slice_set (pause_ats ds) (gid select_node) (node_id select_node)) (\<lambda>pa.
     let ds = ds\<lparr>pause_ats := pa, can_walk := mput (node_id select_node) True (can_walk ds)\<rparr>
     in if \<not> isSender cur then
          (case mget (pairs ds) (node_id cur) of
             Some producer_id \<Rightarrow>
               if producer_id \<ge> 0
               then Ok (g, ds\<lparr>can_walk := mput producer_id True (can_walk ds)\<rparr>, traverse)
               else Ok (g, ds, traverse)
           | None \<Rightarrow> Ok (g, ds, traverse))
        else Ok (g, ds, traverse)))))"

section \<open>Select\<close>

text \<open>
  The loop over the cases carries \<open>found_producer\<close>, \<open>found_consumer\<close>, \<open>found_default\<close> and the visit
  state; a new state is split off with \<open>split_case\<close>.
\<close>

type_synonym select_acc = "bool \<times> bool \<times> bool \<times> vstate"

definition split_case ::
  "RFGraph \<Rightarrow> detectionState \<Rightarrow> int \<Rightarrow> (detectionState \<Rightarrow> detectionState) \<Rightarrow> int \<Rightarrow> int \<Rightarrow> RFGraph" where
  "split_case g ds split_id upd start_id cur_tid =
     (let d = copy_state ds split_id in
      if isDuplicateState g d then g
      else push_state g ((upd d)\<lparr>start_node_id := start_id, start_tid := cur_tid\<rparr>))"

definition select_default ::
  "env \<Rightarrow> visit_fn \<Rightarrow> node \<Rightarrow> node \<Rightarrow> select_acc \<Rightarrow> select_acc res" where
  "select_default E visit_case cur c = (\<lambda>(fp, fc, fd, g, ds, traverse).
     if (fp \<or> fc) \<and> EXPLORE_ALL_STATES E then
       Ok (fp, fc, fd,
           split_case g ds (node_id c) (\<lambda>d. d\<lparr>can_walk := mput (node_id c) True (can_walk d)\<rparr>)
             (node_id c) (gid cur), ds, traverse)
     else
       bindR (slice_set (pause_ats ds) (gid c) (node_id c)) (\<lambda>pa.
       bindR (visit_case (node_id c) True
                (g, ds\<lparr>pause_ats := pa, can_walk := mput (node_id c) True (can_walk ds)\<rparr>))
         (\<lambda>(g', ds', traverse'). Ok (fp, fc, True, g', ds', traverse'))))"

definition select_paired ::
  "visit_fn \<Rightarrow> node \<Rightarrow> select_acc \<Rightarrow> select_acc res" where
  "select_paired visit_case c = (\<lambda>(fp, fc, fd, g, ds, traverse).
     case mget (pairs ds) (node_id c) of
       Some producer_id \<Rightarrow>
         if producer_id \<ge> 0 then
           bindR (visit_case (node_id c) False
                    (g, ds\<lparr>can_walk := mput producer_id True (can_walk ds)\<rparr>))
             (\<lambda>(g', ds', traverse'). Ok (fp, True, fd, g', ds', traverse'))
         else Ok (fp, fc, fd, g, ds, traverse)
     | None \<Rightarrow> Ok (fp, fc, fd, g, ds, traverse))"

definition select_timer ::
  "env \<Rightarrow> visit_fn \<Rightarrow> node \<Rightarrow> node \<Rightarrow> select_acc \<Rightarrow> select_acc res" where
  "select_timer E visit_case cur c = (\<lambda>(fp, fc, fd, g, ds, traverse).
     if isTimer c then
       (if (fp \<or> fc) \<and> EXPLORE_ALL_STATES E then
          Ok (fp, fc, fd, split_case g ds (node_id cur) (\<lambda>d. d) (node_id c) (gid cur), ds, traverse)
        else bindR (visit_case (node_id c) False (g, ds))
          (\<lambda>(g', ds', traverse'). Ok (fp, True, fd, g', ds', traverse')))
     else Ok (fp, fc, fd, g, ds, traverse))"

definition select_round ::
  "env \<Rightarrow> visit_fn \<Rightarrow> node \<Rightarrow> int option \<Rightarrow> select_acc \<Rightarrow> select_acc res" where
  "select_round E visit_case cur cp = (\<lambda>(fp, fc, fd, g, ds, traverse).
     case cp of None \<Rightarrow> Ok (fp, fc, fd, g, ds, traverse)
     | Some ci \<Rightarrow> bindR (node_at g ci) (\<lambda>c.
         if case_state c = None then
           select_default E visit_case cur c (fp, fc, fd, g, ds, traverse)
         else if isSender c then
           bindR (node_pts g (ch_ptr c) (cgnode cur)) (\<lambda>pts.
           bindR (matchChannel E cur pts (fc \<or> fp) (node_id c) (g, ds, traverse))
             (\<lambda>(g', ds', traverse'). Ok (True, fc, fd, g', ds', traverse')))
         else if (fp \<or> fc) \<and> EXPLORE_ALL_STATES E then
           (case mget (pairs ds) (node_id c) of
              Some producer_id \<Rightarrow>
                if producer_id \<ge> 0 then
                  Ok (fp, fc, fd,
                      split_case g ds (node_id cur)
                        (\<lambda>d. d\<lparr>can_walk := mput producer_id True (can_walk d)\<rparr>)
                        (node_id c) (gid cur), ds, traverse)
                else Ok (fp, fc, fd, g, ds, traverse)
            | None \<Rightarrow> Ok (fp, fc, fd, g, ds, traverse))
         else
           bindR (select_paired visit_case c (fp, fc, fd, g, ds, traverse))
             (select_timer E visit_case cur c)))"

definition visit_NSelect :: "env \<Rightarrow> visit_fn \<Rightarrow> node \<Rightarrow> vstate \<Rightarrow> vstate res" where
  "visit_NSelect E visit_case cur = (\<lambda>(g, ds, traverse).
     bindR (loopR (select_round E visit_case cur) (sel_cases cur)
              (False, False, False, g, ds, traverse))
       (\<lambda>(fp, fc, fd, g, ds, traverse).
         if \<not> fc \<and> \<not> fp \<and> \<not> fd then
           pauseHere (gid cur) (node_id cur)
             (g, ds\<lparr>visited := mput (node_id cur) 0 (visited ds)\<rparr>, traverse)
         else Ok (g, ds, traverse)))"

section \<open>Locks\<close>

text \<open>
  \<open>lock_refused\<close> is the common branch of the two lock cases when another lock \<open>held\<close> of this object
  is in place: a double lock of the same thread, a pair known already, or a new pair, for which a
  state with the other order is split off and the holder told to go on.
\<close>

definition lock_new_pair :: "env \<Rightarrow> node \<Rightarrow> int list \<Rightarrow> node \<Rightarrow> vstate \<Rightarrow> vstate res" where
  "lock_new_pair E cur pts held = (\<lambda>(g, ds, traverse).
     bindR (if EXPLORE_ALL_STATES E \<and> node_id held \<ge> 0
            then createNewLockState cur pts held g ds else Ok g) (\<lambda>g'.
     let ds = ds\<lparr>twolock := mput (gid held) [node_id held, node_id cur] (twolock ds)\<rparr> in
     bindR (pause_at ds (gid held)) (\<lambda>paused_id.
       if paused_id \<ge> 0 then
         pauseHere (gid cur) (node_id cur)
           (g', ds\<lparr>can_walk := mput paused_id True (can_walk ds),
                   visited := mput (node_id cur) 0 (visited ds)\<rparr>, traverse)
       else Ok (g', ds, traverse))))"

definition lock_refused :: "env \<Rightarrow> node \<Rightarrow> int list \<Rightarrow> int \<Rightarrow> vstate \<Rightarrow> vstate res" where
  "lock_refused E cur pts heldp = (\<lambda>(g, ds, traverse).
     bindR (node_at g heldp) (\<lambda>held.
     if gid held = gid cur then
       pauseHere (gid cur) (node_id cur)
         (g, ds\<lparr>doublelock := mput (gid held) [node_id held, node_id cur] (doublelock ds)\<rparr>, traverse)
     else
       bindR (case mget (twolock ds) (gid held) of None \<Rightarrow> Ok False
              | Some two \<Rightarrow> bindR (slice_get two 1) (\<lambda>t. Ok (t = node_id cur)))
       (\<lambda>known. if known then pauseHere (gid cur) (node_id cur) (g, ds, traverse)
                else lock_new_pair E cur pts held (g, ds, traverse))))"

definition lock_acquired :: "node \<Rightarrow> int list \<Rightarrow> vstate \<Rightarrow> vstate res" where
  "lock_acquired cur pts = (\<lambda>(g, ds, traverse).
     let ds = ds\<lparr>doublelock := mdel (gid cur) (doublelock ds)\<rparr> in
     if noOtherLockOnResource g pts then Ok (g, ds, traverse)
     else pauseHere (gid cur) (node_id cur) (g, ds, traverse))"

definition visit_NLock :: "env \<Rightarrow> node \<Rightarrow> vstate \<Rightarrow> vstate res" where
  "visit_NLock E cur = (\<lambda>(g, ds, traverse).
     bindR (node_pts g (lock_ptr cur) (cgnode cur)) (\<lambda>pts.
       case cannotLock ds pts of Some held \<Rightarrow> lock_refused E cur pts held (g, ds, traverse)
       | None \<Rightarrow>
         (case cannotRLock ds pts of Some rheld \<Rightarrow> lock_refused E cur pts rheld (g, ds, traverse)
          | None \<Rightarrow> lock_acquired cur pts
              (g, ds\<lparr>lockset := put_all pts (node_id cur) (lockset ds)\<rparr>,
               traverse))))"

definition visit_NRLock :: "env \<Rightarrow> node \<Rightarrow> vstate \<Rightarrow> vstate res" where
  "visit_NRLock E cur = (\<lambda>(g, ds, traverse).
     bindR (node_pts g (lock_ptr cur) (cgnode cur)) (\<lambda>pts.
       case cannotLock ds pts of Some held \<Rightarrow> lock_refused E cur pts held (g, ds, traverse)
       | None \<Rightarrow>
         bindR (case cannotRLock ds pts of None \<Rightarrow> Ok False
                | Some rheld \<Rightarrow> bindR (node_at g rheld) (\<lambda>r. Ok (gid r = gid cur)))
         (\<lambda>own_rlock. if own_rlock then
            (case mget (doublelock ds) (gid cur) of
               Some doubles \<Rightarrow>
                 pauseHere (gid cur) (node_id cur)
                   (g, ds\<lparr>triplelocks := mput (gid cur) (doubles @ [node_id cur]) (triplelocks ds)\<rparr>,
                    traverse)
             | None \<Rightarrow> Ok (g, ds, traverse))
          else lock_acquired cur pts
            (g, ds\<lparr>rlockset := put_all pts (node_id cur) (rlockset ds)\<rparr>,
             traverse))))"

text \<open>The thread that holds the lock on an object, as \<open>held.gid\<close>.\<close>

definition holds_obj :: "RFGraph \<Rightarrow> detectionState \<Rightarrow> int \<Rightarrow> int \<Rightarrow> bool res" where
  "holds_obj g ds tid obj =
     (case mget (lockset ds) obj of None \<Rightarrow> Ok False
      | Some l \<Rightarrow> bindR (node_at g l) (\<lambda>held. Ok (tid = gid held)))"

definition unlock_consumer ::
  "env \<Rightarrow> node \<Rightarrow> int \<Rightarrow> bool \<times> RFGraph \<times> detectionState \<Rightarrow> (bool \<times> RFGraph \<times> detectionState) res" where
  "unlock_consumer E cur consumer = (\<lambda>(found_consumer, g, ds).
     if found_consumer \<and> EXPLORE_ALL_STATES E then
       bindR (createNewState cur consumer (node_id cur) g ds) (\<lambda>g'. Ok (found_consumer, g', ds))
     else bindR (node_at g consumer) (\<lambda>c.
       if \<not> mhas (pairs ds) (node_id c) \<and> canHIP ds (gid c) (gid cur)
       then Ok (True, g, ds\<lparr>can_walk := mput (node_id c) True (can_walk ds)\<rparr>)
       else Ok (found_consumer, g, ds)))"

text \<open>The object leaves the lock set if the visiting thread holds it.\<close>

definition release_obj :: "node \<Rightarrow> int \<Rightarrow> bool \<Rightarrow> detectionState \<Rightarrow> detectionState" where
  "release_obj cur obj mine ds =
     (let ds = (if mine then ds\<lparr>lockset := mdel obj (lockset ds)\<rparr> else ds)
      in ds\<lparr>twolock := mdel (gid cur) (twolock ds)\<rparr>)"

definition unlock_round ::
  "env \<Rightarrow> node \<Rightarrow> int \<Rightarrow> bool \<times> RFGraph \<times> detectionState \<Rightarrow> (bool \<times> RFGraph \<times> detectionState) res" where
  "unlock_round E cur obj = (\<lambda>(found_consumer, g, ds).
     bindR (holds_obj g ds (gid cur) obj) (\<lambda>mine.
     let ds = release_obj cur obj mine ds in
     case mget (resources g) obj of None \<Rightarrow> Ok (found_consumer, g, ds)
     | Some pcs \<Rightarrow>
         if typId cur = NUnlock then
           bindR (pickConsumers E g (consumers pcs) (gid cur) ds) (\<lambda>possibles.
             loopR (unlock_consumer E cur) possibles (found_consumer, g, ds))
         else Ok (found_consumer, g, ds)))"

definition visit_NUnlock :: "env \<Rightarrow> node \<Rightarrow> vstate \<Rightarrow> vstate res" where
  "visit_NUnlock E cur = (\<lambda>(g, ds, traverse).
     bindR (node_pts g (lock_ptr cur) (cgnode cur)) (\<lambda>pts.
     bindR (loopR (\<lambda>obj unlocked_objs. bindR (holds_obj g ds (gid cur) obj) (\<lambda>mine.
              Ok (if mine then unlocked_objs else Suc unlocked_objs))) pts 0) (\<lambda>unlocked_objs.
       if unlocked_objs = length pts \<and> from_defer cur then Ok (g, ds, traverse)
       else bindR (loopR (unlock_round E cur) pts (False, g, ds)) (\<lambda>(found_consumer, g, ds).
         if found_consumer then pauseHere (gid cur) (node_id cur) (g, ds, traverse)
         else Ok (g, ds, traverse)))))"

section \<open>Condition variables, close, broadcast, cancel\<close>

definition visit_NSignal :: "env \<Rightarrow> node \<Rightarrow> vstate \<Rightarrow> vstate res" where
  "visit_NSignal E cur = (\<lambda>(g, ds, traverse).
     if \<not> hasManyPausedWaits g ds then
       bindR (slice_set (visit_last ds) (gid cur) (node_id cur)) (\<lambda>vl.
         pauseHere (gid cur) (node_id cur) (g, ds\<lparr>visit_last := vl\<rparr>, traverse))
     else
       bindR (node_pts g (cond_ptr cur) (cgnode cur)) (\<lambda>pts.
       bindR (loopR (\<lambda>obj s. case mget (resources (snd (snd s))) obj of None \<Rightarrow> Ok s
                | Some pcs \<Rightarrow>
                    bindR (pickConsumers E (snd (snd s)) (consumers pcs) (gid cur) ds)
                      (\<lambda>possibles. loopR (wg_round E cur ds) possibles s)) pts (False, None, g))
         (\<lambda>(found_consumer, ds_consumer, g').
           bindR (if found_consumer
                  then markConsumerAfterMatching ds_consumer (node_id cur) g' ds else Ok ds)
             (\<lambda>ds'. Ok (g', ds', traverse)))))"

definition visit_match_all :: "env \<Rightarrow> node \<Rightarrow> int list \<Rightarrow> vstate \<Rightarrow> vstate res" where
  "visit_match_all E cur objs = (\<lambda>(g, ds, traverse).
     bindR (loopR (matchAllConsumer E cur) objs (g, ds)) (\<lambda>(g', ds'). Ok (g', ds', traverse)))"

definition visit_NClose :: "env \<Rightarrow> node \<Rightarrow> vstate \<Rightarrow> vstate res" where
  "visit_NClose E cur = (\<lambda>(g, ds, traverse).
     bindR (node_pts g (ch_ptr cur) (cgnode cur)) (\<lambda>pts.
       visit_match_all E cur pts (g, ds, traverse)))"

definition visit_NBroadcast :: "env \<Rightarrow> node \<Rightarrow> vstate \<Rightarrow> vstate res" where
  "visit_NBroadcast E cur = (\<lambda>(g, ds, traverse).
     bindR (node_pts g (cond_ptr cur) (cgnode cur)) (\<lambda>pts.
       visit_match_all E cur pts (g, ds, traverse)))"

definition visit_NCancel :: "env \<Rightarrow> node \<Rightarrow> vstate \<Rightarrow> vstate res" where
  "visit_NCancel E cur s =
     bindR (deref (ctx_p cur)) (\<lambda>p. visit_match_all E cur [base_obj p] s)"

section \<open>Wait groups, goroutines, exits and loops\<close>

definition visit_NGoroutine :: "node \<Rightarrow> vstate \<Rightarrow> vstate res" where
  "visit_NGoroutine cur = (\<lambda>(g, ds, traverse). Ok (g, ds\<lparr>hip := hip ds @ [gid cur]\<rparr>, traverse))"

definition visit_NWGWait :: "node \<Rightarrow> vstate \<Rightarrow> vstate res" where
  "visit_NWGWait cur = (\<lambda>(g, ds, traverse).
     bindR (hasUnclosedLoop g cur ds) (\<lambda>unclosed.
       if unclosed then
         bindR (slice_set (pause_ats ds) (gid cur) (node_id cur)) (\<lambda>pa.
           Ok (g, ds\<lparr>pause_ats := pa\<rparr>, False))
       else matchConsumer cur True (g, ds, traverse)))"

fun indexOf :: "int list \<Rightarrow> int \<Rightarrow> int" where
  "indexOf [] element = -1"
| "indexOf (v # vs) element =
     (if v = element then 0
      else let i = indexOf vs element in if i = -1 then -1 else i + 1)"

definition visit_NExit :: "env \<Rightarrow> node \<Rightarrow> vstate \<Rightarrow> vstate res" where
  "visit_NExit E cur = (\<lambda>(g, ds, traverse).
     bindR (hasUnclosedLoop g cur ds) (\<lambda>unclosed.
       if unclosed then
         bindR (slice_set (pause_ats ds) (gid cur) (-3)) (\<lambda>pa. Ok (g, ds\<lparr>pause_ats := pa\<rparr>, False))
       else
         bindR (slice_set (pause_ats ds) (gid cur) (-2)) (\<lambda>pa.
         let index = indexOf (hip ds) (gid cur) in
         if index \<noteq> -1 then
           (let ds = ds\<lparr>pause_ats := pa,
                        hip := take (nat index) (hip ds) @ drop (nat index + 1) (hip ds)\<rparr>
            in if isWGDone cur then
                 bindR (matchWGDone E cur (g, ds)) (\<lambda>(_, g', ds'). Ok (g', ds', False))
               else Ok (g, ds, False))
         else Panic (ExplicitPanic ''X''))))"

text \<open>
  \<open>NWGDone\<close> sets the field \<open>seen_done\<close> of the node, which nothing reads; the node is left as it is.
\<close>

definition visit_NWGDone :: "env \<Rightarrow> node \<Rightarrow> vstate \<Rightarrow> vstate res" where
  "visit_NWGDone E cur = (\<lambda>(g, ds, traverse).
     bindR (matchWGDone E cur (g, ds)) (\<lambda>(matched, g', ds').
       if matched then pauseHere (gid cur) (node_id cur) (g', ds', traverse)
       else Ok (g', ds', traverse)))"

definition visit_NLoop :: "node \<Rightarrow> vstate \<Rightarrow> vstate res" where
  "visit_NLoop cur = (\<lambda>(g, ds, traverse).
     Ok (g, updateLoops (loop_name cur) (enterLoop cur) (node_id cur) ds, traverse))"

definition visit_NROC :: "node \<Rightarrow> vstate \<Rightarrow> vstate res" where
  "visit_NROC cur = (\<lambda>(g, ds, traverse).
     Ok (g, updateLoops (roc_name cur) (enterROC cur) (node_id cur) ds, traverse))"

section \<open>The switch, and the traversal\<close>

definition visitNode :: "env \<Rightarrow> visit_fn \<Rightarrow> node \<Rightarrow> RFGraph \<times> detectionState \<Rightarrow> vstate res" where
  "visitNode E visit_case cur = (\<lambda>(g, ds).
     let s = (g, ds, True) in
     case typId cur of
       NChannel \<Rightarrow> visit_NChannel E cur s
     | NCaseDone \<Rightarrow> visit_NCase cur s
     | NCase \<Rightarrow> visit_NCase cur s
     | NSelect \<Rightarrow> visit_NSelect E visit_case cur s
     | NLock \<Rightarrow> visit_NLock E cur s
     | NRLock \<Rightarrow> visit_NRLock E cur s
     | NUnlock \<Rightarrow> visit_NUnlock E cur s
     | NRUnlock \<Rightarrow> visit_NUnlock E cur s
     | NCtxDone \<Rightarrow> matchConsumer cur False s
     | NCONDWait \<Rightarrow> matchConsumer cur False s
     | NSignal \<Rightarrow> visit_NSignal E cur s
     | NClose \<Rightarrow> visit_NClose E cur s
     | NBroadcast \<Rightarrow> visit_NBroadcast E cur s
     | NCancel \<Rightarrow> visit_NCancel E cur s
     | NGoroutine \<Rightarrow> visit_NGoroutine cur s
     | NWGWait \<Rightarrow> visit_NWGWait cur s
     | NExit \<Rightarrow> visit_NExit E cur s
     | NWGDone \<Rightarrow> visit_NWGDone E cur s
     | NLoop \<Rightarrow> visit_NLoop cur s
     | NROC \<Rightarrow> visit_NROC cur s
     | _ \<Rightarrow> Ok s)"

definition updateHIP :: "node \<Rightarrow> detectionState \<Rightarrow> detectionState res" where
  "updateHIP gnode ds =
     (let ds = ds\<lparr>hip := hip ds @ [gid gnode]\<rparr> in
      bindR (slice_set (pause_ats ds) (gid gnode) (node_id gnode)) (\<lambda>pa.
      let ds = ds\<lparr>pause_ats := pa\<rparr> in
      if node_id gnode < 0 then Ok ds
      else Ok (ds\<lparr>can_walk := mput (node_id gnode) True (can_walk ds),
                  visited := mput (node_id gnode) 1 (visited ds)\<rparr>)))"

text \<open>The loop over the kids of a node stops at the first kid whose visit does not go on.\<close>

primrec visit_kids ::
  "visit_fn \<Rightarrow> int list \<Rightarrow> RFGraph \<times> detectionState \<Rightarrow> vstate res" where
  "visit_kids visit_kid [] s = Ok (fst s, snd s, True)"
| "visit_kids visit_kid (k # ks) s =
     (case s of (g, ds) \<Rightarrow>
      bindR (node_at g k) (\<lambda>v.
        if \<not> mhas (visited ds) (node_id v) then
          (if typId v = NGoroutine
           then bindR (updateHIP v ds) (\<lambda>ds'. visit_kids visit_kid ks (g, ds'))
           else bindR (visit_kid k False (g, ds)) (\<lambda>(g', ds', go_on).
             if go_on then visit_kids visit_kid ks (g', ds') else Ok (g', ds', False)))
        else visit_kids visit_kid ks (g, ds)))"

fun visit :: "nat \<Rightarrow> env \<Rightarrow> int \<Rightarrow> bool \<Rightarrow> RFGraph \<times> detectionState \<Rightarrow> vstate res" where
  "visit 0 E cur_node skip s = OutOfFuel"
| "visit (Suc fuel) E cur_node skip (g, ds) =
     bindR (node_at g cur_node) (\<lambda>cur.
     let ds = ds\<lparr>visited := mput (node_id cur) 1 (visited ds)\<rparr> in
     bindR (if skip then Ok (g, ds, True) else visitNode E (visit fuel E) cur (g, ds))
       (\<lambda>(g', ds', go_on).
         if \<not> skip \<and> \<not> go_on then Ok (g', ds', False)
         else visit_kids (visit fuel E) (kids g' (node_id cur)) (g', ds')))"

end
