(* ===== verification/VisitProps.thy ===== *)
theory VisitProps
  imports VisitNode
begin

text \<open>
  The relation between the state before and after an operation of a visit: a consumer once paired
  stays paired with its producer, visited nodes stay visited, states are only appended to the
  queue, and only fresh ones. Here for the closures of \<open>visitNode\<close>.
\<close>

section \<open>The evolution relation\<close>

definition evolves :: "detectionState \<Rightarrow> detectionState \<Rightarrow> bool" where
  "evolves d e \<longleftrightarrow>
     length (pause_ats e) = length (pause_ats d) \<and> length (visit_last e) = length (visit_last d) \<and>
     map_of (pairs d) \<subseteq>\<^sub>m map_of (pairs e) \<and>
     dom (map_of (visited d)) \<subseteq> dom (map_of (visited e)) \<and>
     dom (map_of (rlockset d)) \<subseteq> dom (map_of (rlockset e))"

definition sized :: "nat \<Rightarrow> detectionState \<Rightarrow> bool" where
  "sized n d \<longleftrightarrow> length (pause_ats d) = n \<and> length (visit_last d) = n"

text \<open>A state that the queue does not cover yet: no repeated pair of splits, no split set covered.\<close>

definition fresh_split :: "RFGraph \<Rightarrow> detectionState \<Rightarrow> bool" where
  "fresh_split g d \<longleftrightarrow> \<not> hasRepeatState (splitting_points d) \<and>
     (\<forall>s \<in> set (states g). \<not> mset (splitting_points d) \<subseteq># mset (splitting_points s))"

inductive grows :: "nat \<Rightarrow> RFGraph \<Rightarrow> RFGraph \<Rightarrow> bool" for n where
  grows_refl: "grows n g g"
| grows_push: "grows n g g' \<Longrightarrow> fresh_split g' d \<Longrightarrow> sized n d \<Longrightarrow> grows n g (push_state g' d)"

definition step_rel :: "RFGraph \<times> detectionState \<Rightarrow> RFGraph \<times> detectionState \<Rightarrow> bool" where
  "step_rel s t \<longleftrightarrow> evolves (snd s) (snd t) \<and> (\<exists>new. fst t = fst s\<lparr>states := states (fst s) @ new\<rparr>) \<and>
     (\<forall>n. sized n (snd s) \<longrightarrow> grows n (fst s) (fst t))"

lemma evolves_refl [simp, intro]: "evolves d d"
  by (simp add: evolves_def)

lemma evolves_trans: "evolves d e \<Longrightarrow> evolves e f \<Longrightarrow> evolves d f"
  unfolding evolves_def by (metis map_le_trans order_trans)

lemma sized_evolves: "evolves d e \<Longrightarrow> sized n e = sized n d"
  by (simp add: evolves_def sized_def)

lemma grows_trans: "grows n g g' \<Longrightarrow> grows n f g \<Longrightarrow> grows n f g'"
  by (induction rule: grows.induct) (auto intro: grows.intros)

lemma step_rel_refl [simp, intro]: "step_rel s s"
  by (auto simp: step_rel_def intro: grows_refl exI [where x = "[]"])

lemma step_rel_trans:
  assumes "step_rel s t" and "step_rel t u"
  shows "step_rel s u"
proof -
  have "\<exists>new. fst u = fst s\<lparr>states := states (fst s) @ new\<rparr>"
    using assms by (auto simp: step_rel_def)
  moreover have "grows n (fst s) (fst u)" if "sized n (snd s)" for n
    using assms that grows_trans [of n "fst t" "fst u" "fst s"]
      sized_evolves [of "snd s" "snd t" n] by (simp add: step_rel_def)
  ultimately show ?thesis
    using assms by (auto simp: step_rel_def intro: evolves_trans)
qed

lemma step_rel_evolves: "evolves d e \<Longrightarrow> step_rel (g, d) (g, e)"
  by (auto simp: step_rel_def intro: grows_refl exI [where x = "[]"])

lemma step_rel_graph:
  assumes "step_rel (g, d) (g', d')"
  shows "id2node g' = id2node g" "resources g' = resources g" "adjList g' = adjList g"
    "roots g' = roots g" "node_at g' = node_at g" "kids g' = kids g" "tid2end g' = tid2end g"
proof -
  obtain new where "g' = g\<lparr>states := states g @ new\<rparr>" using assms by (auto simp: step_rel_def)
  then show "id2node g' = id2node g" "resources g' = resources g" "adjList g' = adjList g"
    "roots g' = roots g" "node_at g' = node_at g" "kids g' = kids g" "tid2end g' = tid2end g"
    by (auto simp: node_at_def kids_def fun_eq_iff)
qed

lemma not_duplicate_fresh: "\<not> isDuplicateState g d \<Longrightarrow> fresh_split g d"
  by (auto simp: isDuplicateState_def fresh_split_def list_ex_iff IntArrayContains_subset
      split: if_splits)

lemma fresh_split_cong:
  "splitting_points d = splitting_points e \<Longrightarrow> fresh_split g d = fresh_split g e"
  by (simp add: fresh_split_def)

lemma push_step_rel:
  assumes "\<not> isDuplicateState g d" and "splitting_points e = splitting_points d"
    and "length (pause_ats e) = length (pause_ats ds)" and "length (visit_last e) = length (visit_last ds)"
  shows "step_rel (g, ds) (push_state g e, ds)"
  using assms not_duplicate_fresh [OF assms(1)]
  by (auto simp: step_rel_def push_state_def sized_def fresh_split_cong [of e d]
      intro!: grows_push [unfolded push_state_def] grows_refl)

named_theorems step_lemmas \<open>the operations of a visit stay within \<open>step_rel\<close>\<close>

section \<open>The closures\<close>

lemma pauseHere_step [step_lemmas]:
  "pauseHere t i (g, ds, tr) = Ok (g', ds', tr') \<Longrightarrow> step_rel (g, ds) (g', ds') \<and> \<not> tr'"
  by (auto simp: pauseHere_def res_simps evolves_def intro!: step_rel_evolves)

lemma createNewState_step [step_lemmas]:
  "createNewState cur c p g ds = Ok g' \<Longrightarrow> step_rel (g, ds) (g', ds)"
  by (auto simp: createNewState_def Let_def intro!: push_step_rel split: if_splits)

lemma createNewLockState_step [step_lemmas]:
  "createNewLockState l pts h g ds = Ok g' \<Longrightarrow> step_rel (g, ds) (g', ds)"
  by (auto simp: createNewLockState_def Let_def res_simps intro!: push_step_rel split: if_splits)

lemma split_case_step [step_lemmas]:
  assumes "\<And>d. splitting_points (u d) = splitting_points d" "\<And>d. pause_ats (u d) = pause_ats d"
    "\<And>d. visit_last (u d) = visit_last d"
  shows "step_rel (g, ds) (split_case g ds i u sid t, ds)"
  by (auto simp: split_case_def Let_def assms intro!: push_step_rel)

lemma pairs_mput_le: "mget m k = None \<Longrightarrow> map_of m \<subseteq>\<^sub>m map_of (mput k v m)"
  by (auto simp: map_le_def)

lemma markConsumerAfterMatching_effect:
  assumes "markConsumerAfterMatching (Some cp) p g ds = Ok ds'"
  shows "\<exists>c. node_at g cp = Ok c \<and> pairs ds' = mput (node_id c) p (pairs ds) \<and>
    length (pause_ats ds') = length (pause_ats ds) \<and> visit_last ds' = visit_last ds \<and>
    dom (map_of (visited ds)) \<subseteq> dom (map_of (visited ds')) \<and>
    lockset ds' = lockset ds \<and> rlockset ds' = rlockset ds \<and> hip ds' = hip ds"
  using assms
  by (auto simp: markConsumerAfterMatching_def pause_at_def Let_def slice_set_Ok split: if_splits)

lemma markConsumerAfterMatching_step:
  assumes "markConsumerAfterMatching (Some cp) p g ds = Ok ds'"
    and "node_at g cp = Ok c" and "mget (pairs ds) (node_id c) = None"
  shows "evolves ds ds'"
  using markConsumerAfterMatching_effect [OF assms(1)] assms(2,3) pairs_mput_le
  by (auto simp: evolves_def)

text \<open>A pointer to a node that is not paired as a consumer yet.\<close>

definition unpaired :: "RFGraph \<Rightarrow> detectionState \<Rightarrow> int option \<Rightarrow> bool" where
  "unpaired g ds dc \<longleftrightarrow>
     (\<forall>cp. dc = Some cp \<longrightarrow> (\<exists>n. node_at g cp = Ok n \<and> mget (pairs ds) (node_id n) = None))"

lemma unpaired_cong: "node_at g = node_at g' \<Longrightarrow> unpaired g ds dc = unpaired g' ds dc"
  by (simp add: unpaired_def)

lemma match_round_step:
  assumes "match_round E cur p ds c (f, dc, g) = Ok (f', dc', g')" and "unpaired g ds dc"
  shows "step_rel (g, ds) (g', ds) \<and> unpaired g ds dc'"
proof -
  from assms(1) have "(dc' = dc \<and> createNewState cur c p g ds = Ok g') \<or> (g' = g \<and> dc' = dc) \<or>
      (g' = g \<and> unpaired g ds dc')"
    by (auto simp: match_round_def mhas_def unpaired_def split: if_splits)
  with assms(2) show ?thesis using createNewState_step by blast
qed

lemma wg_round_step:
  assumes "wg_round E cur ds c (f, dc, g) = Ok (f', dc', g')" and "unpaired g ds dc"
  shows "step_rel (g, ds) (g', ds) \<and> unpaired g ds dc'"
proof -
  from assms(1) have "(dc' = dc \<and> createNewState cur c (node_id cur) g ds = Ok g') \<or>
      (g' = g \<and> dc' = dc) \<or> (g' = g \<and> unpaired g ds dc')"
    by (auto simp: wg_round_def mhas_def unpaired_def split: if_splits)
  with assms(2) show ?thesis using createNewState_step by blast
qed

text \<open>
  The invariant of the matching loops: the graph has only grown, and the consumer remembered for
  this state is not paired in it.
\<close>

definition match_inv ::
  "RFGraph \<Rightarrow> detectionState \<Rightarrow> bool \<times> int option \<times> RFGraph \<Rightarrow> bool" where
  "match_inv g0 ds s \<longleftrightarrow> (case s of (f, dc, g) \<Rightarrow> step_rel (g0, ds) (g, ds) \<and> unpaired g0 ds dc)"

lemma match_inv_next:
  assumes "match_inv g0 ds (f, dc, g)"
    and "unpaired g ds dc \<Longrightarrow> step_rel (g, ds) (g', ds) \<and> unpaired g ds dc'"
  shows "match_inv g0 ds (f', dc', g')"
proof -
  from assms(1) have "step_rel (g0, ds) (g, ds)" and u: "unpaired g0 ds dc"
    by (auto simp: match_inv_def)
  then have n: "node_at g0 = node_at g" using step_rel_graph(5) by metis
  with u have "unpaired g ds dc" using unpaired_cong by blast
  with assms(2) have "step_rel (g, ds) (g', ds)" "unpaired g0 ds dc'"
    using unpaired_cong [OF n] by auto
  with \<open>step_rel (g0, ds) (g, ds)\<close> show ?thesis
    by (auto simp: match_inv_def intro: step_rel_trans)
qed

lemma match_round_inv:
  assumes "match_round E cur p ds c s = Ok t" and "match_inv g0 ds s"
  shows "match_inv g0 ds t"
proof -
  obtain f dc g f' dc' g' where st: "s = (f, dc, g)" "t = (f', dc', g')"
    by (metis prod_cases3)
  show ?thesis
    using assms match_inv_next match_round_step unfolding st by metis
qed

lemma wg_round_inv:
  assumes "wg_round E cur ds c s = Ok t" and "match_inv g0 ds s"
  shows "match_inv g0 ds t"
proof -
  obtain f dc g f' dc' g' where st: "s = (f, dc, g)" "t = (f', dc', g')"
    by (metis prod_cases3)
  show ?thesis
    using assms match_inv_next wg_round_step unfolding st by metis
qed

lemma match_inv_start [simp]: "match_inv g ds (f, None, g)"
  by (simp add: match_inv_def unpaired_def)

lemma match_objs_inv:
  assumes "match_objs E cur p ds pts s = Ok t" and "match_inv g0 ds s"
  shows "match_inv g0 ds t"
  using assms unfolding match_objs_def
proof (rule loopR_inv [where I = "match_inv g0 ds"])
  fix obj u v
  assume I: "match_inv g0 ds u" and r: "(case mget (resources (snd (snd u))) obj of None \<Rightarrow> Ok u
     | Some pcs \<Rightarrow> bindR (pickConsumers E (snd (snd u)) (consumers pcs) (gid cur) ds)
         (\<lambda>possibles. loopR (match_round E cur p ds) possibles u)) = Ok v"
  show "match_inv g0 ds v"
    using r I by (auto split: option.splits
        elim!: loopR_inv [where I = "match_inv g0 ds"] intro: match_round_inv)
qed

lemma mark_match_inv:
  assumes "match_inv g0 ds (f, dc, g')"
    and "(if f then markConsumerAfterMatching dc p g' ds else Ok ds) = Ok ds'"
  shows "step_rel (g0, ds) (g', ds')"
proof -
  have "evolves ds ds'"
  proof (cases "f \<and> dc \<noteq> None")
    case True
    then obtain cp where "dc = Some cp" by auto
    with assms(1) obtain n where "node_at g' cp = Ok n" "mget (pairs ds) (node_id n) = None"
      by (auto simp: match_inv_def unpaired_def dest: step_rel_graph)
    with assms(2) True \<open>dc = Some cp\<close> show ?thesis
      by (auto intro: markConsumerAfterMatching_step)
  next
    case False
    with assms(2) show ?thesis
      by (auto simp: markConsumerAfterMatching_def split: if_splits)
  qed
  with assms(1) show ?thesis
    by (auto simp: match_inv_def intro: step_rel_trans step_rel_evolves)
qed

lemma matchChannel_step [step_lemmas]:
  assumes "matchChannel E cur pts nn p (g, ds, tr) = Ok (g', ds', tr')"
  shows "step_rel (g, ds) (g', ds') \<and> \<not> tr'"
proof -
  from assms obtain f dc g1 d1 where m: "match_objs E cur p ds pts (nn, None, g) = Ok (f, dc, g1)"
    and d: "(if f then markConsumerAfterMatching dc p g1 ds else Ok ds) = Ok d1"
    and h: "pauseHere (gid cur) p (g1, d1, tr) = Ok (g', ds', tr')"
    by (auto simp: matchChannel_def)
  from match_objs_inv [OF m match_inv_start] have "step_rel (g, ds) (g1, d1)"
    using d by (rule mark_match_inv)
  with pauseHere_step [OF h] show ?thesis by (auto intro: step_rel_trans)
qed

lemma matchConsumer_step [step_lemmas]:
  "matchConsumer cur inform (g, ds, tr) = Ok (g', ds', tr') \<Longrightarrow> step_rel (g, ds) (g', ds')"
  by (auto simp: matchConsumer_def evolves_def split: option.splits if_splits
      dest: pauseHere_step intro!: step_rel_evolves)

lemma matchAllConsumer_step [step_lemmas]:
  assumes "matchAllConsumer E cur obj s = Ok t"
  shows "step_rel s t"
proof -
  obtain g ds where s: "s = (g, ds)" by (cases s)
  show ?thesis
    using assms unfolding s matchAllConsumer_def
    apply (auto split: option.splits)
    apply (erule loopR_rel [where Rel = step_rel])
      apply (auto simp: mhas_def intro: step_rel_trans split: if_splits)
    apply (auto intro!: step_rel_evolves elim: markConsumerAfterMatching_step)
    done
qed

lemma matchWGDone_objs_step:
  "matchWGDone_objs E cur objs s = Ok (b, t) \<Longrightarrow> step_rel s t"
proof (induction objs arbitrary: s)
  case (Cons obj objs)
  obtain g ds where s: "s = (g, ds)" by (cases s)
  show ?case
  proof (cases "mget (resources g) obj")
    case None
    with Cons s show ?thesis by auto
  next
    case (Some pcs)
    from Cons.prems Some s have "t = s \<or> (\<exists>possibles f dc g1 d1.
        loopR (wg_round E cur ds) possibles (False, None, g) = Ok (f, dc, g1) \<and>
        (if f then markConsumerAfterMatching dc (node_id cur) g1 ds else Ok ds) = Ok d1 \<and>
        matchWGDone_objs E cur objs (g1, d1) = Ok (b, t))"
      by (auto split: if_splits; blast)
    then show ?thesis
    proof (elim disjE exE conjE)
      fix possibles f dc g1 d1
      assume l: "loopR (wg_round E cur ds) possibles (False, None, g) = Ok (f, dc, g1)"
        and m: "(if f then markConsumerAfterMatching dc (node_id cur) g1 ds else Ok ds) = Ok d1"
        and r: "matchWGDone_objs E cur objs (g1, d1) = Ok (b, t)"
      from l have "match_inv g ds (f, dc, g1)"
        by (rule loopR_inv) (auto intro: wg_round_inv)
      then have "step_rel (g, ds) (g1, d1)" using m by (rule mark_match_inv)
      with Cons.IH [OF r] s show ?thesis by (auto intro: step_rel_trans)
    qed simp
  qed
qed auto

lemma matchWGDone_step [step_lemmas]: "matchWGDone E cur s = Ok (b, t) \<Longrightarrow> step_rel s t"
  by (simp add: matchWGDone_def matchWGDone_objs_step)

end
