(* ===== verification/VisitSteps.thy ===== *)
theory VisitSteps
  imports VisitProps
begin

text \<open>
  Every case of the switch of \<open>visitNode\<close>, a whole visit and the loop over the kids keep the
  relation of theory \<open>VisitProps\<close>.
\<close>

section \<open>The cases of the switch\<close>

lemma evolves_fields [simp, intro]:
  "evolves d (d\<lparr>can_walk := a\<rparr>)" "evolves d (d\<lparr>lockset := b\<rparr>)" "evolves d (d\<lparr>doublelock := c\<rparr>)"
  "evolves d (d\<lparr>twolock := c\<rparr>)" "evolves d (d\<lparr>triplelocks := c\<rparr>)" "evolves d (d\<lparr>hip := h\<rparr>)"
  "evolves d (d\<lparr>visit_loops := v\<rparr>)"
  by (simp_all add: evolves_def)

lemma evolves_visited [simp, intro]: "evolves d (d\<lparr>visited := mput k v (visited d)\<rparr>)"
  by (auto simp: evolves_def)

lemma evolves_pause [simp, intro]: "length ps = length (pause_ats d) \<Longrightarrow> evolves d (d\<lparr>pause_ats := ps\<rparr>)"
  by (simp add: evolves_def)

lemma evolves_rlock [simp, intro]: "evolves d (d\<lparr>rlockset := put_all pts x (rlockset d)\<rparr>)"
  by (auto simp: evolves_def mget_put_all dom_def)

text \<open>A step that continues from an updated state.\<close>

lemma step_rel_from:
  assumes "step_rel (g, e) (g', f)" and "evolves d e"
  shows "step_rel (g, d) (g', f)"
  using step_rel_trans [OF step_rel_evolves [OF assms(2)] assms(1)] .

lemma visit_NChannel_step [step_lemmas]:
  "visit_NChannel E cur (g, ds, tr) = Ok (g', ds', tr') \<Longrightarrow> step_rel (g, ds) (g', ds')"
  by (auto simp: visit_NChannel_def dest: matchChannel_step matchConsumer_step split: if_splits)

lemma visit_NCase_step [step_lemmas]:
  assumes "visit_NCase cur (g, ds, tr) = Ok (g', ds', tr')"
  shows "step_rel (g, ds) (g', ds') \<and> tr' = tr"
  using assms
  by (auto simp: visit_NCase_def Let_def slice_set_Ok evolves_def intro!: step_rel_evolves
      split: if_splits option.splits)

lemma lock_new_pair_step [step_lemmas]:
  assumes "lock_new_pair E cur pts h (g, ds, tr) = Ok (g', ds', tr')"
  shows "step_rel (g, ds) (g', ds')"
proof -
  define e where "e = ds\<lparr>twolock := mput (gid h) [node_id h, node_id cur] (twolock ds)\<rparr>"
  from assms obtain g1 p where
    c: "(if EXPLORE_ALL_STATES E \<and> node_id h \<ge> 0 then createNewLockState cur pts h g ds
         else Ok g) = Ok g1"
    and r: "(if p \<ge> 0 then pauseHere (gid cur) (node_id cur)
               (g1, e\<lparr>can_walk := mput p True (can_walk e),
                      visited := mput (node_id cur) 0 (visited e)\<rparr>, tr)
             else Ok (g1, e, tr)) = Ok (g', ds', tr')"
    unfolding lock_new_pair_def e_def Let_def by auto
  have "evolves ds e" "evolves ds (e\<lparr>can_walk := mput p True (can_walk e),
      visited := mput (node_id cur) 0 (visited e)\<rparr>)"
    by (auto simp: e_def evolves_def)
  with r have "step_rel (g1, ds) (g', ds')"
    by (auto dest!: pauseHere_step intro: step_rel_evolves elim: step_rel_from split: if_splits)
  moreover from c have "step_rel (g, ds) (g1, ds)"
    by (auto dest: createNewLockState_step split: if_splits)
  ultimately show ?thesis by (blast intro: step_rel_trans)
qed

lemma lock_refused_step [step_lemmas]:
  assumes "lock_refused E cur pts h (g, ds, tr) = Ok (g', ds', tr')"
  shows "step_rel (g, ds) (g', ds')"
proof -
  from assms have
    "(\<exists>held. lock_new_pair E cur pts held (g, ds, tr) = Ok (g', ds', tr')) \<or>
     (\<exists>x. pauseHere (gid cur) (node_id cur) (g, ds\<lparr>doublelock := x\<rparr>, tr) = Ok (g', ds', tr')) \<or>
     pauseHere (gid cur) (node_id cur) (g, ds, tr) = Ok (g', ds', tr')"
    by (auto simp: lock_refused_def split: if_splits)
  then show ?thesis
    by (auto dest!: lock_new_pair_step pauseHere_step intro: step_rel_from)
qed

lemma lock_acquired_step [step_lemmas]:
  "lock_acquired cur pts (g, ds, tr) = Ok (g', ds', tr') \<Longrightarrow> step_rel (g, ds) (g', ds')"
  by (auto simp: lock_acquired_def Let_def split: if_splits dest!: pauseHere_step
      intro: step_rel_from step_rel_evolves)

lemma visit_NLock_step [step_lemmas]:
  "visit_NLock E cur (g, ds, tr) = Ok (g', ds', tr') \<Longrightarrow> step_rel (g, ds) (g', ds')"
  by (auto simp: visit_NLock_def split: option.splits
      dest!: lock_acquired_step lock_refused_step elim!: step_rel_from)

lemma visit_NRLock_step [step_lemmas]:
  assumes "visit_NRLock E cur (g, ds, tr) = Ok (g', ds', tr')"
  shows "step_rel (g, ds) (g', ds')"
proof -
  from assms have
    "(\<exists>pts h. lock_refused E cur pts h (g, ds, tr) = Ok (g', ds', tr')) \<or>
     (\<exists>doubles. pauseHere (gid cur) (node_id cur)
         (g, ds\<lparr>triplelocks := doubles\<rparr>, tr) = Ok (g', ds', tr')) \<or> (g' = g \<and> ds' = ds) \<or>
     (\<exists>pts. lock_acquired cur pts
       (g, ds\<lparr>rlockset := put_all pts (node_id cur) (rlockset ds)\<rparr>, tr) = Ok (g', ds', tr'))"
    by (auto simp: visit_NRLock_def split: option.splits if_splits)
  then show ?thesis
    by (auto dest!: lock_refused_step lock_acquired_step pauseHere_step intro: step_rel_from)
qed

lemma unlock_consumer_step:
  assumes "unlock_consumer E cur c u = Ok v"
  shows "step_rel (snd u) (snd v)"
  using assms
  by (cases u) (auto simp: unlock_consumer_def dest!: createNewState_step
      intro!: step_rel_evolves split: if_splits)

lemma release_obj_evolves [simp, intro]: "evolves ds (release_obj cur obj m ds)"
  by (simp add: release_obj_def Let_def evolves_def)

lemma unlock_round_step:
  assumes "unlock_round E cur obj u = Ok v"
  shows "step_rel (snd u) (snd v)"
proof -
  obtain f g ds where u: "u = (f, g, ds)" by (metis prod_cases3)
  from assms u obtain mine where "holds_obj g ds (gid cur) obj = Ok mine"
    by (auto simp: unlock_round_def)
  define e where "e = release_obj cur obj mine ds"
  have e: "evolves ds e" by (simp add: e_def release_obj_evolves)
  have r: "snd v = (g, e) \<or> (\<exists>xs. loopR (unlock_consumer E cur) xs (f, g, e) = Ok v)"
    using assms u \<open>holds_obj g ds (gid cur) obj = Ok mine\<close>
    by (auto simp: unlock_round_def Let_def e_def split: option.splits if_splits)
  have "step_rel (g, e) (snd v)" if "loopR (unlock_consumer E cur) xs (f, g, e) = Ok v" for xs
    using loopR_rel [OF that, of "\<lambda>u v. step_rel (snd u) (snd v)"] unlock_consumer_step
    by (auto intro: step_rel_trans)
  with r e show ?thesis
    unfolding u by (metis snd_conv step_rel_evolves step_rel_trans)
qed

lemma visit_NUnlock_step [step_lemmas]:
  assumes "visit_NUnlock E cur (g, ds, tr) = Ok (g', ds', tr')"
  shows "step_rel (g, ds) (g', ds')"
proof -
  from assms obtain pts f g1 d1 where
    "(g' = g \<and> ds' = ds) \<or> (loopR (unlock_round E cur) pts (False, g, ds) = Ok (f, g1, d1) \<and>
       (pauseHere (gid cur) (node_id cur) (g1, d1, tr) = Ok (g', ds', tr') \<or> (g' = g1 \<and> ds' = d1)))"
    by (auto simp: visit_NUnlock_def split: if_splits) blast+
  moreover have "step_rel (g, ds) (g1, d1)"
    if "loopR (unlock_round E cur) pts (False, g, ds) = Ok (f, g1, d1)"
  proof -
    show ?thesis
      using loopR_rel [OF that, of "\<lambda>u v. step_rel (snd u) (snd v)"] unlock_round_step
      by (auto intro: step_rel_trans)
  qed
  ultimately show ?thesis by (auto dest!: pauseHere_step intro: step_rel_trans)
qed

lemma visit_NSignal_step [step_lemmas]:
  assumes "visit_NSignal E cur (g, ds, tr) = Ok (g', ds', tr')"
  shows "step_rel (g, ds) (g', ds')"
proof (cases "hasManyPausedWaits g ds")
  case False
  with assms show ?thesis
    by (auto simp: visit_NSignal_def slice_set_Ok evolves_def dest!: pauseHere_step
        intro: step_rel_from)
next
  case True
  with assms obtain pts f dc d1 where
    l: "loopR (\<lambda>obj s. case mget (resources (snd (snd s))) obj of None \<Rightarrow> Ok s
          | Some pcs \<Rightarrow> bindR (pickConsumers E (snd (snd s)) (consumers pcs) (gid cur) ds)
                (\<lambda>possibles. loopR (wg_round E cur ds) possibles s)) pts (False, None, g)
        = Ok (f, dc, g')"
    and m: "(if f then markConsumerAfterMatching dc (node_id cur) g' ds else Ok ds) = Ok ds'"
    by (auto simp: visit_NSignal_def)
  have "match_inv g ds (f, dc, g')"
    by (rule loopR_inv [OF l])
       (auto split: option.splits elim!: loopR_inv [where I = "match_inv g ds"]
         intro: wg_round_inv)
  then show ?thesis using m by (rule mark_match_inv)
qed

lemma visit_match_all_step [step_lemmas]:
  assumes "visit_match_all E cur objs (g, ds, tr) = Ok (g', ds', tr')"
  shows "step_rel (g, ds) (g', ds')"
proof -
  from assms have "loopR (matchAllConsumer E cur) objs (g, ds) = Ok (g', ds')"
    by (auto simp: visit_match_all_def)
  then show ?thesis
    by (rule loopR_rel) (auto intro: step_rel_trans matchAllConsumer_step)
qed

lemma visit_NExit_step [step_lemmas]:
  assumes "visit_NExit E cur (g, ds, tr) = Ok (g', ds', tr')"
  shows "step_rel (g, ds) (g', ds') \<and> \<not> tr'"
proof -
  define e3 where "e3 = ds\<lparr>pause_ats := (pause_ats ds)[nat (gid cur) := -3]\<rparr>"
  define e2 where "e2 = ds\<lparr>pause_ats := (pause_ats ds)[nat (gid cur) := -2],
    hip := take (nat (indexOf (hip ds) (gid cur))) (hip ds) @
           drop (nat (indexOf (hip ds) (gid cur)) + 1) (hip ds)\<rparr>"
  have "\<not> tr' \<and> ((g' = g \<and> ds' = e3) \<or> (g' = g \<and> ds' = e2) \<or>
      (\<exists>r. matchWGDone E cur (g, e2) = Ok r \<and> snd r = (g', ds')))"
  proof (cases "isWGDone cur \<and> hasUnclosedLoop g cur ds = Ok False")
    case True
    with assms obtain r where "matchWGDone E cur (g, e2) = Ok r" "(snd r, False) = ((g', ds'), tr')"
      by (auto simp: visit_NExit_def slice_set_Ok Let_def e2_def split: if_splits)
    then show ?thesis by auto
  next
    case False
    with assms show ?thesis
      by (auto simp: visit_NExit_def slice_set_Ok Let_def e2_def e3_def split: if_splits)
  qed
  moreover have "evolves ds e2" "evolves ds e3" by (simp_all add: evolves_def e2_def e3_def)
  moreover have "step_rel (g, e2) (g', ds')"
    if "matchWGDone E cur (g, e2) = Ok r" "snd r = (g', ds')" for r
    using that matchWGDone_step by (metis prod.collapse)
  ultimately show ?thesis by (auto intro: step_rel_evolves elim: step_rel_from)
qed

lemma visit_NWGDone_step [step_lemmas]:
  assumes "visit_NWGDone E cur (g, ds, tr) = Ok (g', ds', tr')"
  shows "step_rel (g, ds) (g', ds')"
  using assms
  by (auto simp: visit_NWGDone_def dest!: matchWGDone_step pauseHere_step intro: step_rel_trans
      split: if_splits)

lemma visit_NWGWait_step [step_lemmas]:
  assumes "visit_NWGWait cur (g, ds, tr) = Ok (g', ds', tr')"
  shows "step_rel (g, ds) (g', ds')"
  using assms
  by (auto simp: visit_NWGWait_def slice_set_Ok dest: matchConsumer_step intro!: step_rel_evolves
      split: if_splits)

text \<open>The visit of a case of a select, as far as this section relies on it.\<close>

definition visit_ok :: "visit_fn \<Rightarrow> bool" where
  "visit_ok vf \<longleftrightarrow> (\<forall>i skip s g' ds' b. vf i skip s = Ok (g', ds', b) \<longrightarrow> step_rel s (g', ds'))"

lemma visit_okD: "visit_ok vf \<Longrightarrow> vf i skip (g, ds) = Ok (g', ds', b) \<Longrightarrow> step_rel (g, ds) (g', ds')"
  unfolding visit_ok_def by blast

definition acc_state :: "select_acc \<Rightarrow> RFGraph \<times> detectionState" where
  "acc_state a = (case a of (fp, fc, fd, g, ds, tr) \<Rightarrow> (g, ds))"

lemma select_default_step:
  assumes "visit_ok vf" and "select_default E vf cur c a = Ok b"
  shows "step_rel (acc_state a) (acc_state b)"
proof -
  obtain fp fc fd g ds tr where a: "a = (fp, fc, fd, g, ds, tr)" by (metis prod_cases6)
  from assms(2) obtain e fp' fc' fd' g' ds' tr' where b: "b = (fp', fc', fd', g', ds', tr')"
    and "(ds' = ds \<and> (\<exists>x. g' = split_case g ds (node_id c)
             (\<lambda>d. d\<lparr>can_walk := mput (node_id c) True (can_walk d)\<rparr>) (node_id c) x)) \<or>
         (evolves ds e \<and> vf (node_id c) True (g, e) = Ok (g', ds', tr'))"
    by (auto simp: a select_default_def slice_set_Ok split: if_splits)
       (metis (no_types) evolves_fields(1) evolves_pause evolves_trans length_list_update)+
  then show ?thesis
    by (auto simp: a b acc_state_def dest!: visit_okD [OF assms(1)] intro!: split_case_step
        intro: step_rel_from)
qed

lemma select_paired_step:
  assumes "visit_ok vf" and "select_paired vf c a = Ok b"
  shows "step_rel (acc_state a) (acc_state b)"
proof -
  obtain fp fc fd g ds tr where a: "a = (fp, fc, fd, g, ds, tr)" by (metis prod_cases6)
  from assms(2) show ?thesis
    by (auto simp: a select_paired_def acc_state_def split: option.splits if_splits
        dest!: visit_okD [OF assms(1)] intro: step_rel_from)
qed

lemma select_timer_step:
  assumes "visit_ok vf" and "select_timer E vf cur c a = Ok b"
  shows "step_rel (acc_state a) (acc_state b)"
proof -
  obtain fp fc fd g ds tr where a: "a = (fp, fc, fd, g, ds, tr)" by (metis prod_cases6)
  from assms(2) show ?thesis
    by (auto simp: a select_timer_def acc_state_def split: if_splits
        dest!: visit_okD [OF assms(1)] intro!: split_case_step)
qed

lemma select_round_step:
  assumes "visit_ok vf" and "select_round E vf cur cp a = Ok b"
  shows "step_rel (acc_state a) (acc_state b)"
proof -
  obtain fp fc fd g ds tr where a: "a = (fp, fc, fd, g, ds, tr)" by (metis prod_cases6)
  show ?thesis
  proof (cases cp)
    case None
    with assms(2) show ?thesis by (simp add: a select_round_def)
  next
    case (Some ci)
    with assms(2) obtain c where c: "node_at g ci = Ok c" by (auto simp: a select_round_def)
    show ?thesis
    proof (cases "case_state c = None \<or> isSender c")
      case True
      with assms(2) Some c show ?thesis
        by (cases "case_state c = None")
           (auto simp: a select_round_def acc_state_def dest: matchChannel_step
             select_default_step [OF assms(1), unfolded acc_state_def])
    next
      case False
      show ?thesis
      proof (cases "(fp \<or> fc) \<and> EXPLORE_ALL_STATES E")
        case True
        with assms(2) Some c False show ?thesis
          by (auto simp: a select_round_def acc_state_def intro!: split_case_step
              split: option.splits if_splits)
      next
        case late: False
        with assms(2) Some c False obtain m where
          "select_paired vf c a = Ok m" "select_timer E vf cur c m = Ok b"
          by (auto simp: a select_round_def split: if_splits)
        then show ?thesis
          using select_paired_step [OF assms(1)] select_timer_step [OF assms(1)] step_rel_trans
          by blast
      qed
    qed
  qed
qed

lemma visit_NSelect_step:
  assumes "visit_ok vf" and "visit_NSelect E vf cur (g, ds, tr) = Ok (g', ds', tr')"
  shows "step_rel (g, ds) (g', ds')"
proof -
  from assms(2) obtain fp fc fd g1 d1 tr1 where
    l: "loopR (select_round E vf cur) (sel_cases cur) (False, False, False, g, ds, tr)
        = Ok (fp, fc, fd, g1, d1, tr1)"
    and r: "(g' = g1 \<and> ds' = d1) \<or> pauseHere (gid cur) (node_id cur)
        (g1, d1\<lparr>visited := mput (node_id cur) 0 (visited d1)\<rparr>, tr1) = Ok (g', ds', tr')"
    by (auto simp: visit_NSelect_def split: if_splits)
  have "step_rel (acc_state (False, False, False, g, ds, tr)) (acc_state (fp, fc, fd, g1, d1, tr1))"
    by (rule loopR_rel [OF l, of "\<lambda>u v. step_rel (acc_state u) (acc_state v)"])
       (auto intro: step_rel_trans select_round_step [OF assms(1)])
  then have "step_rel (g, ds) (g1, d1)" by (simp add: acc_state_def)
  moreover have "step_rel (g1, d1) (g', ds')"
    using r by (auto dest!: pauseHere_step intro: step_rel_from)
  ultimately show ?thesis by (rule step_rel_trans)
qed

section \<open>Visits\<close>

lemma visitNode_step:
  assumes "visit_ok vf" and "visitNode E vf cur (g, ds) = Ok (g', ds', b)"
  shows "step_rel (g, ds) (g', ds')"
proof (cases "typId cur")
  case NGoroutine
  with assms(2) show ?thesis
    by (auto simp: visitNode_def Let_def visit_NGoroutine_def updateLoops_def intro!: step_rel_evolves)
next
  case NChannel
  with assms(2) show ?thesis by (auto simp: visitNode_def Let_def dest: visit_NChannel_step)
next
  case NSelect
  with assms(2) show ?thesis by (auto simp: visitNode_def Let_def dest: visit_NSelect_step [OF assms(1)])
next
  case NCase
  with assms(2) show ?thesis by (auto simp: visitNode_def Let_def dest: visit_NCase_step)
next
  case NCaseDone
  with assms(2) show ?thesis by (auto simp: visitNode_def Let_def dest: visit_NCase_step)
next
  case NLoop
  with assms(2) show ?thesis
    by (auto simp: visitNode_def Let_def visit_NLoop_def updateLoops_def intro!: step_rel_evolves)
next
  case NROC
  with assms(2) show ?thesis
    by (auto simp: visitNode_def Let_def visit_NROC_def updateLoops_def intro!: step_rel_evolves)
next
  case NClose
  with assms(2) show ?thesis
    by (auto simp: visitNode_def Let_def visit_NClose_def dest: visit_match_all_step)
next
  case NLock
  with assms(2) show ?thesis by (auto simp: visitNode_def Let_def dest: visit_NLock_step)
next
  case NUnlock
  with assms(2) show ?thesis by (auto simp: visitNode_def Let_def dest: visit_NUnlock_step)
next
  case NRLock
  with assms(2) show ?thesis by (auto simp: visitNode_def Let_def dest: visit_NRLock_step)
next
  case NRUnlock
  with assms(2) show ?thesis by (auto simp: visitNode_def Let_def dest: visit_NUnlock_step)
next
  case NExit
  with assms(2) show ?thesis by (auto simp: visitNode_def Let_def dest: visit_NExit_step)
next
  case NCancel
  with assms(2) show ?thesis
    by (auto simp: visitNode_def Let_def visit_NCancel_def dest: visit_match_all_step)
next
  case NCtxDone
  with assms(2) show ?thesis by (auto simp: visitNode_def Let_def dest: matchConsumer_step)
next
  case NWGWait
  with assms(2) show ?thesis by (auto simp: visitNode_def Let_def dest: visit_NWGWait_step)
next
  case NWGDone
  with assms(2) show ?thesis by (auto simp: visitNode_def Let_def dest: visit_NWGDone_step)
next
  case NCONDWait
  with assms(2) show ?thesis by (auto simp: visitNode_def Let_def dest: matchConsumer_step)
next
  case NSignal
  with assms(2) show ?thesis by (auto simp: visitNode_def Let_def dest: visit_NSignal_step)
next
  case NBroadcast
  with assms(2) show ?thesis
    by (auto simp: visitNode_def Let_def visit_NBroadcast_def dest: visit_match_all_step)
qed (use assms(2) in \<open>auto simp: visitNode_def Let_def\<close>)

lemma updateHIP_evolves: "updateHIP v ds = Ok ds' \<Longrightarrow> evolves ds ds'"
  by (auto simp: updateHIP_def Let_def slice_set_Ok evolves_def split: if_splits)

lemma visit_kids_step:
  assumes "visit_ok vf"
  shows "visit_kids vf ks s = Ok (g', ds', b) \<Longrightarrow> step_rel s (g', ds')"
proof (induction ks arbitrary: s)
  case (Cons k ks)
  obtain g ds where s: "s = (g, ds)" by (cases s)
  from Cons.prems obtain v where v: "node_at g k = Ok v" by (auto simp: s)
  show ?case
  proof (cases "mhas (visited ds) (node_id v)")
    case True
    with Cons v show ?thesis by (auto simp: s)
  next
    case False
    show ?thesis
    proof (cases "typId v = NGoroutine")
      case True
      with Cons.prems v False obtain d1 where
        "updateHIP v ds = Ok d1" "visit_kids vf ks (g, d1) = Ok (g', ds', b)"
        by (auto simp: s)
      then show ?thesis
        using step_rel_from [OF Cons.IH updateHIP_evolves] by (simp add: s)
    next
      case notgo: False
      with Cons.prems v False obtain g1 d1 go where
        1: "vf k False (g, ds) = Ok (g1, d1, go)"
        and r: "(if go then visit_kids vf ks (g1, d1) else Ok (g1, d1, False)) = Ok (g', ds', b)"
        by (auto simp: s)
      from visit_okD [OF assms 1] have "step_rel (g, ds) (g1, d1)" .
      moreover from r have "step_rel (g1, d1) (g', ds')"
        using Cons.IH by (cases go) auto
      ultimately show ?thesis unfolding s by (rule step_rel_trans)
    qed
  qed
qed auto

lemma visit_step_rel: "visit_ok (visit fuel E)"
proof (induction fuel)
  case (Suc fuel)
  show ?case
    unfolding visit_ok_def
  proof (intro allI impI)
    fix i skip s g' ds' b
    assume v: "visit (Suc fuel) E i skip s = Ok (g', ds', b)"
    obtain g ds where s: "s = (g, ds)" by (cases s)
    from v s obtain cur where "node_at g i = Ok cur" by auto
    define d0 where "d0 = ds\<lparr>visited := mput (node_id cur) 1 (visited ds)\<rparr>"
    from v s \<open>node_at g i = Ok cur\<close> obtain g1 d1 go where
      n: "(if skip then Ok (g, d0, True) else visitNode E (visit fuel E) cur (g, d0)) = Ok (g1, d1, go)"
      and r: "(g' = g1 \<and> ds' = d1) \<or>
         visit_kids (visit fuel E) (kids g1 (node_id cur)) (g1, d1) = Ok (g', ds', b)"
      by (auto simp: Let_def d0_def split: if_splits)
    have "step_rel (g, ds) (g, d0)" by (auto simp: d0_def intro: step_rel_evolves)
    moreover have "step_rel (g, d0) (g1, d1)"
      using n visitNode_step [OF Suc.IH] by (auto split: if_splits)
    moreover have "step_rel (g1, d1) (g', ds')"
      using r visit_kids_step [OF Suc.IH] by auto
    ultimately show "step_rel s (g', ds')" unfolding s by (blast intro: step_rel_trans)
  qed
qed (simp add: visit_ok_def)

end
