(* ===== verification/VisitFuel.thy ===== *)
theory VisitFuel
  imports VisitSteps
begin

text \<open>
  The nesting of \<open>visit\<close> is bounded: every kid is entered unvisited and marked at once, and the
  cases of a select are no selects. Twice the number of nodes still unvisited, and two more, is
  enough fuel, so running out of fuel never hides a traversal of the code.
\<close>

definition fuelled :: "'a res \<Rightarrow> bool" where
  "fuelled r \<longleftrightarrow> r \<noteq> OutOfFuel"

named_theorems fuel_intro \<open>operations that need no fuel\<close>

lemma fuelled_Ok [simp, fuel_intro]: "fuelled (Ok x)" and fuelled_Panic [simp, fuel_intro]: "fuelled (Panic p)"
  by (simp_all add: fuelled_def)

lemma fuelled_bindR [fuel_intro]:
  "fuelled r \<Longrightarrow> (\<And>x. r = Ok x \<Longrightarrow> fuelled (f x)) \<Longrightarrow> fuelled (bindR r f)"
  by (cases r) (simp_all add: fuelled_def)

lemma fuelled_if [fuel_intro]: "(b \<Longrightarrow> fuelled x) \<Longrightarrow> (\<not> b \<Longrightarrow> fuelled y) \<Longrightarrow> fuelled (if b then x else y)"
  by simp

lemma fuelled_option [fuel_intro]:
  "(p = None \<Longrightarrow> fuelled x) \<Longrightarrow> (\<And>a. p = Some a \<Longrightarrow> fuelled (f a)) \<Longrightarrow>
     fuelled (case p of None \<Rightarrow> x | Some a \<Rightarrow> f a)"
  by (cases p) simp_all

lemma fuelled_prod [fuel_intro]:
  "(\<And>a b. p = (a, b) \<Longrightarrow> fuelled (f a b)) \<Longrightarrow> fuelled (case p of (a, b) \<Rightarrow> f a b)"
  by (cases p) simp

lemma fuelled_Let [fuel_intro]: "(\<And>y. y = x \<Longrightarrow> fuelled (f y)) \<Longrightarrow> fuelled (let y = x in f y)"
  by simp

lemma fuelled_deref [fuel_intro]: "fuelled (deref p)"
  by (cases p) simp_all

lemma fuelled_slice [fuel_intro]: "fuelled (slice_get xs i)" "fuelled (slice_set xs i v)"
  by (simp_all add: slice_get_def slice_set_def)

lemma fuelled_loopR [fuel_intro]:
  assumes "\<And>x s. x \<in> set xs \<Longrightarrow> fuelled (f x s)"
  shows "fuelled (loopR f xs s)"
  using assms by (induction xs arbitrary: s) (auto intro: fuelled_bindR)

lemma fuelled_findR [fuel_intro]:
  assumes "\<And>x. x \<in> set xs \<Longrightarrow> fuelled (f x)"
  shows "fuelled (findR f xs)"
  using assms by (induction xs) (auto intro!: fuelled_bindR fuelled_option)

lemma fuelled_node_at [fuel_intro]: "fuelled (node_at g i)" "fuelled (node_pts g v c)"
  by (auto simp: node_at_def node_pts_def intro: fuel_intro)

lemma fuelled_pause_at [fuel_intro]: "fuelled (pause_at h t)"
  by (simp add: pause_at_def fuel_intro)

lemma fuelled_pickConsumers [fuel_intro]: "fuelled (pickConsumers E g cs t ds)"
  unfolding pickConsumers_def pick_round_def by (intro fuel_intro)

lemma fuelled_pauseHere [fuel_intro]: "fuelled (pauseHere t i s)"
  unfolding pauseHere_def by (intro fuel_intro)

lemma fuelled_createNewState [fuel_intro]: "fuelled (createNewState cur c p g ds)"
  unfolding createNewState_def by (intro fuel_intro)

lemma fuelled_createNewLockState [fuel_intro]: "fuelled (createNewLockState cur pts h g ds)"
  unfolding createNewLockState_def by (intro fuel_intro)

lemma fuelled_mark [fuel_intro]: "fuelled (markConsumerAfterMatching c p g ds)"
  unfolding markConsumerAfterMatching_def by (intro fuel_intro)

lemma fuelled_case_taken [fuel_intro]: "fuelled (case_taken g ds c)"
  unfolding case_taken_def by (intro fuel_intro)

lemma fuelled_match_round [fuel_intro]: "fuelled (match_round E cur p ds c s)"
  unfolding match_round_def by (intro fuel_intro)

lemma fuelled_match_objs [fuel_intro]: "fuelled (match_objs E cur p ds pts s)"
  unfolding match_objs_def by (intro fuel_intro)

lemma fuelled_matchChannel [fuel_intro]: "fuelled (matchChannel E cur pts b p s)"
  unfolding matchChannel_def by (intro fuel_intro)

lemma fuelled_matchConsumer [fuel_intro]: "fuelled (matchConsumer cur b s)"
  unfolding matchConsumer_def by (intro fuel_intro)

lemma fuelled_matchAll [fuel_intro]: "fuelled (matchAllConsumer E cur obj s)"
  unfolding matchAllConsumer_def by (intro fuel_intro)

lemma fuelled_unclosed [fuel_intro]: "fuelled (hasUnclosedLoop g cur ds)"
  unfolding hasUnclosedLoop_def by (intro fuel_intro)

lemma fuelled_wg_unfinished [fuel_intro]: "fuelled (wg_unfinished E g ds p)"
  unfolding wg_unfinished_def by (intro fuel_intro)

lemma fuelled_wg_round [fuel_intro]: "fuelled (wg_round E cur ds c s)"
  unfolding wg_round_def by (intro fuel_intro)

lemma fuelled_matchWGDone_objs: "fuelled (matchWGDone_objs E cur objs s)"
proof (induction objs arbitrary: s)
  case (Cons obj objs)
  show ?case
    unfolding matchWGDone_objs.simps by (intro fuel_intro Cons)
qed simp

lemma fuelled_matchWGDone [fuel_intro]: "fuelled (matchWGDone E cur s)"
  by (simp add: matchWGDone_def fuelled_matchWGDone_objs)

lemma fuelled_locks [fuel_intro]:
  "fuelled (lock_new_pair E cur pts h s)" "fuelled (lock_refused E cur pts i s)"
  "fuelled (lock_acquired cur pts s)"
  unfolding lock_refused_def lock_new_pair_def lock_acquired_def by (intro fuel_intro)+

lemma fuelled_visit_locks [fuel_intro]: "fuelled (visit_NLock E cur s)" "fuelled (visit_NRLock E cur s)"
  unfolding visit_NLock_def visit_NRLock_def by (intro fuel_intro)+

lemma fuelled_holds_obj [fuel_intro]: "fuelled (holds_obj g ds t obj)"
  unfolding holds_obj_def by (intro fuel_intro)

lemma fuelled_unlock [fuel_intro]:
  "fuelled (unlock_consumer E cur c u)" "fuelled (unlock_round E cur obj u)"
  unfolding unlock_round_def unlock_consumer_def by (intro fuel_intro)+

lemma fuelled_visit_NUnlock [fuel_intro]: "fuelled (visit_NUnlock E cur s)"
  unfolding visit_NUnlock_def by (intro fuel_intro)

lemma fuelled_visit_NSignal [fuel_intro]: "fuelled (visit_NSignal E cur s)"
  unfolding visit_NSignal_def by (intro fuel_intro)

lemma fuelled_match_all [fuel_intro]: "fuelled (visit_match_all E cur objs s)"
  unfolding visit_match_all_def by (intro fuel_intro)

lemma fuelled_visit_rest [fuel_intro]:
  "fuelled (visit_NChannel E cur s)" "fuelled (visit_NCase cur s)" "fuelled (visit_NClose E cur s)"
  "fuelled (visit_NBroadcast E cur s)" "fuelled (visit_NCancel E cur s)"
  "fuelled (visit_NGoroutine cur s)" "fuelled (visit_NWGWait cur s)" "fuelled (visit_NExit E cur s)"
  "fuelled (visit_NWGDone E cur s)" "fuelled (visit_NLoop cur s)" "fuelled (visit_NROC cur s)"
  unfolding visit_NChannel_def visit_NCase_def visit_NClose_def visit_NBroadcast_def
    visit_NCancel_def visit_NGoroutine_def visit_NWGWait_def visit_NExit_def visit_NWGDone_def
    visit_NLoop_def visit_NROC_def
  by (intro fuel_intro)+

lemma fuelled_updateHIP [fuel_intro]: "fuelled (updateHIP v ds)"
  unfolding updateHIP_def by (intro fuel_intro)

section \<open>Selects and visits\<close>

definition unvisited :: "RFGraph \<Rightarrow> detectionState \<Rightarrow> nat" where
  "unvisited g ds = card (dom (map_of (id2node g)) - dom (map_of (visited ds)))"

definition mark :: "int \<Rightarrow> detectionState \<Rightarrow> detectionState" where
  "mark i ds = ds\<lparr>visited := mput i 1 (visited ds)\<rparr>"

text \<open>Nodes are registered under their id, and no case of a select is a select.\<close>

definition wf_selects :: "RFGraph \<Rightarrow> bool" where
  "wf_selects g \<longleftrightarrow> ids_ok g \<and>
     (\<forall>i n c cn. mget (id2node g) i = Some n \<longrightarrow> Some c \<in> set (sel_cases n) \<longrightarrow>
        mget (id2node g) c = Some cn \<longrightarrow> typId cn \<noteq> NSelect)"

lemma unvisited_mono: "step_rel (g, d) (g', e) \<Longrightarrow> unvisited g' e \<le> unvisited g d"
  using step_rel_graph(1) [of g d g' e]
  by (auto simp: unvisited_def step_rel_def evolves_def finite_dom_map_of intro!: card_mono)

lemma dom_visited_mark: "dom (map_of (visited (mark i d))) = insert i (dom (map_of (visited d)))"
  by (auto simp: mark_def split: if_splits)

lemma unvisited_mark_le: "unvisited g (mark i d) \<le> unvisited g d"
  unfolding unvisited_def dom_visited_mark
  by (rule card_mono) (auto simp: finite_dom_map_of)

lemma unvisited_mark_less:
  assumes "mget (id2node g) i = Some n" and "\<not> mhas (visited d) i"
  shows "unvisited g (mark i d) < unvisited g d"
proof -
  have "i \<in> dom (map_of (id2node g)) - dom (map_of (visited d))"
    using assms by (auto simp: mhas_def)
  then show ?thesis
    unfolding unvisited_def dom_visited_mark
    by (intro psubset_card_mono) (auto simp: finite_dom_map_of)
qed

lemma wf_selects_step: "step_rel (g, d) (g', e) \<Longrightarrow> wf_selects g \<Longrightarrow> wf_selects g'"
  using step_rel_graph(1) [of g d g' e] by (auto simp: wf_selects_def ids_ok_def)

text \<open>What the visit of a case needs, for a bound \<open>M\<close> on the unvisited nodes.\<close>

definition case_fuelled :: "RFGraph \<Rightarrow> nat \<Rightarrow> visit_fn \<Rightarrow> node \<Rightarrow> bool" where
  "case_fuelled g0 M vf c \<longleftrightarrow>
     (\<forall>skip g ds. id2node g = id2node g0 \<longrightarrow> unvisited g ds \<le> M \<longrightarrow>
        fuelled (vf (node_id c) skip (g, ds)))"

lemma fuelled_select_parts:
  assumes "case_fuelled g0 M vf c" and "id2node g = id2node g0" and "unvisited g ds \<le> M"
  shows "fuelled (select_default E vf cur c (fp, fc, fd, g, ds, tr))"
    and "fuelled (select_paired vf c (fp, fc, fd, g, ds, tr))"
    and "fuelled (select_timer E vf cur c (fp, fc, fd, g, ds, tr))"
  using assms
  by (auto simp: select_default_def select_paired_def select_timer_def case_fuelled_def
      unvisited_def intro!: fuel_intro)

definition acc_small :: "RFGraph \<Rightarrow> nat \<Rightarrow> select_acc \<Rightarrow> bool" where
  "acc_small g0 M a \<longleftrightarrow> id2node (fst (acc_state a)) = id2node g0 \<and>
     unvisited (fst (acc_state a)) (snd (acc_state a)) \<le> M"

lemma acc_small_step:
  assumes "step_rel (acc_state a) (acc_state b)" and "acc_small g0 M a"
  shows "acc_small g0 M b"
proof -
  obtain g d g' d' where ab: "acc_state a = (g, d)" "acc_state b = (g', d')" by fastforce
  with assms show ?thesis
    using step_rel_graph(1) [of g d g' d'] unvisited_mono [of g d g' d']
    by (simp add: acc_small_def)
qed

lemma fuelled_select_round:
  assumes "visit_ok vf" and "acc_small g0 M a"
    and "\<And>ci c. cp = Some ci \<Longrightarrow> mget (id2node g0) ci = Some c \<Longrightarrow> case_fuelled g0 M vf c"
  shows "fuelled (select_round E vf cur cp a)"
proof -
  obtain fp fc fd g ds tr where a: "a = (fp, fc, fd, g, ds, tr)" by (metis prod_cases6)
  show ?thesis
  proof (cases cp)
    case None
    then show ?thesis by (simp add: a select_round_def)
  next
    case (Some ci)
    show ?thesis
    proof (cases "mget (id2node g) ci")
      case None
      with Some show ?thesis by (simp add: a select_round_def node_at_def)
    next
      case (Some c)
      from assms(2) have gg: "id2node g = id2node g0" "unvisited g ds \<le> M"
        by (auto simp: acc_small_def acc_state_def a)
      have cf: "case_fuelled g0 M vf c" using assms(3) \<open>cp = Some ci\<close> Some gg by simp
      have late: "fuelled (select_timer E vf cur c m)"
        if "select_paired vf c (fp, fc, fd, g, ds, tr) = Ok m" for m
      proof -
        have "acc_small g0 M m"
          using select_paired_step [OF assms(1) that] assms(2) a acc_small_step by blast
        moreover obtain x1 x2 x3 x4 x5 x6 where "m = (x1, x2, x3, x4, x5, x6)"
          by (metis prod_cases6)
        ultimately show ?thesis
          using fuelled_select_parts(3) [OF cf] by (simp add: acc_small_def acc_state_def)
      qed
      have "select_round E vf cur cp a =
         (if case_state c = None then select_default E vf cur c (fp, fc, fd, g, ds, tr)
         else if isSender c then
           bindR (node_pts g (ch_ptr c) (cgnode cur)) (\<lambda>pts.
           bindR (matchChannel E cur pts (fc \<or> fp) (node_id c) (g, ds, tr))
             (\<lambda>(g', ds', traverse'). Ok (True, fc, fd, g', ds', traverse')))
         else if (fp \<or> fc) \<and> EXPLORE_ALL_STATES E then
           (case mget (pairs ds) (node_id c) of
              Some producer_id \<Rightarrow>
                if producer_id \<ge> 0 then
                  Ok (fp, fc, fd,
                      split_case g ds (node_id cur)
                        (\<lambda>d. d\<lparr>can_walk := mput producer_id True (can_walk d)\<rparr>)
                        (node_id c) (gid cur), ds, tr)
                else Ok (fp, fc, fd, g, ds, tr)
            | None \<Rightarrow> Ok (fp, fc, fd, g, ds, tr))
         else
           bindR (select_paired vf c (fp, fc, fd, g, ds, tr)) (select_timer E vf cur c))"
        using Some \<open>cp = Some ci\<close> by (simp add: a select_round_def node_at_def)
      also have "fuelled \<dots>"
        by (intro fuel_intro fuelled_select_parts [OF cf gg] late)
      finally show ?thesis .
    qed
  qed
qed

lemma fuelled_loopR_inv:
  assumes "I s" and "\<And>x u. x \<in> set xs \<Longrightarrow> I u \<Longrightarrow> fuelled (f x u)"
    and "\<And>x u v. x \<in> set xs \<Longrightarrow> I u \<Longrightarrow> f x u = Ok v \<Longrightarrow> I v"
  shows "fuelled (loopR f xs s)"
  using assms
proof (induction xs arbitrary: s)
  case (Cons x xs)
  show ?case
    unfolding loopR.simps
  proof (rule fuelled_bindR)
    show "fuelled (f x s)" using Cons.prems by simp
    fix v assume "f x s = Ok v"
    then have "I v" using Cons.prems(3) [of x s v] Cons.prems(1) by simp
    then show "fuelled (loopR f xs v)" by (rule Cons.IH) (auto intro: Cons.prems)
  qed
qed simp

lemma fuelled_visit_NSelect:
  assumes "visit_ok vf" and "unvisited g ds \<le> M"
    and "\<And>ci c. Some ci \<in> set (sel_cases cur) \<Longrightarrow> mget (id2node g) ci = Some c \<Longrightarrow>
           case_fuelled g M vf c"
  shows "fuelled (visit_NSelect E vf cur (g, ds, tr))"
proof -
  have "fuelled (loopR (select_round E vf cur) (sel_cases cur) (False, False, False, g, ds, tr))"
  proof (rule fuelled_loopR_inv [where I = "acc_small g M"])
    show "acc_small g M (False, False, False, g, ds, tr)"
      using assms(2) by (simp add: acc_small_def acc_state_def)
  next
    fix cp u assume "cp \<in> set (sel_cases cur)" "acc_small g M u"
    then show "fuelled (select_round E vf cur cp u)"
      using assms(1,3) by (auto intro: fuelled_select_round)
  next
    fix cp u v assume "acc_small g M u" "select_round E vf cur cp u = Ok v"
    then show "acc_small g M v"
      using select_round_step [OF assms(1)] acc_small_step by blast
  qed
  then show ?thesis unfolding visit_NSelect_def by (auto intro!: fuel_intro)
qed

lemma fuelled_visitNode:
  assumes "typId cur = NSelect \<Longrightarrow> fuelled (visit_NSelect E vf cur (g, ds, True))"
  shows "fuelled (visitNode E vf cur (g, ds))"
  using assms by (cases "typId cur") (auto simp: visitNode_def Let_def intro: fuel_intro)

lemma fuelled_visit_kids:
  assumes ok: "visit_ok vf" and wf: "ids_ok g"
    and kid: "\<And>g' ds' k n. id2node g' = id2node g \<Longrightarrow> unvisited g' ds' \<le> M \<Longrightarrow>
        mget (id2node g) k = Some n \<Longrightarrow> \<not> mhas (visited ds') k \<Longrightarrow> fuelled (vf k False (g', ds'))"
  shows "id2node g1 = id2node g \<Longrightarrow> unvisited g1 ds \<le> M \<Longrightarrow> fuelled (visit_kids vf ks (g1, ds))"
proof (induction ks arbitrary: g1 ds)
  case (Cons k ks)
  have "fuelled (visit_kids vf ks (g1, ds'))" if "updateHIP v ds = Ok ds'" for v ds'
    using Cons unvisited_mono [OF step_rel_evolves [OF updateHIP_evolves [OF that]], of g1]
    by simp
  moreover have "fuelled (visit_kids vf ks (g2, ds'))" if "vf k False (g1, ds) = Ok (g2, ds', go)"
    for g2 ds' go
  proof -
    from visit_okD [OF ok that] have "step_rel (g1, ds) (g2, ds')" .
    with Cons show ?thesis
      using step_rel_graph(1) [of g1 ds g2 ds'] unvisited_mono [of g1 ds g2 ds'] by simp
  qed
  moreover have "fuelled (vf k False (g1, ds))"
    if "node_at g1 k = Ok v" "\<not> mhas (visited ds) (node_id v)" for v
  proof -
    from that Cons.prems wf have "mget (id2node g) k = Some v" "node_id v = k"
      by (auto simp: node_at_Ok ids_ok_def)
    with that Cons.prems show ?thesis by (auto intro: kid)
  qed
  ultimately show ?case using Cons by (auto intro!: fuel_intro)
qed simp

lemma visit_fuelled:
  assumes "wf_selects g"
    and "2 * unvisited g (mark i ds) + (if \<not> skip \<and> (\<exists>n. mget (id2node g) i = Some n \<and> typId n = NSelect)
           then 2 else 1) \<le> fuel"
  shows "fuelled (visit fuel E i skip (g, ds))"
  using assms
proof (induction fuel arbitrary: g ds i skip)
  case 0
  then show ?case by (auto split: if_splits)
next
  case (Suc fuel)
  show ?case
  proof (cases "mget (id2node g) i")
    case None
    then show ?thesis by (simp add: node_at_def)
  next
    case (Some cur)
    with Suc.prems(1) have cid: "node_id cur = i" and ids: "ids_ok g"
      by (auto simp: wf_selects_def ids_ok_def)
    let ?d = "mark i ds" and ?M = "unvisited g (mark i ds)"
    have node: "fuelled (visitNode E (visit fuel E) cur (g, ?d))" if "\<not> skip"
    proof (rule fuelled_visitNode, rule fuelled_visit_NSelect [OF visit_step_rel order_refl])
      fix ci c
      assume sel: "typId cur = NSelect" and ci: "Some ci \<in> set (sel_cases cur)"
        "mget (id2node g) ci = Some c"
      with Suc.prems(1) Some have c: "typId c \<noteq> NSelect" "node_id c = ci"
        by (auto simp: wf_selects_def ids_ok_def)
      show "case_fuelled g ?M (visit fuel E) c"
        unfolding case_fuelled_def
      proof (intro allI impI)
        fix sk g' d'
        assume g': "id2node g' = id2node g" and M: "unvisited g' d' \<le> ?M"
        have "wf_selects g'" using Suc.prems(1) g' by (simp add: wf_selects_def ids_ok_def)
        moreover have "unvisited g' (mark ci d') \<le> ?M"
          using M unvisited_mark_le [of g' ci d'] by simp
        ultimately show "fuelled (visit fuel E (node_id c) sk (g', d'))"
          using Suc.prems(2) sel that Some ci c g' by (auto intro!: Suc.IH)
      qed
    qed
    have kids: "fuelled (visit_kids (visit fuel E) ks (g1, d1))"
      if "step_rel (g, ?d) (g1, d1)" for g1 d1 ks
    proof (rule fuelled_visit_kids [OF visit_step_rel, where g = g and M = ?M])
      fix g' d' k n
      assume g': "id2node g' = id2node g" and M: "unvisited g' d' \<le> ?M"
        and k: "mget (id2node g) k = Some n" "\<not> mhas (visited d') k"
      have "wf_selects g'" using Suc.prems(1) g' by (simp add: wf_selects_def ids_ok_def)
      moreover have "unvisited g' (mark k d') < ?M"
        using unvisited_mark_less [of g' k n d'] k g' M by simp
      ultimately show "fuelled (visit fuel E k False (g', d'))"
        using Suc.prems(2) by (intro Suc.IH) (auto split: if_splits)
    qed (use ids that step_rel_graph(1) unvisited_mono in auto)
    have "visit (Suc fuel) E i skip (g, ds) =
      bindR (if skip then Ok (g, ?d, True) else visitNode E (visit fuel E) cur (g, ?d))
       (\<lambda>(g', ds', go_on).
         if \<not> skip \<and> \<not> go_on then Ok (g', ds', False)
         else visit_kids (visit fuel E) (kids g' (node_id cur)) (g', ds'))"
      using Some cid by (simp add: node_at_def mark_def)
    also have "fuelled \<dots>"
      using node kids visitNode_step [OF visit_step_rel]
      by (auto intro!: fuel_intro)
    finally show ?thesis .
  qed
qed

end
