(* ===== verification/Explore.thy ===== *)
theory Explore
  imports VisitFuel
begin

text \<open>
  The exploration of \<open>concurrency/rfg.go\<close>: \<open>exploreRandomState\<close> and \<open>exploreOrderState\<close> run the
  goroutines of one state turn by turn until nothing can walk, and \<open>DFSDetectBlockingBugs\<close> explores
  the queue of states and turns the paused ones into reports. The loops without a bound of their own
  take fuel; a visit gets \<open>visit_bound\<close>, which theory \<open>VisitClaims\<close> shows to be enough.
\<close>

definition visit_bound :: "RFGraph \<Rightarrow> nat" where
  "visit_bound g = 2 * length (id2node g) + 2"

definition run_visit :: "env \<Rightarrow> int \<Rightarrow> bool \<Rightarrow> RFGraph \<times> detectionState \<Rightarrow> (RFGraph \<times> detectionState) res"
  where "run_visit E i skip s =
     bindR (visit (visit_bound (fst s)) E i skip s) (\<lambda>(g, ds, _). Ok (g, ds))"

section \<open>One turn\<close>

definition prepareLastVisit ::
  "int \<Rightarrow> int \<Rightarrow> detectionState \<times> bool \<Rightarrow> (detectionState \<times> bool) res" where
  "prepareLastVisit nid n_tid = (\<lambda>(ds, is_visit_last).
     if nid < 0 then Ok (ds, is_visit_last)
     else let ds = ds\<lparr>can_walk := mput nid True (can_walk ds)\<rparr> in
       bindR (slice_set (pause_ats ds) n_tid nid) (\<lambda>pa. Ok (ds\<lparr>pause_ats := pa\<rparr>, True)))"

text \<open>\<open>ds.noPaused() || ds.noWalk() || ds.noPausedIsWalkable()\<close>\<close>

definition stuck :: "detectionState \<Rightarrow> bool res" where
  "stuck ds = (if noPaused ds \<or> noWalk ds then Ok True else noPausedIsWalkable ds)"

definition reset_last :: "RFGraph \<Rightarrow> detectionState \<times> bool \<Rightarrow> detectionState \<times> bool" where
  "reset_last g = (\<lambda>(ds, is_visit_last).
     (if is_visit_last then ds\<lparr>visit_last := replicate (length (roots g)) 0\<rparr> else ds, is_visit_last))"

definition visit_lasts :: "detectionState \<Rightarrow> (int \<times> int) list" where
  "visit_lasts ds = zip (map int [0..<length (visit_last ds)]) (visit_last ds)"

text \<open>
  The first part of a turn, with the pausing threads that are to go on told so (\<open>resume_lasts\<close>,
  \<open>resume_at\<close>): \<open>None\<close> is the \<open>break\<close> out of the loop.
\<close>

definition resume_lasts ::
  "RFGraph \<Rightarrow> detectionState \<times> bool \<Rightarrow> (detectionState \<times> bool) option res" where
  "resume_lasts g s =
     bindR (loopR (\<lambda>(n_tid, nid) s. if nid > 0 then prepareLastVisit nid n_tid s else Ok s)
              (visit_lasts (fst s)) s) (\<lambda>s. Ok (Some (reset_last g s)))"

definition resume_at ::
  "RFGraph \<Rightarrow> int \<Rightarrow> int \<Rightarrow> detectionState \<times> bool \<Rightarrow> (detectionState \<times> bool) option res" where
  "resume_at g nid n_tid s =
     bindR (prepareLastVisit nid n_tid s) (\<lambda>s. Ok (Some (reset_last g s)))"

definition random_resume ::
  "env \<Rightarrow> RFGraph \<Rightarrow> detectionState \<Rightarrow> bool \<Rightarrow> (detectionState \<times> bool) option res" where
  "random_resume E g ds is_visit_last =
     bindR (stuck ds) (\<lambda>st.
       if \<not> st then Ok (Some (ds, False))
       else if hasVisitLast ds then resume_lasts g (ds, is_visit_last)
       else bindR (holdingRLock E g ds) (\<lambda>(rnode_id, rn_tid).
         if rn_tid \<noteq> -1 \<and> rnode_id \<noteq> -1 then resume_at g rnode_id rn_tid (ds, is_visit_last)
         else bindR (holdingLock E g ds) (\<lambda>(nid, n_tid).
           if n_tid \<noteq> -1 \<and> nid \<noteq> -1 then resume_at g nid n_tid (ds, is_visit_last)
           else bindR (noPausedWaits g ds) (\<lambda>(unode_id, un_tid).
             if un_tid \<noteq> -1 \<and> unode_id \<noteq> -1 then resume_at g unode_id un_tid (ds, is_visit_last)
             else Ok None))))"

definition wrong_thread :: "int \<Rightarrow> int \<Rightarrow> go_panic" where
  "wrong_thread node_gid tid = ExplicitPanic
     (''cur_node.gid = '' @ itoa node_gid @ '' but tid = '' @ itoa tid @ [CHR 0x0A])"

text \<open>
  The second part: whether the thread may go on from where it is paused. \<open>None\<close> is a \<open>continue\<close>;
  otherwise the pause is lifted and the node returned.
\<close>

definition take_turn ::
  "RFGraph \<Rightarrow> detectionState \<Rightarrow> int \<Rightarrow> bool \<Rightarrow> (detectionState \<times> node) option res" where
  "take_turn g ds tid is_visit_last =
     bindR (pause_at ds tid) (\<lambda>cur_node_id.
     case mget (id2node g) cur_node_id of None \<Rightarrow> Ok None
     | Some cur_node \<Rightarrow>
         bindR (if mget (can_walk ds) cur_node_id = Some True
                then Ok (\<not> (is_visit_last \<and> (cur_node_id = -2 \<or> cur_node_id = -3)))
                else if typId cur_node = NLock \<or> typId cur_node = NRLock
                then onlyICanWalk g tid ds else Ok False)
           (\<lambda>go_on. if \<not> go_on then Ok None
             else bindR (slice_set (pause_ats ds) tid (-1)) (\<lambda>pa.
               if gid cur_node \<noteq> tid then Panic (wrong_thread (gid cur_node) tid)
               else Ok (Some (ds\<lparr>can_walk := mput cur_node_id False (can_walk ds),
                                pause_ats := pa\<rparr>, cur_node)))))"

definition revisit_always :: "node \<Rightarrow> bool \<Rightarrow> bool" where
  "revisit_always n is_visit_last =
     (typId n = NWGWait \<or> typId n = NCase \<or> typId n = NCaseDone \<or> is_visit_last)"

definition walk_random :: "env \<Rightarrow> node \<Rightarrow> bool \<Rightarrow> RFGraph \<times> detectionState \<Rightarrow>
    (RFGraph \<times> detectionState) res" where
  "walk_random E cur_node is_visit_last s =
     (if typId cur_node = NLock \<or> typId cur_node = NRLock then
        run_visit E (node_id cur_node) (mget0 0 (visited (snd s)) (node_id cur_node) = 1) s
      else run_visit E (node_id cur_node) (\<not> revisit_always cur_node is_visit_last) s)"

section \<open>\<open>exploreRandomState\<close>\<close>

record turn =
  t_graph :: RFGraph
  t_state :: detectionState
  t_tid :: int
  t_prev :: int
  t_last :: bool
  t_draws :: nat      \<comment> \<open>draws of \<open>rand\<close> so far\<close>

text \<open>One iteration of the loop: \<open>None\<close> when it breaks. \<open>draws\<close> bounds the redraws of a thread.\<close>

definition random_round :: "nat \<Rightarrow> env \<Rightarrow> turn \<Rightarrow> (turn option \<times> nat \<times> RFGraph \<times> detectionState) res" where
  "random_round draws E t =
     bindR (getRandomTID draws E (t_draws t) (t_state t) (t_tid t) (t_prev t)) (\<lambda>(tid, k).
       if tid = -1 then Ok (None, k, t_graph t, t_state t)
       else bindR (random_resume E (t_graph t) (t_state t) (t_last t)) (\<lambda>r.
         case r of None \<Rightarrow> Ok (None, k, t_graph t, t_state t)
         | Some (ds, is_visit_last) \<Rightarrow>
           bindR (take_turn (t_graph t) ds tid is_visit_last) (\<lambda>turn_taken.
           bindR (case turn_taken of None \<Rightarrow> Ok (t_graph t, ds)
                  | Some (ds', cur_node) \<Rightarrow> walk_random E cur_node is_visit_last (t_graph t, ds'))
             (\<lambda>(g, ds). Ok (Some \<lparr>t_graph = g, t_state = ds, t_tid = tid, t_prev = tid,
                                   t_last = is_visit_last, t_draws = k\<rparr>, k, g, ds)))))"

fun random_loop :: "nat \<Rightarrow> env \<Rightarrow> turn \<Rightarrow> (RFGraph \<times> detectionState \<times> nat) res" where
  "random_loop 0 E t = OutOfFuel"
| "random_loop (Suc fuel) E t =
     bindR (random_round (Suc fuel) E t) (\<lambda>(next, k, g, ds).
       case next of None \<Rightarrow> Ok (g, ds, k) | Some t' \<Rightarrow> random_loop fuel E t')"

definition exploreRandomState ::
  "nat \<Rightarrow> env \<Rightarrow> nat \<Rightarrow> RFGraph \<times> detectionState \<Rightarrow> int \<Rightarrow> int \<Rightarrow> (RFGraph \<times> detectionState \<times> nat) res"
  where
  "exploreRandomState fuel E k s first_node_id cur_tid =
     bindR (if first_node_id \<noteq> -1 then run_visit E first_node_id True s else Ok s) (\<lambda>(g, ds).
       random_loop fuel E \<lparr>t_graph = g, t_state = ds, t_tid = cur_tid, t_prev = cur_tid,
         t_last = False, t_draws = k\<rparr>)"

section \<open>\<open>exploreOrderState\<close>\<close>

definition order_resume ::
  "RFGraph \<Rightarrow> detectionState \<Rightarrow> bool \<Rightarrow> (detectionState \<times> bool) option res" where
  "order_resume g ds is_visit_last =
     bindR (stuck ds) (\<lambda>st.
       if \<not> st then Ok (Some (ds, False))
       else if hasVisitLast ds then
         bindR (loopR (\<lambda>(tid, nid) (ds, last).
                   if nid \<ge> 0 then
                     bindR (slice_set (pause_ats ds) tid nid) (\<lambda>pa.
                       Ok (ds\<lparr>can_walk := mput nid True (can_walk ds), pause_ats := pa\<rparr>, True))
                   else Ok (ds, last)) (visit_lasts ds) (ds, is_visit_last))
           (\<lambda>s. Ok (Some (reset_last g s)))
       else Ok None)"

definition order_turn ::
  "RFGraph \<Rightarrow> detectionState \<Rightarrow> int \<Rightarrow> bool \<Rightarrow> (detectionState \<times> node) option res" where
  "order_turn g ds tid is_visit_last =
     bindR (pause_at ds tid) (\<lambda>cur_node_id.
       if cur_node_id < 0 then Ok None else take_turn g ds tid is_visit_last)"

fun order_loop :: "nat \<Rightarrow> env \<Rightarrow> int \<Rightarrow> bool \<Rightarrow> RFGraph \<times> detectionState \<Rightarrow>
    (RFGraph \<times> detectionState) res" where
  "order_loop 0 E i is_visit_last s = OutOfFuel"
| "order_loop (Suc fuel) E i is_visit_last (g, ds) =
     bindR (order_resume g ds is_visit_last) (\<lambda>r. case r of None \<Rightarrow> Ok (g, ds)
     | Some (ds, is_visit_last) \<Rightarrow>
         let i = (if i \<ge> int (length (hip ds)) then 0 else i) in
         bindR (slice_get (hip ds) i) (\<lambda>tid.
         bindR (order_turn g ds tid is_visit_last) (\<lambda>turn_taken.
         bindR (case turn_taken of None \<Rightarrow> Ok (g, ds)
                | Some (ds', cur_node) \<Rightarrow>
                    run_visit E (node_id cur_node) (\<not> revisit_always cur_node is_visit_last) (g, ds'))
           (\<lambda>s'. order_loop fuel E (i + 1) is_visit_last s'))))"

text \<open>Go's \<open>%\<close> truncates, and panics for a zero divisor.\<close>

definition go_rem :: "int \<Rightarrow> int \<Rightarrow> int res" where
  "go_rem a b = (if b = 0 then Panic DivideByZero else Ok (sgn a * (\<bar>a\<bar> mod \<bar>b\<bar>)))"

definition exploreOrderState ::
  "nat \<Rightarrow> env \<Rightarrow> RFGraph \<times> detectionState \<Rightarrow> int \<Rightarrow> int \<Rightarrow> (RFGraph \<times> detectionState) res" where
  "exploreOrderState fuel E s first_node_id cur_tid =
     bindR (if first_node_id \<noteq> -1 then run_visit E first_node_id True s else Ok s) (\<lambda>s'.
     bindR (if cur_tid \<noteq> -1 then go_rem (cur_tid + 1) (int (length (hip (snd s')))) else Ok 0) (\<lambda>i.
       order_loop fuel E i False s'))"

definition exploreState ::
  "nat \<Rightarrow> env \<Rightarrow> nat \<Rightarrow> RFGraph \<times> detectionState \<Rightarrow> int \<Rightarrow> int \<Rightarrow> (RFGraph \<times> detectionState \<times> nat) res"
  where
  "exploreState fuel E k s first_node_id cur_tid =
     (if RANDOM_STATE E then exploreRandomState fuel E k s first_node_id cur_tid
      else bindR (exploreOrderState fuel E s first_node_id cur_tid) (\<lambda>(g, ds). Ok (g, ds, k)))"

section \<open>The queue of states\<close>

definition initial_state :: "RFGraph \<Rightarrow> detectionState" where
  "initial_state g = \<lparr>splitting_points = [], pause_ats = replicate (length (roots g)) (-1),
     can_walk = [], pairs = [], hip = [], visit_last = replicate (length (roots g)) 0,
     visit_loops = [], lockset = [], rlockset = [], doublelock = [], twolock = [],
     triplelocks = [], visited = [], start_node_id = 0, start_tid = 0\<rparr>"

fun explore_queue :: "nat \<Rightarrow> env \<Rightarrow> nat \<Rightarrow> RFGraph \<Rightarrow> detectionState list \<Rightarrow>
    (RFGraph \<times> detectionState list) res" where
  "explore_queue 0 E k g results = OutOfFuel"
| "explore_queue (Suc fuel) E k g results =
     (case states g of [] \<Rightarrow> Ok (g, results)
      | ds # queue \<Rightarrow>
          bindR (exploreState fuel E k (g\<lparr>states := queue\<rparr>, ds) (start_node_id ds) (start_tid ds))
            (\<lambda>(g', ds', k'). explore_queue fuel E k' g' (results @ [ds'])))"

section \<open>Reports\<close>

definition first_pos :: "instruction option \<Rightarrow> int res" where
  "first_pos i = bindR (deref i) (\<lambda>inst. Ok (inst_pos inst))"

text \<open>The position of a select: that of its last case that occurs in \<open>pairs\<close>, or of its first case.\<close>

definition case_pos :: "node \<Rightarrow> int res" where
  "case_pos c = (case case_state c of None \<Rightarrow> first_pos (default_inst c) | Some st \<Rightarrow> Ok (sel_pos st))"

definition select_pos :: "RFGraph \<Rightarrow> node \<Rightarrow> detectionState \<Rightarrow> int res" where
  "select_pos g n s =
     bindR (loopR (\<lambda>cp pos.
              if pairs s = [] then Ok pos
              else bindR (deref cp) (\<lambda>ci. bindR (node_at g ci) (\<lambda>c.
                if list_ex (\<lambda>(k, v). node_id c = v \<or> node_id c = k) (pairs s)
                then case_pos c else Ok pos))) (sel_cases n) NoPos) (\<lambda>pos.
       if pos \<noteq> NoPos then Ok pos
       else bindR (slice_get (sel_cases n) 0) (\<lambda>cp. bindR (deref cp) (\<lambda>ci.
            bindR (node_at g ci) (\<lambda>c. bindR (deref (case_state c)) (\<lambda>st. Ok (sel_pos st))))))"

definition loc_pos :: "RFGraph \<Rightarrow> node \<Rightarrow> detectionState \<Rightarrow> int res" where
  "loc_pos g n s =
     (case typId n of
        NChannel \<Rightarrow> if isSender n then first_pos (ch_send_inst n) else first_pos (ch_rec_inst n)
      | NLock \<Rightarrow> (case lock_inst n of None \<Rightarrow> Panic (ExplicitPanic ''X'')
          | Some i \<Rightarrow> (case inst_kind i of KCall _ \<Rightarrow> Ok (inst_pos i) | KDefer _ \<Rightarrow> Ok (inst_pos i)
              | _ \<Rightarrow> Panic (ExplicitPanic ''X'')))
      | NRLock \<Rightarrow> (case lock_inst n of None \<Rightarrow> Panic (ExplicitPanic ''X'')
          | Some i \<Rightarrow> (case inst_kind i of KCall _ \<Rightarrow> Ok (inst_pos i) | KDefer _ \<Rightarrow> Ok (inst_pos i)
              | _ \<Rightarrow> Panic (ExplicitPanic ''X'')))
      | NSelect \<Rightarrow> select_pos g n s
      | NCase \<Rightarrow> case_pos n
      | NCaseDone \<Rightarrow> first_pos (done_inst n)
      | NCtxDone \<Rightarrow> first_pos (done_inst n)
      | NWGWait \<Rightarrow> first_pos (wait_inst n)
      | NCONDWait \<Rightarrow> first_pos (wait_inst n)
      | NWGDone \<Rightarrow> first_pos (wg_done_inst n)
      | NReturn \<Rightarrow> first_pos (ret_inst n)
      | NUnlock \<Rightarrow> first_pos (unlock_inst n)
      | NRUnlock \<Rightarrow> first_pos (unlock_inst n)
      | NClose \<Rightarrow> first_pos (ch_close_inst n)
      | _ \<Rightarrow> Ok NoPos)"

definition getLocAndStmt ::
  "source \<Rightarrow> RFGraph \<Rightarrow> node \<Rightarrow> detectionState \<Rightarrow> (string \<times> string) res" where
  "getLocAndStmt src g n s = bindR (loc_pos g n s) (\<lambda>pos. Ok (src pos))"

definition locate_pause ::
  "source \<Rightarrow> RFGraph \<Rightarrow> detectionState \<Rightarrow> int \<Rightarrow> (int, string) gomap \<Rightarrow> (int, string) gomap res" where
  "locate_pause src g s i m =
     (if i = -1 \<or> i = -2 \<or> i = -3 then Ok m
      else bindR (node_at g i) (\<lambda>n. bindR (getLocAndStmt src g n s) (\<lambda>(loc, _).
        Ok (mput i loc m))))"

definition filter_round ::
  "source \<Rightarrow> RFGraph \<Rightarrow> detectionState \<Rightarrow> BlockError list \<Rightarrow> BlockError list res" where
  "filter_round src g s errs =
     (if noPaused s \<and> visit_loops s = [] then Ok errs
      else if hasMeaningfulPaused s then
        bindR (loopR (locate_pause src g s) (pause_ats s) []) (\<lambda>m.
          Ok (errs @ [\<lparr>tid2loc = m, be_state = s\<rparr>]))
      else Ok errs)"

definition DFSDetectBlockingBugs :: "nat \<Rightarrow> env \<Rightarrow> source \<Rightarrow> RFGraph \<Rightarrow> RFGraph res" where
  "DFSDetectBlockingBugs fuel E src g =
     bindR (slice_get (roots g) 0) (\<lambda>m. bindR (node_at g m) (\<lambda>main.
     bindR (updateHIP main (initial_state g)) (\<lambda>ds.
     bindR (explore_queue fuel E 0 (g\<lparr>states := states g @ [ds]\<rparr>) []) (\<lambda>(g', results).
     let g' = g'\<lparr>states := results\<rparr> in
     bindR (loopR (filter_round src g') results (berrs g')) (\<lambda>errs. Ok (g'\<lparr>berrs := errs\<rparr>))))))"

text \<open>
  The search for the node at which a loop is paused: a worklist of nodes without a visited set,
  hence fuel.
\<close>

fun findWhereLoopPausedAt ::
  "nat \<Rightarrow> RFGraph \<Rightarrow> int \<Rightarrow> detectionState \<Rightarrow> int option list \<Rightarrow> int option res" where
  "findWhereLoopPausedAt 0 g tid ds stack = OutOfFuel"
| "findWhereLoopPausedAt (Suc fuel) g tid ds [] = Ok None"
| "findWhereLoopPausedAt (Suc fuel) g tid ds (p # stack) =
     bindR (deref p) (\<lambda>i. bindR (node_at g i) (\<lambda>cur_node.
       if mget0 0 (visited ds) (node_id cur_node) \<noteq> 1 then Ok (Some i)
       else bindR (loopR (\<lambda>k stack. bindR (node_at g k) (\<lambda>kid.
                if gid kid \<noteq> tid then Ok stack
                else Ok (stack @ (if typId kid = NSelect then sel_cases kid else []) @ [Some k])))
              (kids g i) stack)
         (findWhereLoopPausedAt fuel g tid ds)))"

end
