(* ===== verification/VisitClaims.thy ===== *)
theory VisitClaims
  imports Explore
begin

text \<open>
  The properties of a visit: it ends, it pairs a consumer once, it queues only states the queue does
  not cover, locks exclude each other, and the places where the code departs from what its comments
  say. The witnesses run on \<open>demo_graph\<close>, two goroutines that meet on an unbuffered channel.
\<close>

section \<open>A concrete graph\<close>

definition demo_value :: ssa_value where
  "demo_value = \<lparr>val_id = 1, val_global = False, val_type = ''chan int'', val_str = ''ch'', val_name = ''t0''\<rparr>"

definition demo_pta :: pta_result where
  "demo_pta = \<lparr>PointsTo = (\<lambda>v c. [7]), GetGlobalVarID = (\<lambda>v. [7]), GetPTSByObjID = (\<lambda>i. [i])\<rparr>"

definition demo_nodes :: "node list" where
  "demo_nodes =
     [zero_node\<lparr>node_id := 0, typId := NGoroutine, gid := 0\<rparr>,
      zero_node\<lparr>node_id := 1, typId := NChannel, gid := 0, ch_ptr := Some demo_value,
        isSender := True\<rparr>,
      zero_node\<lparr>node_id := 2, typId := NGoroutine, gid := 1\<rparr>,
      zero_node\<lparr>node_id := 3, typId := NChannel, gid := 1, ch_ptr := Some demo_value\<rparr>]"

definition graph_of :: "node list \<Rightarrow> (int option \<times> int list) list \<Rightarrow> (int \<times> ProducerConsumer) list \<Rightarrow>
    int list \<Rightarrow> RFGraph" where
  "graph_of ns adj res rs = (InitializeRFG demo_pta)\<lparr>id2node := map (\<lambda>n. (node_id n, n)) ns,
     adjList := adj, resources := res, roots := rs\<rparr>"

definition demo_graph :: RFGraph where
  "demo_graph = graph_of demo_nodes [(Some 0, [1]), (Some 2, [3])]
     [(7, \<lparr>producers = [1], consumers = [3]\<rparr>)] [0, 2]"

definition start_state :: "nat \<Rightarrow> detectionState" where
  "start_state threads = \<lparr>splitting_points = [], pause_ats = replicate threads (-1), can_walk = [],
     pairs = [], hip = [], visit_last = replicate threads 0, visit_loops = [], lockset = [],
     rlockset = [], doublelock = [], twolock = [], triplelocks = [], visited = [],
     start_node_id = 0, start_tid = 0\<rparr>"

definition demo_state :: detectionState where
  "demo_state = (start_state 2)\<lparr>hip := [0, 1]\<rparr>"

lemmas demo_defs = demo_value_def demo_pta_def demo_nodes_def graph_of_def demo_graph_def
  start_state_def demo_state_def zero_node_def zero_cg_node_def InitializeRFG_def
  InitializeRFGPlus_def default_env_def

section \<open>A visit ends\<close>

lemma unvisited_le_nodes: "unvisited g ds \<le> length (id2node g)"
proof -
  have "unvisited g ds \<le> card (dom (map_of (id2node g)))"
    unfolding unvisited_def by (rule card_mono) (auto simp: finite_dom_map_of)
  also have "\<dots> \<le> length (map fst (id2node g))"
    unfolding dom_map_of_conv_image_fst by (metis card_length set_map)
  finally show ?thesis by simp
qed

lemma visit_bound_fuelled:
  "wf_selects g \<Longrightarrow> visit_bound g \<le> fuel \<Longrightarrow> fuelled (visit fuel E i skip (g, ds))"
  using unvisited_le_nodes [of g "mark i ds"]
  by (intro visit_fuelled) (auto simp: visit_bound_def)

definition wf_selects_exec :: "RFGraph \<Rightarrow> bool" where
  "wf_selects_exec g \<longleftrightarrow> list_all (\<lambda>(i, n). node_id n = i \<and>
     list_all (\<lambda>cp. case cp of None \<Rightarrow> True | Some c \<Rightarrow> (case mget (id2node g) c of
        None \<Rightarrow> True | Some cn \<Rightarrow> typId cn \<noteq> NSelect)) (sel_cases n)) (id2node g)"

lemma wf_selects_exec_sound: "wf_selects_exec g \<Longrightarrow> wf_selects g"
  unfolding wf_selects_def ids_ok_def
proof (intro conjI allI impI)
  fix i n
  assume E: "wf_selects_exec g" and "mget (id2node g) i = Some n"
  then show "node_id n = i" by (auto simp: wf_selects_exec_def list_all_iff dest: map_of_SomeD)
next
  fix i n c cn
  assume E: "wf_selects_exec g" and n: "mget (id2node g) i = Some n"
    and c: "Some c \<in> set (sel_cases n)" "mget (id2node g) c = Some cn"
  from map_of_SomeD [OF n] E c show "typId cn \<noteq> NSelect"
    by (force simp: wf_selects_exec_def list_all_iff)
qed

text \<open>
  C1: The traversal of a thread ends: in a graph whose nodes are registered under
  their ids and whose select cases are no selects, \<open>visit\<close> has a value within a nesting depth of
  twice the number of nodes, whatever the state and however the runtime orders map ranges (cycles of
  the graph are cut by the \<open>visited\<close> map, and a case is visited once more from its select).
\<close>

theorem visit_terminates:
  assumes "wf_selects g" and "visit_bound g \<le> fuel"
  shows "visit fuel E i skip (g, ds) \<noteq> OutOfFuel"
  using visit_bound_fuelled [OF assms] by (simp add: fuelled_def)

theorem visit_terminates_witness:
  "visit (visit_bound demo_graph) default_env 1 False (demo_graph, demo_state) \<noteq> OutOfFuel"
proof (rule visit_terminates [OF wf_selects_exec_sound order_refl])
  show "wf_selects_exec demo_graph" by code_simp
qed

section \<open>Pairs and visited nodes\<close>


definition demo_paired :: detectionState where
  "demo_paired = demo_state\<lparr>pairs := [(3, 1)], visited := [(0, 1)]\<rparr>"

definition ok_val :: "'a res \<Rightarrow> 'a" where
  "ok_val r = (case r of Ok x \<Rightarrow> x | _ \<Rightarrow> undefined)"

lemma ok_val_Ok [simp]: "ok_val (Ok x) = x"
  by (simp add: ok_val_def)


section \<open>New states\<close>

lemma grows_states:
  assumes "grows n g g'"
  shows "\<exists>new. states g' = states g @ new \<and> (\<forall>k < length new.
    length (pause_ats (new ! k)) = n \<and> \<not> hasRepeatState (splitting_points (new ! k)) \<and>
    (\<forall>s \<in> set (states g @ take k new).
       \<not> mset (splitting_points (new ! k)) \<subseteq># mset (splitting_points s)))"
  using assms
proof induction
  case (grows_push g g' d)
  then obtain new where N: "states g' = states g @ new" and F: "\<forall>k < length new.
    length (pause_ats (new ! k)) = n \<and> \<not> hasRepeatState (splitting_points (new ! k)) \<and>
    (\<forall>s \<in> set (states g @ take k new).
       \<not> mset (splitting_points (new ! k)) \<subseteq># mset (splitting_points s))" by auto
  from N have "states (push_state g' d) = states g @ (new @ [d])" by (simp add: push_state_def)
  moreover have "length (pause_ats ((new @ [d]) ! k)) = n \<and>
      \<not> hasRepeatState (splitting_points ((new @ [d]) ! k)) \<and>
      (\<forall>s \<in> set (states g @ take k (new @ [d])).
       \<not> mset (splitting_points ((new @ [d]) ! k)) \<subseteq># mset (splitting_points s))"
    if "k < length (new @ [d])" for k
  proof (cases "k < length new")
    case True
    with F show ?thesis by (simp add: nth_append)
  next
    case False
    with that have "k = length new" by simp
    with grows_push.hyps N show ?thesis by (simp add: fresh_split_def sized_def)
  qed
  ultimately show ?case by blast
qed auto

text \<open>
  C7: Every state a visit appends to the queue of states to explore is new when it
  is appended: the multiset of its splitting points is not contained in that of a state already in
  the queue (those queued earlier by the same visit included), its splitting points do not end in a
  repeated pair, and it keeps one pause entry per goroutine.
\<close>

theorem visit_queues_fresh:
  assumes "visit fuel E i skip (g, ds) = Ok (g', ds', go_on)"
    and "length (visit_last ds) = length (pause_ats ds)"
  shows "\<exists>new. states g' = states g @ new \<and> (\<forall>k < length new.
    length (pause_ats (new ! k)) = length (pause_ats ds) \<and>
    \<not> hasRepeatState (splitting_points (new ! k)) \<and>
    (\<forall>s \<in> set (states g @ take k new).
       \<not> mset (splitting_points (new ! k)) \<subseteq># mset (splitting_points s)))"
proof -
  have "step_rel (g, ds) (g', ds')" using visit_okD [OF visit_step_rel assms(1)] .
  then have "grows (length (pause_ats ds)) g g'"
    using assms(2) by (simp add: step_rel_def sized_def)
  then show ?thesis by (rule grows_states)
qed

text \<open>Two receivers in two further goroutines: the second match is a state of its own.\<close>

definition demo_graph3 :: RFGraph where
  "demo_graph3 = graph_of (demo_nodes @
      [zero_node\<lparr>node_id := 4, typId := NGoroutine, gid := 2\<rparr>,
       zero_node\<lparr>node_id := 5, typId := NChannel, gid := 2, ch_ptr := Some demo_value\<rparr>])
     [(Some 0, [1]), (Some 2, [3]), (Some 4, [5])]
     [(7, \<lparr>producers = [1], consumers = [3, 5]\<rparr>)] [0, 2, 4]"

definition demo_state3 :: detectionState where
  "demo_state3 = (start_state 3)\<lparr>hip := [0, 1, 2]\<rparr>"

theorem visit_queues_fresh_witness:
  "\<exists>g' ds' go_on s. visit 10 default_env 1 False (demo_graph3, demo_state3) = Ok (g', ds', go_on) \<and>
     states g' = [s] \<and> length (pause_ats s) = 3 \<and> \<not> hasRepeatState (splitting_points s)"
proof -
  let ?v = "visit 10 default_env 1 False (demo_graph3, demo_state3)"
  have "case ?v of Ok (g', _) \<Rightarrow> length (states g') = 1 | _ \<Rightarrow> False"
    by code_simp
  then obtain g' ds' go_on where v: "?v = Ok (g', ds', go_on)" and l: "length (states g') = 1"
    by (auto split: res.splits)
  have "states demo_graph3 = []" and "length (pause_ats demo_state3) = 3"
    and "length (visit_last demo_state3) = length (pause_ats demo_state3)" by code_simp+
  with visit_queues_fresh [OF v] l v show ?thesis
    by (fastforce simp: length_Suc_conv)
qed

section \<open>Locks\<close>

lemma fold_free:
  "cannotLock ds pts = None \<longleftrightarrow> (\<forall>obj \<in> set pts. mget (lockset ds) obj = None)"
  by (auto simp: cannotLock_def find_None_iff mhas_def find_Some_iff split: option.splits)

lemma fold_rfree:
  "cannotRLock ds pts = None \<longleftrightarrow> (\<forall>obj \<in> set pts. mget (rlockset ds) obj = None)"
  by (auto simp: cannotRLock_def find_None_iff mhas_def find_Some_iff split: option.splits)

lemma pauseHere_locks:
  "pauseHere t i (g, ds, tr) = Ok (g', ds', tr') \<Longrightarrow>
     lockset ds' = lockset ds \<and> rlockset ds' = rlockset ds"
  by (auto simp: pauseHere_def)

lemma lock_new_pair_locks:
  "lock_new_pair E cur pts h (g, ds, tr) = Ok (g', ds', tr') \<Longrightarrow>
     lockset ds' = lockset ds \<and> rlockset ds' = rlockset ds"
  by (auto simp: lock_new_pair_def Let_def dest!: pauseHere_locks split: if_splits)

lemma lock_refused_locks:
  "lock_refused E cur pts h (g, ds, tr) = Ok (g', ds', tr') \<Longrightarrow>
     lockset ds' = lockset ds \<and> rlockset ds' = rlockset ds"
  by (auto simp: lock_refused_def dest!: pauseHere_locks lock_new_pair_locks split: if_splits)

lemma lock_acquired_locks:
  "lock_acquired cur pts (g, ds, tr) = Ok (g', ds', tr') \<Longrightarrow>
     lockset ds' = lockset ds \<and> rlockset ds' = rlockset ds"
  by (auto simp: lock_acquired_def Let_def dest!: pauseHere_locks split: if_splits)

lemma visit_NLock_locks:
  assumes "visit_NLock E cur (g, ds, tr) = Ok (g', ds', tr')"
    and "node_pts g (lock_ptr cur) (cgnode cur) = Ok pts"
  shows "rlockset ds' = rlockset ds \<and>
    (if cannotLock ds pts = None \<and> cannotRLock ds pts = None
     then lockset ds' = put_all pts (node_id cur) (lockset ds)
     else lockset ds' = lockset ds)"
  using assms
  by (auto simp: visit_NLock_def dest!: lock_refused_locks lock_acquired_locks
      split: option.splits)

text \<open>
  C9: Visiting a Lock respects the locks in place: if some object of its lock is held,
  exclusively or by a reader, nothing changes hands; otherwise exactly the objects of the lock are
  taken, by this node. So an entry of the lock set is never overwritten by another goroutine's lock.
\<close>

theorem lock_exclusive:
  assumes "typId cur = NLock" and "visitNode E vc cur (g, ds) = Ok (g', ds', go_on)"
    and "node_pts g (lock_ptr cur) (cgnode cur) = Ok pts"
  shows "mget (lockset ds') obj =
    (if obj \<in> set pts \<and> (\<forall>x \<in> set pts. mget (lockset ds) x = None \<and> mget (rlockset ds) x = None)
     then Some (node_id cur) else mget (lockset ds) obj)"
proof -
  from assms(1,2) have "visit_NLock E cur (g, ds, True) = Ok (g', ds', go_on)"
    by (simp add: visitNode_def)
  from visit_NLock_locks [OF this assms(3)] show ?thesis
    by (auto simp: fold_free fold_rfree mget_put_all split: if_splits)
qed

definition lock_graph :: RFGraph where
  "lock_graph = graph_of
     [zero_node\<lparr>node_id := 0, typId := NGoroutine, gid := 0\<rparr>,
      zero_node\<lparr>node_id := 1, typId := NLock, gid := 0, lock_ptr := Some demo_value\<rparr>,
      zero_node\<lparr>node_id := 2, typId := NUnlock, gid := 0, lock_ptr := Some demo_value\<rparr>,
      zero_node\<lparr>node_id := 3, typId := NGoroutine, gid := 1\<rparr>,
      zero_node\<lparr>node_id := 4, typId := NLock, gid := 1, lock_ptr := Some demo_value\<rparr>,
      zero_node\<lparr>node_id := 5, typId := NUnlock, gid := 1, lock_ptr := Some demo_value\<rparr>]
     [(Some 0, [1]), (Some 1, [2]), (Some 3, [4]), (Some 4, [5])]
     [(7, \<lparr>producers = [2, 5], consumers = [1, 4]\<rparr>)] [0, 3]"

definition lock_held :: detectionState where
  "lock_held = demo_state\<lparr>lockset := [(7, 1)]\<rparr>"

definition the_node :: "RFGraph \<Rightarrow> int \<Rightarrow> node" where
  "the_node g i = ok_val (node_at g i)"

theorem lock_exclusive_witness:
  "\<exists>g' ds' go_on.
     visitNode default_env (visit 5 default_env) (the_node lock_graph 4) (lock_graph, lock_held)
       = Ok (g', ds', go_on) \<and> mget (lockset ds') 7 = Some 1"
proof -
  let ?n = "the_node lock_graph 4"
  let ?v = "visitNode default_env (visit 5 default_env) ?n (lock_graph, lock_held)"
  have "is_ok ?v" by code_simp
  then obtain g' ds' go_on where v: "?v = Ok (g', ds', go_on)"
    by (metis is_ok_iff prod_cases3)
  have "typId ?n = NLock" and "node_pts lock_graph (lock_ptr ?n) (cgnode ?n) = Ok [7]"
    by code_simp+
  from lock_exclusive [OF this(1) v this(2), of 7] v show ?thesis
    by (simp add: lock_held_def)
qed

text \<open>
  C17: A read lock is never given back: no visit removes an object from
  \<open>rlockset\<close>, so once an object has been read-locked every later visit of a Lock on it, by any
  goroutine and after any unlock, leaves the lock set as it is.
\<close>

theorem rlock_never_released:
  assumes "mhas (rlockset ds) obj" and "visit fuel E i skip (g, ds) = Ok (g1, ds1, b1)"
    and "typId cur = NLock" and "node_pts g1 (lock_ptr cur) (cgnode cur) = Ok pts"
    and "obj \<in> set pts" and "visitNode E vc cur (g1, ds1) = Ok (g2, ds2, b2)"
  shows "mhas (rlockset ds1) obj \<and> lockset ds2 = lockset ds1"
proof -
  from visit_okD [OF visit_step_rel assms(2)] assms(1) have r: "mhas (rlockset ds1) obj"
    by (auto simp: step_rel_def evolves_def mhas_def dom_def subset_iff)
  from assms(3,6) have "visit_NLock E cur (g1, ds1, True) = Ok (g2, ds2, b2)"
    by (simp add: visitNode_def)
  from visit_NLock_locks [OF this assms(4)] r assms(5) show ?thesis
    by (auto simp: fold_rfree mhas_def split: if_splits)
qed

definition rlock_graph :: RFGraph where
  "rlock_graph = graph_of
     [zero_node\<lparr>node_id := 0, typId := NGoroutine, gid := 0\<rparr>,
      zero_node\<lparr>node_id := 1, typId := NRLock, gid := 0, lock_ptr := Some demo_value\<rparr>,
      zero_node\<lparr>node_id := 2, typId := NRUnlock, gid := 0, lock_ptr := Some demo_value\<rparr>,
      zero_node\<lparr>node_id := 3, typId := NGoroutine, gid := 1\<rparr>,
      zero_node\<lparr>node_id := 4, typId := NLock, gid := 1, lock_ptr := Some demo_value\<rparr>]
     [(Some 0, [1]), (Some 1, [2]), (Some 3, [4])]
     [(7, \<lparr>producers = [2], consumers = [4]\<rparr>)] [0, 3]"

definition rlock_held :: detectionState where
  "rlock_held = demo_state\<lparr>rlockset := [(7, 1)]\<rparr>"

theorem rlock_never_released_witness:
  "\<exists>g1 ds1 b1 g2 ds2 b2.
     visit 5 default_env 2 False (rlock_graph, rlock_held) = Ok (g1, ds1, b1) \<and>
     visitNode default_env (visit 5 default_env) (the_node rlock_graph 4) (g1, ds1)
       = Ok (g2, ds2, b2) \<and> mhas (rlockset ds1) 7 \<and> lockset ds2 = lockset ds1"
proof -
  let ?n = "the_node rlock_graph 4"
  let ?v = "visit 5 default_env 2 False (rlock_graph, rlock_held)"
  have c: "case ?v of Ok (g1, ds1, b1) \<Rightarrow>
      node_pts g1 (lock_ptr ?n) (cgnode ?n) = Ok [7] \<and>
      is_ok (visitNode default_env (visit 5 default_env) ?n (g1, ds1)) | _ \<Rightarrow> False"
    by code_simp
  then obtain g1 ds1 b1 where v: "?v = Ok (g1, ds1, b1)" by (auto split: res.splits)
  with c have P: "node_pts g1 (lock_ptr ?n) (cgnode ?n) = Ok [7]"
    and "is_ok (visitNode default_env (visit 5 default_env) ?n (g1, ds1))" by auto
  then obtain g2 ds2 b2 where
    w: "visitNode default_env (visit 5 default_env) ?n (g1, ds1) = Ok (g2, ds2, b2)"
    by (metis is_ok_iff prod_cases3)
  have "mhas (rlockset rlock_held) 7" and "typId ?n = NLock" by code_simp+
  from rlock_never_released [OF this(1) v this(2) P _ w] v w show ?thesis by auto
qed

lemma unlock_consumer_locks:
  "unlock_consumer E cur c (f, g, ds) = Ok (f', g', ds') \<Longrightarrow>
     lockset ds' = lockset ds \<and> step_rel (g, ds) (g', ds')"
  by (auto simp: unlock_consumer_def intro!: step_rel_evolves dest: createNewState_step
      split: if_splits)

lemma unlock_consumers_locks:
  assumes "loopR (unlock_consumer E cur) cs s = Ok t"
  shows "lockset (snd (snd t)) = lockset (snd (snd s)) \<and> node_at (fst (snd t)) = node_at (fst (snd s))"
  using assms
proof (rule loopR_rel [where Rel = "\<lambda>s t. lockset (snd (snd t)) = lockset (snd (snd s)) \<and>
    node_at (fst (snd t)) = node_at (fst (snd s))"])
  fix x u v
  assume "unlock_consumer E cur x u = Ok v"
  then show "lockset (snd (snd v)) = lockset (snd (snd u)) \<and>
    node_at (fst (snd v)) = node_at (fst (snd u))"
    by (cases u; cases v) (metis fst_conv snd_conv unlock_consumer_locks step_rel_graph(5))
qed auto

text \<open>The lock set after an unlock of \<open>objs\<close> by the thread of \<open>cur\<close>.\<close>

definition released :: "RFGraph \<Rightarrow> node \<Rightarrow> int list \<Rightarrow> (int, int) gomap \<Rightarrow> int \<Rightarrow> int option" where
  "released g cur objs locks obj =
     (case mget locks obj of None \<Rightarrow> None
      | Some l \<Rightarrow> (case mget (id2node g) l of
          Some h \<Rightarrow> if obj \<in> set objs \<and> gid h = gid cur then None else Some l
        | None \<Rightarrow> Some l))"

lemma unlock_round_locks:
  assumes "unlock_round E cur obj (f, g, ds) = Ok (f', g', ds')"
  shows "mget (lockset ds') = released g cur [obj] (lockset ds) \<and> node_at g' = node_at g"
proof -
  from assms obtain mine where m: "holds_obj g ds (gid cur) obj = Ok mine"
    and l: "lockset ds' = lockset (release_obj cur obj mine ds) \<and> node_at g' = node_at g"
    by (fastforce simp: unlock_round_def Let_def dest: unlock_consumers_locks
        split: option.splits if_splits)
  from m have "mine \<longleftrightarrow> (\<exists>l h. mget (lockset ds) obj = Some l \<and> mget (id2node g) l = Some h \<and>
      gid h = gid cur)"
    and "\<forall>l. mget (lockset ds) obj = Some l \<longrightarrow> mget (id2node g) l \<noteq> None"
    by (auto simp: holds_obj_def node_at_Ok split: option.splits)
  with l show ?thesis
    by (auto simp: fun_eq_iff released_def release_obj_def Let_def split: option.splits)
qed

lemma unlock_loop_locks:
  assumes "loopR (unlock_round E cur) objs (f, g, ds) = Ok (f', g', ds')"
  shows "mget (lockset ds') = released g cur objs (lockset ds)"
  using assms
proof (induction objs arbitrary: f g ds)
  case Nil
  then show ?case by (auto simp: released_def fun_eq_iff split: option.splits)
next
  case (Cons obj objs)
  from Cons.prems obtain f1 g1 d1 where r: "unlock_round E cur obj (f, g, ds) = Ok (f1, g1, d1)"
    and l: "loopR (unlock_round E cur) objs (f1, g1, d1) = Ok (f', g', ds')" by auto
  from unlock_round_locks [OF r] have
    1: "mget (lockset d1) = released g cur [obj] (lockset ds)" and n: "node_at g1 = node_at g" by auto
  have "mget (id2node g1) k = mget (id2node g) k" for k
    using n by (cases "mget (id2node g) k"; cases "mget (id2node g1) k")
      (auto simp: node_at_def fun_eq_iff dest!: spec [where x = k])
  with 1 Cons.IH [OF l] show ?case
    by (auto simp: fun_eq_iff released_def split: option.splits if_splits)
qed

text \<open>A loop that counts the failures of a test counts to the length only if all tests fail.\<close>

definition count_fails :: "('a \<Rightarrow> bool res) \<Rightarrow> 'a \<Rightarrow> nat \<Rightarrow> nat res" where
  "count_fails P x n = bindR (P x) (\<lambda>b. Ok (if b then n else Suc n))"

lemma count_le: "loopR (count_fails P) xs k = Ok n \<Longrightarrow> n \<le> k + length xs"
  by (induction xs arbitrary: k) (fastforce simp: count_fails_def split: if_splits)+

lemma count_all:
  "loopR (count_fails P) xs k = Ok (k + length xs) \<Longrightarrow> x \<in> set xs \<Longrightarrow> P x = Ok False"
proof (induction xs arbitrary: k)
  case (Cons y ys)
  from Cons.prems(1) obtain k' where c: "count_fails P y k = Ok k'"
    and l: "loopR (count_fails P) ys k' = Ok (k + Suc (length ys))" by auto
  from c obtain b where b: "P y = Ok b" and k': "k' = (if b then k else Suc k)"
    by (auto simp: count_fails_def)
  from count_le [OF l] have "\<not> b" using k' by (auto split: if_splits)
  with l k' have "loopR (count_fails P) ys (Suc k) = Ok (Suc k + length ys)" by simp
  with Cons.IH [OF this] Cons.prems(2) b \<open>\<not> b\<close> show ?case by auto
qed simp

text \<open>
  C10: Visiting an Unlock or RUnlock releases exactly the objects of its lock whose
  lock-set entry was put there by the same goroutine, and leaves the locks of the other goroutines
  alone.
\<close>

theorem unlock_only_own:
  assumes "typId cur = NUnlock \<or> typId cur = NRUnlock"
    and "visitNode E vc cur (g, ds) = Ok (g', ds', go_on)"
    and "node_pts g (lock_ptr cur) (cgnode cur) = Ok pts"
  shows "mget (lockset ds') = released g cur pts (lockset ds)"
proof -
  let ?count = "count_fails (holds_obj g ds (gid cur))"
  from assms(1,2) have "visit_NUnlock E cur (g, ds, True) = Ok (g', ds', go_on)"
    by (auto simp: visitNode_def)
  with assms(3) obtain n where n: "loopR ?count pts 0 = Ok n"
    and rest: "(n = length pts \<and> from_defer cur \<and> ds' = ds) \<or>
      (\<exists>f g1 d1. loopR (unlock_round E cur) pts (False, g, ds) = Ok (f, g1, d1) \<and>
         lockset ds' = lockset d1)"
    by (auto simp: visit_NUnlock_def count_fails_def [abs_def] dest!: pauseHere_locks split: if_splits)
  from rest show ?thesis
  proof (elim disjE exE conjE)
    assume e: "n = length pts" "ds' = ds"
    with count_all [of _ pts 0] n have "obj \<in> set pts \<Longrightarrow> holds_obj g ds (gid cur) obj = Ok False" for obj
      by auto
    with e(2) show ?thesis
      by (fastforce simp: fun_eq_iff released_def holds_obj_def node_at_def split: option.splits)
  next
    fix f g1 d1
    assume "loopR (unlock_round E cur) pts (False, g, ds) = Ok (f, g1, d1)"
      "lockset ds' = lockset d1"
    with unlock_loop_locks show ?thesis by metis
  qed
qed

theorem unlock_only_own_witness:
  "\<exists>g' ds' go_on.
     visitNode default_env (visit 5 default_env) (the_node lock_graph 2) (lock_graph, lock_held)
       = Ok (g', ds', go_on) \<and> mget (lockset ds') 7 = None"
proof -
  let ?n = "the_node lock_graph 2"
  let ?v = "visitNode default_env (visit 5 default_env) ?n (lock_graph, lock_held)"
  have "is_ok ?v" by code_simp
  then obtain g' ds' go_on where v: "?v = Ok (g', ds', go_on)"
    by (metis is_ok_iff prod_cases3)
  have "typId ?n = NUnlock" and p: "node_pts lock_graph (lock_ptr ?n) (cgnode ?n) = Ok [7]"
    and "released lock_graph ?n [7] (lockset lock_held) 7 = None"
    by code_simp+
  with unlock_only_own [OF disjI1 v p] v show ?thesis by auto
qed

section \<open>Departures from the comments\<close>

lemma match_objs_new_state:
  assumes "EXPLORE_ALL_STATES E"
    and "match_objs E cur p ds pts (True, None, g) = Ok (f, dc, g')"
  shows "f \<and> dc = None"
proof -
  have round: "fst t \<and> fst (snd t) = None"
    if "match_round E cur p ds c s = Ok t" "fst s \<and> fst (snd s) = None" for s t c
    using that assms(1) by (cases s) (auto simp: match_round_def split: if_splits)
  have "fst (f, dc, g') \<and> fst (snd (f, dc, g')) = None"
    using assms(2) unfolding match_objs_def
  proof (rule loopR_inv [where I = "\<lambda>s. fst s \<and> fst (snd s) = None"])
    fix obj u v
    assume I: "fst u \<and> fst (snd u) = None"
      and "(case mget (resources (snd (snd u))) obj of None \<Rightarrow> Ok u
       | Some pcs \<Rightarrow> bindR (pickConsumers E (snd (snd u)) (consumers pcs) (gid cur) ds)
           (\<lambda>possibles. loopR (match_round E cur p ds) possibles u)) = Ok v"
    then have "v = u \<or> (\<exists>cs. loopR (match_round E cur p ds) cs u = Ok v)"
      by (auto split: option.splits)
    with I show "fst v \<and> fst (snd v) = None"
      by (auto elim!: loopR_inv [where I = "\<lambda>s. fst s \<and> fst (snd s) = None"] dest: round)
  qed simp
  then show ?thesis by simp
qed

text \<open>
  C15: When a select has already found a ready case, its next sender case
  never completes: \<open>matchChannel\<close> is then asked for a new state, no consumer is remembered for the
  current one, and \<open>markConsumerAfterMatching\<close> dereferences the nil consumer.
\<close>

theorem select_second_sender_panics:
  assumes "EXPLORE_ALL_STATES E" and "node_at g ci = Ok c" and "case_state c \<noteq> None"
    and "isSender c" and "fp \<or> fc"
  shows "\<not> is_ok (select_round E vc cur (Some ci) (fp, fc, fd, g, ds, tr))"
proof
  assume "is_ok (select_round E vc cur (Some ci) (fp, fc, fd, g, ds, tr))"
  with assms(2-5) obtain pts t where "matchChannel E cur pts True (node_id c) (g, ds, tr) = Ok t"
    by (auto simp: select_round_def is_ok_iff)
  then obtain f dc g' d' where
    "match_objs E cur (node_id c) ds pts (True, None, g) = Ok (f, dc, g')"
    and "(if f then markConsumerAfterMatching dc (node_id c) g' ds else Ok ds) = Ok d'"
    by (auto simp: matchChannel_def)
  with match_objs_new_state [OF assms(1)] show False
    by (fastforce simp: markConsumerAfterMatching_def)
qed

definition select_graph :: RFGraph where
  "select_graph = graph_of
     [zero_node\<lparr>node_id := 0, typId := NGoroutine, gid := 0\<rparr>,
      zero_node\<lparr>node_id := 1, typId := NSelect, gid := 0, sel_cases := [Some 2, Some 3]\<rparr>,
      zero_node\<lparr>node_id := 2, typId := NCase, gid := 0, ch_ptr := Some demo_value,
        case_state := Some \<lparr>sel_pos = 5, sel_chan = demo_value\<lparr>val_type := ''<-chan time.Time''\<rparr>, sel_send = False\<rparr>, case_sel := Some 1\<rparr>,
      zero_node\<lparr>node_id := 3, typId := NCase, gid := 0, ch_ptr := Some demo_value,
        case_state := Some \<lparr>sel_pos = 6, sel_chan = demo_value, sel_send = True\<rparr>, case_sel := Some 1,
        isSender := True\<rparr>]
     [(Some 0, [1])] [] [0]"

definition select_state0 :: detectionState where
  "select_state0 = (start_state 1)\<lparr>hip := [0]\<rparr>"

definition panics_nil :: "'a res \<Rightarrow> bool" where
  "panics_nil r \<longleftrightarrow> (case r of Panic p \<Rightarrow> p = NilDereference | _ \<Rightarrow> False)"

theorem select_second_sender_panics_witness:
  "panics_nil (visit 5 default_env 1 False (select_graph, select_state0)) \<and>
   \<not> is_ok (select_round default_env (visit 5 default_env) (the_node select_graph 1) (Some 3)
     (False, True, False, select_graph, select_state0, True))"
proof
  show "panics_nil (visit 5 default_env 1 False (select_graph, select_state0))" by code_simp
  show "\<not> is_ok (select_round default_env (visit 5 default_env) (the_node select_graph 1) (Some 3)
     (False, True, False, select_graph, select_state0, True))"
  proof (rule select_second_sender_panics)
    show "EXPLORE_ALL_STATES default_env" by code_simp
    show "node_at select_graph 3 = Ok (the_node select_graph 3)" by code_simp
    show "case_state (the_node select_graph 3) \<noteq> None" by code_simp
    show "isSender (the_node select_graph 3)" by code_simp
  qed simp
qed

text \<open>
  C18: Without \<open>DEBUG\<close>, \<open>matchWGDone\<close> always reports a match: the test
  that every goroutine of the wait group has finished sits in the same branch as the debug output,
  so an unfinished goroutine does not hold back \<open>Wait\<close>, against the comment of the function.
\<close>

theorem matchWGDone_ignores_unfinished:
  assumes "\<not> DEBUG E" and "matchWGDone E cur s = Ok (matched, s')"
  shows "matched"
proof -
  have none: "findR (wg_unfinished E g ds) ps \<noteq> Ok (Some u)" for g ds ps u
  proof
    assume "findR (wg_unfinished E g ds) ps = Ok (Some u)"
    from findR_Some [OF this] obtain x where "wg_unfinished E g ds x = Ok (Some u)" by blast
    then show False using assms(1) by (auto simp: wg_unfinished_def split: if_splits)
  qed
  have "matchWGDone_objs E cur objs s = Ok (matched, s') \<Longrightarrow> matched" for objs s
  proof (induction objs arbitrary: s)
    case (Cons obj objs)
    then show ?case using none
      by (cases s) (auto split: option.splits if_splits)
  qed auto
  with assms(2) show ?thesis by (simp add: matchWGDone_def)
qed

definition wg_graph :: RFGraph where
  "wg_graph = graph_of
     [zero_node\<lparr>node_id := 0, typId := NGoroutine, gid := 0\<rparr>,
      zero_node\<lparr>node_id := 1, typId := NWGWait, gid := 0\<rparr>,
      zero_node\<lparr>node_id := 2, typId := NGoroutine, gid := 1\<rparr>,
      zero_node\<lparr>node_id := 3, typId := NWGDone, gid := 1, wg_pts := [7]\<rparr>,
      zero_node\<lparr>node_id := 4, typId := NGoroutine, gid := 2\<rparr>,
      zero_node\<lparr>node_id := 5, typId := NExit, gid := 2, wg_pts := [7], isWGDone := True\<rparr>]
     [(Some 0, [1]), (Some 2, [3]), (Some 4, [5])]
     [(7, \<lparr>producers = [3, 5], consumers = [1]\<rparr>)] [0, 2, 4]"

text \<open>Goroutine 2 has not run yet, and the Done of goroutine 1 alone lets the Wait go on.\<close>

theorem matchWGDone_ignores_unfinished_witness:
  "\<exists>matched g ds. matchWGDone default_env (the_node wg_graph 3) (wg_graph, demo_state3)
     = Ok (matched, g, ds) \<and> matched \<and> mget (pairs ds) 1 = Some 3"
proof -
  let ?v = "matchWGDone default_env (the_node wg_graph 3) (wg_graph, demo_state3)"
  have c: "case ?v of Ok (_, g, ds) \<Rightarrow> mget (pairs ds) 1 = Some 3 | _ \<Rightarrow> False"
    and "\<not> DEBUG default_env" by code_simp+
  then obtain m g ds where v: "?v = Ok (m, g, ds)" by (auto split: res.splits)
  from matchWGDone_ignores_unfinished [OF \<open>\<not> DEBUG default_env\<close> v] v c show ?thesis by auto
qed


lemma default_env_proper: "proper_env default_env"
  by (simp add: default_env_def proper_env_def is_range_order_id)


end
