(* ===== verification/ExploreProps.thy ===== *)
theory ExploreProps
  imports VisitClaims
begin

text \<open>
  The exploration as a whole: every turn stays within the evolution relation of the visits, an
  exploration ends only when nothing can be resumed, the reports are exactly the states with a
  paused goroutine, and a lone Signal keeps the exploration going for ever.
\<close>

section \<open>Turns evolve the state\<close>

definition lasts_ok :: "RFGraph \<times> detectionState \<Rightarrow> bool" where
  "lasts_ok s \<longleftrightarrow> length (visit_last (snd s)) = length (roots (fst s))"

lemma lasts_ok_step: "step_rel s t \<Longrightarrow> lasts_ok s \<Longrightarrow> lasts_ok t"
  by (cases s; cases t) (auto simp: lasts_ok_def step_rel_def evolves_def)

lemma run_visit_step: "run_visit E i skip s = Ok t \<Longrightarrow> step_rel s t"
  by (cases s; cases t) (auto simp: run_visit_def dest: visit_okD [OF visit_step_rel])

lemma evolves_visit_last [simp]:
  "length vs = length (visit_last d) \<Longrightarrow> evolves d (d\<lparr>visit_last := vs\<rparr>)"
  by (simp add: evolves_def)

lemma prepareLastVisit_evolves:
  "prepareLastVisit i t (ds, b) = Ok (ds', b') \<Longrightarrow> evolves ds ds'"
  by (auto simp: prepareLastVisit_def Let_def slice_set_Ok evolves_def split: if_splits)

lemma prepare_loop_evolves:
  assumes "loopR (\<lambda>(n_tid, nid) s. if nid > 0 then prepareLastVisit nid n_tid s else Ok s) xs (ds, b)
     = Ok (ds', b')"
  shows "evolves ds ds'"
proof -
  have "evolves (fst (ds, b)) (fst (ds', b'))"
    using assms
  proof (rule loopR_rel [where Rel = "\<lambda>s t. evolves (fst s) (fst t)"])
    fix x :: "int \<times> int" and u v
    assume "(case x of (n_tid, nid) \<Rightarrow> \<lambda>s. if nid > 0 then prepareLastVisit nid n_tid s else Ok s) u
      = Ok v"
    then show "evolves (fst u) (fst v)"
      by (cases x; cases u; cases v) (auto dest: prepareLastVisit_evolves split: if_splits)
  qed (auto intro: evolves_trans)
  then show ?thesis by simp
qed

lemma reset_last_evolves:
  "reset_last g (ds, b) = (ds', b') \<Longrightarrow> length (visit_last ds) = length (roots g) \<Longrightarrow> evolves ds ds'"
  by (auto simp: reset_last_def)

lemma evolves_reset:
  assumes "evolves ds d" and "reset_last g (d, c) = (ds', b')" and "length (visit_last ds) = length (roots g)"
  shows "evolves ds ds'"
proof -
  have "length (visit_last d) = length (roots g)" using assms(1,3) by (simp add: evolves_def)
  with assms(1,2) show ?thesis by (blast intro: reset_last_evolves evolves_trans)
qed

lemma resume_lasts_evolves:
  assumes "resume_lasts g (ds, b) = Ok (Some (ds', b'))" and "length (visit_last ds) = length (roots g)"
  shows "evolves ds ds'"
proof -
  from assms(1) obtain d c where
    "loopR (\<lambda>(n_tid, nid) s. if nid > 0 then prepareLastVisit nid n_tid s else Ok s)
       (visit_lasts ds) (ds, b) = Ok (d, c)" and r: "reset_last g (d, c) = (ds', b')"
    by (auto simp: resume_lasts_def)
  from prepare_loop_evolves [OF this(1)] r assms(2) show ?thesis by (rule evolves_reset)
qed

lemma resume_at_evolves:
  assumes "resume_at g i t (ds, b) = Ok (Some (ds', b'))" and "length (visit_last ds) = length (roots g)"
  shows "evolves ds ds'"
proof -
  from assms(1) obtain d c where "prepareLastVisit i t (ds, b) = Ok (d, c)"
    and r: "reset_last g (d, c) = (ds', b')" by (auto simp: resume_at_def)
  from prepareLastVisit_evolves [OF this(1)] r assms(2) show ?thesis by (rule evolves_reset)
qed

lemma random_resume_evolves:
  assumes "random_resume E g ds b = Ok (Some (ds', b'))" and "length (visit_last ds) = length (roots g)"
  shows "evolves ds ds'"
proof -
  have "ds' = ds \<or> resume_lasts g (ds, b) = Ok (Some (ds', b')) \<or>
      (\<exists>i t. resume_at g i t (ds, b) = Ok (Some (ds', b')))"
    using assms(1) by (auto simp: random_resume_def split: if_splits)
  then show ?thesis
    using resume_lasts_evolves resume_at_evolves assms(2) by blast
qed

lemma take_turn_evolves: "take_turn g ds t b = Ok (Some (ds', n)) \<Longrightarrow> evolves ds ds'"
  by (auto simp: take_turn_def slice_set_Ok evolves_def split: option.splits if_splits)

lemma walk_random_step: "walk_random E n b s = Ok t \<Longrightarrow> step_rel s t"
  by (auto simp: walk_random_def dest: run_visit_step split: if_splits)

lemma random_round_step:
  assumes "random_round d E t = Ok (next, k, g, ds)"
    and "lasts_ok (t_graph t, t_state t)"
  shows "step_rel (t_graph t, t_state t) (g, ds) \<and>
    (\<forall>t'. next = Some t' \<longrightarrow> t_graph t' = g \<and> t_state t' = ds)"
proof -
  from assms(1) have "(g = t_graph t \<and> ds = t_state t \<and> next = None) \<or>
     (\<exists>b1 d1 b2 r. random_resume E (t_graph t) (t_state t) b1 = Ok (Some (d1, b2)) \<and>
        (case r of None \<Rightarrow> g = t_graph t \<and> ds = d1
         | Some (d2, n) \<Rightarrow> (\<exists>tid. take_turn (t_graph t) d1 tid b2 = Ok (Some (d2, n))) \<and>
             walk_random E n b2 (t_graph t, d2) = Ok (g, ds)) \<and>
        (\<forall>t'. next = Some t' \<longrightarrow> t_graph t' = g \<and> t_state t' = ds))"
    by (fastforce simp: random_round_def split: if_splits option.splits)
  then show ?thesis
  proof (elim disjE exE conjE)
    fix b1 d1 b2 r
    assume 1: "random_resume E (t_graph t) (t_state t) b1 = Ok (Some (d1, b2))"
      and 2: "case r of None \<Rightarrow> g = t_graph t \<and> ds = d1
         | Some (d2, n) \<Rightarrow> (\<exists>tid. take_turn (t_graph t) d1 tid b2 = Ok (Some (d2, n))) \<and>
             walk_random E n b2 (t_graph t, d2) = Ok (g, ds)"
      and 3: "\<forall>t'. next = Some t' \<longrightarrow> t_graph t' = g \<and> t_state t' = ds"
    have s1: "step_rel (t_graph t, t_state t) (t_graph t, d1)"
      using random_resume_evolves [OF 1] assms(2) by (intro step_rel_evolves) (simp add: lasts_ok_def)
    have "step_rel (t_graph t, d1) (g, ds)"
    proof (cases r)
      case (Some p)
      with 2 obtain d2 n tid where "take_turn (t_graph t) d1 tid b2 = Ok (Some (d2, n))"
        and "walk_random E n b2 (t_graph t, d2) = Ok (g, ds)" by (auto split: prod.splits)
      then show ?thesis
        by (blast intro: step_rel_trans step_rel_evolves take_turn_evolves walk_random_step)
    qed (use 2 in simp)
    with s1 3 show ?thesis by (blast intro: step_rel_trans)
  qed auto
qed

lemma random_loop_step:
  "random_loop f E t = Ok (g, ds, k) \<Longrightarrow> lasts_ok (t_graph t, t_state t) \<Longrightarrow>
     step_rel (t_graph t, t_state t) (g, ds)"
proof (induction f E t arbitrary: g ds k rule: random_loop.induct)
  case (2 fuel E t)
  from 2(2) obtain nx k1 g1 d1 where r: "random_round (Suc fuel) E t = Ok (nx, k1, g1, d1)"
    and rest: "(case nx of None \<Rightarrow> Ok (g1, d1, k1) | Some t' \<Rightarrow> random_loop fuel E t') = Ok (g, ds, k)"
    by auto
  note s = random_round_step [OF r 2(3)]
  show ?case
  proof (cases nx)
    case None
    with rest s show ?thesis by simp
  next
    case (Some t')
    with s have t': "t_graph t' = g1" "t_state t' = d1" by auto
    with s 2(3) have "lasts_ok (t_graph t', t_state t')" by (metis lasts_ok_step)
    with 2(1) r rest Some have "step_rel (t_graph t', t_state t') (g, ds)" by simp
    with s t' show ?thesis by (metis step_rel_trans)
  qed
qed simp

lemma exploreRandomState_step:
  assumes "exploreRandomState f E k s i t = Ok (g, ds, k')" and "lasts_ok s"
  shows "step_rel s (g, ds)"
proof -
  from assms(1) obtain g1 d1 where
    v: "(if i \<noteq> -1 then run_visit E i True s else Ok s) = Ok (g1, d1)"
    and l: "random_loop f E \<lparr>t_graph = g1, t_state = d1, t_tid = t, t_prev = t, t_last = False,
         t_draws = k\<rparr> = Ok (g, ds, k')"
    by (auto simp: exploreRandomState_def)
  from v have "step_rel s (g1, d1)" by (auto split: if_splits dest: run_visit_step)
  with random_loop_step [OF l] lasts_ok_step [OF this assms(2)] show ?thesis
    by (auto intro: step_rel_trans)
qed

lemma order_resume_evolves:
  assumes "order_resume g ds b = Ok (Some (ds', b'))" and "length (visit_last ds) = length (roots g)"
  shows "evolves ds ds'"
proof -
  let ?body = "\<lambda>(tid, nid) (ds, last). if nid \<ge> 0 then
                     bindR (slice_set (pause_ats ds) tid nid) (\<lambda>pa.
                       Ok (ds\<lparr>can_walk := mput nid True (can_walk ds), pause_ats := pa\<rparr>, True))
                   else Ok (ds, last)"
  have "ds' = ds \<or> (\<exists>d c. loopR ?body (visit_lasts ds) (ds, b) = Ok (d, c) \<and>
      reset_last g (d, c) = (ds', b'))"
    using assms(1) by (auto simp: order_resume_def split: if_splits)
  then show ?thesis
  proof (elim disjE exE conjE)
    fix d c
    assume "loopR ?body (visit_lasts ds) (ds, b) = Ok (d, c)"
    then have "evolves (fst (ds, b)) (fst (d, c))"
    proof (rule loopR_rel [where Rel = "\<lambda>s t. evolves (fst s) (fst t)"])
      fix x :: "int \<times> int" and u v :: "detectionState \<times> bool"
      assume "?body x u = Ok v"
      then show "evolves (fst u) (fst v)"
        by (cases x; cases u; cases v) (auto simp: slice_set_Ok evolves_def split: if_splits)
    qed (auto intro: evolves_trans)
    moreover assume "reset_last g (d, c) = (ds', b')"
    ultimately show ?thesis using assms(2) evolves_reset by auto
  qed simp
qed

lemma order_turn_evolves: "order_turn g ds t b = Ok (Some (ds', n)) \<Longrightarrow> evolves ds ds'"
  by (auto simp: order_turn_def dest: take_turn_evolves split: if_splits)

lemma order_loop_step:
  "order_loop f E i b s = Ok t \<Longrightarrow> lasts_ok s \<Longrightarrow> step_rel s t"
proof (induction f E i b s arbitrary: t rule: order_loop.induct)
  case (2 fuel E i b g ds)
  from 2(2) obtain r where r: "order_resume g ds b = Ok r"
    and rest: "(case r of None \<Rightarrow> Ok (g, ds) | Some (ds, b) \<Rightarrow>
         let i = (if i \<ge> int (length (hip ds)) then 0 else i) in
         bindR (slice_get (hip ds) i) (\<lambda>tid.
         bindR (order_turn g ds tid b) (\<lambda>turn_taken.
         bindR (case turn_taken of None \<Rightarrow> Ok (g, ds)
                | Some (ds', n) \<Rightarrow> run_visit E (node_id n) (\<not> revisit_always n b) (g, ds'))
           (\<lambda>s'. order_loop fuel E (i + 1) b s')))) = Ok t"
    by auto
  show ?case
  proof (cases r)
    case None
    with rest show ?thesis by simp
  next
    case (Some db)
    then obtain d1 b1 where db: "r = Some (d1, b1)" by (cases db) auto
    define j where "j = (if i \<ge> int (length (hip d1)) then 0 else i)"
    from rest db obtain tid q s1 where tid: "slice_get (hip d1) j = Ok tid"
      and q: "order_turn g d1 tid b1 = Ok q"
      and s1: "(case q of None \<Rightarrow> Ok (g, d1)
                | Some (ds', n) \<Rightarrow> run_visit E (node_id n) (\<not> revisit_always n b1) (g, ds')) = Ok s1"
      and l: "order_loop fuel E (j + 1) b1 s1 = Ok t"
      by (auto simp: Let_def simp flip: j_def)
    have "step_rel (g, ds) (g, d1)"
      using order_resume_evolves r db 2(3)
      by (intro step_rel_evolves) (simp add: lasts_ok_def)
    moreover have "step_rel (g, d1) s1"
    proof (cases q)
      case (Some p)
      with s1 obtain d2 n where "order_turn g d1 tid b1 = Ok (Some (d2, n))"
        and "run_visit E (node_id n) (\<not> revisit_always n b1) (g, d2) = Ok s1"
        using q by (cases p) auto
      then show ?thesis
        by (blast intro: step_rel_trans step_rel_evolves order_turn_evolves run_visit_step)
    qed (use s1 in simp)
    ultimately have s: "step_rel (g, ds) s1" by (rule step_rel_trans)
    with 2(3) have "lasts_ok s1" by (rule lasts_ok_step [rotated])
    with 2(1) r db tid q s1 l have "step_rel s1 t" by (simp add: Let_def flip: j_def)
    with s show ?thesis by (rule step_rel_trans)
  qed
qed simp

lemma exploreState_step:
  assumes "exploreState f E k s i t = Ok (g, ds, k')" and "lasts_ok s"
  shows "step_rel s (g, ds)"
proof (cases "RANDOM_STATE E")
  case True
  with assms show ?thesis by (auto simp: exploreState_def dest: exploreRandomState_step)
next
  case False
  with assms(1) obtain s1 j where
    v: "(if i \<noteq> -1 then run_visit E i True s else Ok s) = Ok s1"
    and l: "order_loop f E j False s1 = Ok (g, ds)"
    by (auto simp: exploreState_def exploreOrderState_def)
  from v have "step_rel s s1" by (auto split: if_splits dest: run_visit_step)
  with order_loop_step [OF l] lasts_ok_step [OF this assms(2)] show ?thesis
    by (auto intro: step_rel_trans)
qed


definition demo_main :: detectionState where
  "demo_main = ok_val (updateHIP (the_node demo_graph 0)
     (ok_val (updateHIP (the_node demo_graph 2) (initial_state demo_graph))))"


section \<open>When an exploration ends\<close>

text \<open>No paused goroutine may walk, and there is none to resume.\<close>

definition nothing_to_resume :: "env \<Rightarrow> RFGraph \<Rightarrow> detectionState \<Rightarrow> bool" where
  "nothing_to_resume E g ds \<longleftrightarrow> stuck ds = Ok True \<and> \<not> hasVisitLast ds \<and>
     (\<exists>i t. holdingRLock E g ds = Ok (i, t) \<and> (i = -1 \<or> t = -1)) \<and>
     (\<exists>i t. holdingLock E g ds = Ok (i, t) \<and> (i = -1 \<or> t = -1)) \<and>
     (\<exists>i t. noPausedWaits g ds = Ok (i, t) \<and> (i = -1 \<or> t = -1))"

lemma resume_not_None:
  "resume_lasts g s \<noteq> Ok None" "resume_at g i t s \<noteq> Ok None"
  by (auto simp: resume_lasts_def resume_at_def)

lemma random_resume_None:
  assumes "random_resume E g ds b = Ok None"
  shows "nothing_to_resume E g ds"
  using assms
  by (auto simp: random_resume_def nothing_to_resume_def resume_not_None split: if_splits)

lemma random_loop_end:
  "random_loop f E t = Ok (g, ds, k) \<Longrightarrow>
     nothing_to_resume E g ds \<or> hip ds = [] \<or> -1 \<in> set (hip ds)"
proof (induction f E t rule: random_loop.induct)
  case (2 fuel E t)
  from 2(2) obtain nx k1 g1 d1 where r: "random_round (Suc fuel) E t = Ok (nx, k1, g1, d1)"
    and rest: "(case nx of None \<Rightarrow> Ok (g1, d1, k1) | Some t' \<Rightarrow> random_loop fuel E t') = Ok (g, ds, k)"
    by auto
  show ?case
  proof (cases nx)
    case (Some t')
    with 2(1) r rest show ?thesis by simp
  next
    case None
    from r obtain tid k2 where
      tid: "getRandomTID (Suc fuel) E (t_draws t) (t_state t) (t_tid t) (t_prev t) = Ok (tid, k2)"
      by (auto simp: random_round_def)
    from r None have "(tid = -1 \<and> g1 = t_graph t \<and> d1 = t_state t) \<or>
       (random_resume E (t_graph t) (t_state t) (t_last t) = Ok None \<and> g1 = t_graph t \<and> d1 = t_state t)"
      unfolding random_round_def tid by (auto split: if_splits option.splits)
    with None rest getRandomTID_mem [OF tid] random_resume_None show ?thesis by auto
  qed
qed simp

text \<open>
  C8: An exploration in random mode returns only when every goroutine has finished
  or none can go on: no paused goroutine is marked as walkable, no visit is put off, and no paused
  lock, read lock, unlock or wait is left to resume. (Thread numbers are not negative.)
\<close>

theorem explore_ends_stuck:
  assumes "exploreRandomState fuel E k (g, ds) first tid = Ok (g', ds', k')"
    and "-1 \<notin> set (hip ds')"
  shows "hip ds' = [] \<or> nothing_to_resume E g' ds'"
  using assms by (auto simp: exploreRandomState_def dest: random_loop_end)

theorem explore_ends_stuck_witness:
  "\<exists>g ds k. exploreRandomState 20 default_env 0 (demo_graph, demo_main) 0 0 = Ok (g, ds, k) \<and>
     nothing_to_resume default_env g ds"
proof -
  let ?v = "exploreRandomState 20 default_env 0 (demo_graph, demo_main) 0 0"
  have c: "case ?v of Ok (g, ds, k) \<Rightarrow> -1 \<notin> set (hip ds) \<and> hip ds \<noteq> [] | _ \<Rightarrow> False"
    by code_simp
  then obtain g ds k where v: "?v = Ok (g, ds, k)" by (auto split: res.splits)
  with explore_ends_stuck [OF v] c show ?thesis by auto
qed

section \<open>A lone Signal\<close>

definition signal_graph :: RFGraph where
  "signal_graph = graph_of
     [zero_node\<lparr>node_id := 0, typId := NGoroutine, gid := 0\<rparr>,
      zero_node\<lparr>node_id := 1, typId := NSignal, gid := 0, cond_ptr := Some demo_value\<rparr>]
     [(Some 0, [1])] [(7, \<lparr>producers = [1], consumers = []\<rparr>)] [0]"

definition signal_start :: detectionState where
  "signal_start = ok_val (updateHIP (the_node signal_graph 0) (initial_state signal_graph))"

text \<open>The state after the first visit, and the one every turn ends with.\<close>

definition signal_state :: "(int, bool) gomap \<Rightarrow> detectionState" where
  "signal_state walk = (initial_state signal_graph)\<lparr>pause_ats := [1], can_walk := walk,
     visited := [(0, 1), (1, 1)], hip := [0], visit_last := [1]\<rparr>"

lemma run_visit_same_graph:
  assumes "case run_visit E i skip (g, ds) of Ok (g', ds') \<Rightarrow> ds' = d \<and> states g' = states g | _ \<Rightarrow> False"
  shows "run_visit E i skip (g, ds) = Ok (g, d)"
proof -
  from assms obtain g' where r: "run_visit E i skip (g, ds) = Ok (g', d)" and s: "states g' = states g"
    by (auto split: res.splits)
  from run_visit_step [OF r] s have "g' = g" by (auto simp: step_rel_def)
  with r show ?thesis by simp
qed

lemma signal_first: "run_visit default_env 0 True (signal_graph, signal_start) =
    Ok (signal_graph, signal_state [(0, True)])"
  by (rule run_visit_same_graph) code_simp

lemma signal_resume:
  assumes "w = [(0, True)] \<or> w = [(0, True), (1, False)]"
  shows "random_resume default_env signal_graph (signal_state w) b =
    Ok (Some ((signal_state [(0, True), (1, True)])\<lparr>visit_last := [0]\<rparr>, True))"
proof -
  have "random_resume default_env signal_graph (signal_state [(0, True)]) b =
      Ok (Some ((signal_state [(0, True), (1, True)])\<lparr>visit_last := [0]\<rparr>, True))" for b
    by (cases b) (simp_all only:, code_simp+)
  moreover have "random_resume default_env signal_graph (signal_state [(0, True), (1, False)]) b =
      Ok (Some ((signal_state [(0, True), (1, True)])\<lparr>visit_last := [0]\<rparr>, True))" for b
    by (cases b) (simp_all only:, code_simp+)
  ultimately show ?thesis using assms by auto
qed

lemma signal_take:
  "take_turn signal_graph ((signal_state [(0, True), (1, True)])\<lparr>visit_last := [0]\<rparr>) 0 True =
   Ok (Some ((signal_state [(0, True), (1, False)])\<lparr>visit_last := [0], pause_ats := [-1]\<rparr>,
             the_node signal_graph 1))"
  by code_simp

lemma signal_walk:
  "walk_random default_env (the_node signal_graph 1) True
     (signal_graph, (signal_state [(0, True), (1, False)])\<lparr>visit_last := [0], pause_ats := [-1]\<rparr>) =
   Ok (signal_graph, signal_state [(0, True), (1, False)])"
proof -
  have "typId (the_node signal_graph 1) = NSignal" "node_id (the_node signal_graph 1) = 1"
    by code_simp+
  moreover have "run_visit default_env 1 False
     (signal_graph, (signal_state [(0, True), (1, False)])\<lparr>visit_last := [0], pause_ats := [-1]\<rparr>) =
     Ok (signal_graph, signal_state [(0, True), (1, False)])"
    by (rule run_visit_same_graph) code_simp
  ultimately show ?thesis by (simp add: walk_random_def revisit_always_def)
qed

lemma signal_draw:
  "getRandomTID (Suc fuel) default_env k (signal_state w) 0 0 = Ok (0, Suc k)"
  by (simp add: signal_state_def default_env_def slice_get_def in_range_def Let_def)

definition signal_turn :: "(int, bool) gomap \<Rightarrow> bool \<Rightarrow> nat \<Rightarrow> turn" where
  "signal_turn w b k = \<lparr>t_graph = signal_graph, t_state = signal_state w, t_tid = 0, t_prev = 0,
     t_last = b, t_draws = k\<rparr>"

lemma signal_round:
  assumes "w = [(0, True)] \<or> w = [(0, True), (1, False)]"
  shows "random_round (Suc fuel) default_env (signal_turn w b k) =
    Ok (Some (signal_turn [(0, True), (1, False)] True (Suc k)), Suc k, signal_graph,
        signal_state [(0, True), (1, False)])"
  by (simp add: random_round_def signal_turn_def signal_draw signal_resume [OF assms] signal_take
      signal_walk del: getRandomTID.simps)

lemma signal_loops:
  "w = [(0, True)] \<or> w = [(0, True), (1, False)] \<Longrightarrow>
     random_loop fuel default_env (signal_turn w b k) = OutOfFuel"
  by (induction fuel arbitrary: w b k) (simp_all add: signal_round del: getRandomTID.simps)


section \<open>Reports\<close>

text \<open>Every queued state has one pause and one put-off visit per root.\<close>

definition queue_sized :: "RFGraph \<Rightarrow> bool" where
  "queue_sized g \<longleftrightarrow> (\<forall>s \<in> set (states g). sized (length (roots g)) s)"

lemma grows_sized:
  "grows n g g' \<Longrightarrow> \<forall>s \<in> set (states g). sized n s \<Longrightarrow> \<forall>s \<in> set (states g'). sized n s"
  by (induction rule: grows.induct) (auto simp: push_state_def)

lemma queue_sized_step:
  assumes "step_rel (g, ds) (g', ds')" and "queue_sized g" and "sized (length (roots g)) ds"
  shows "queue_sized g' \<and> sized (length (roots g')) ds' \<and> berrs g' = berrs g"
  using assms grows_sized [of "length (roots g)" g g'] sized_evolves [of ds ds']
  by (auto simp: step_rel_def queue_sized_def)

lemma explore_queue_inv:
  "explore_queue f E k g rs = Ok (g', rs') \<Longrightarrow> queue_sized g \<Longrightarrow>
     (\<forall>s \<in> set rs. sized (length (roots g)) s) \<Longrightarrow>
     berrs g' = berrs g \<and> roots g' = roots g \<and> states g' = [] \<and> id2node g' = id2node g \<and>
     (\<forall>s \<in> set rs'. sized (length (roots g)) s)"
proof (induction f E k g rs rule: explore_queue.induct)
  case (2 fuel E k g rs)
  show ?case
  proof (cases "states g")
    case Nil
    with 2 show ?thesis by simp
  next
    case (Cons ds queue)
    let ?g = "g\<lparr>states := queue\<rparr>"
    from 2(2) Cons obtain g1 d1 k1 where
      e: "exploreState fuel E k (?g, ds) (start_node_id ds) (start_tid ds) = Ok (g1, d1, k1)"
      and q: "explore_queue fuel E k1 g1 (rs @ [d1]) = Ok (g', rs')" by auto
    from 2(3) Cons have sz: "sized (length (roots ?g)) ds" "queue_sized ?g"
      by (auto simp: queue_sized_def)
    then have s: "step_rel (?g, ds) (g1, d1)"
      by (intro exploreState_step [OF e]) (simp add: lasts_ok_def sized_def)
    from queue_sized_step [OF s sz(2,1)] step_rel_graph [OF s]
    have "queue_sized g1" "sized (length (roots g1)) d1" "berrs g1 = berrs g" "roots g1 = roots g"
      "id2node g1 = id2node g" by auto
    with 2(1) [OF Cons e refl refl q] 2(4) show ?thesis by auto
  qed
qed simp

lemma locate_pauses_dom:
  "loopR (locate_pause src g s) ids m = Ok m' \<Longrightarrow>
     dom (map_of m') = dom (map_of m) \<union> {i \<in> set ids. i \<notin> {-1, -2, -3}}"
proof (induction ids arbitrary: m)
  case (Cons i ids)
  from Cons.prems obtain m1 where l: "locate_pause src g s i m = Ok m1"
    and r: "loopR (locate_pause src g s) ids m1 = Ok m'" by auto
  from l have "dom (map_of m1) = dom (map_of m) \<union> {j. j = i \<and> i \<notin> {-1, -2, -3}}"
    by (auto simp: locate_pause_def split: if_splits)
  with Cons.IH [OF r] show ?case by auto
qed auto

definition located :: "BlockError \<Rightarrow> bool" where
  "located e \<longleftrightarrow> dom (map_of (tid2loc e)) = {i \<in> set (pause_ats (be_state e)). i \<notin> {-1, -2, -3}}"

lemma filter_rounds:
  "loopR (filter_round src g) rs errs = Ok errs' \<Longrightarrow>
     \<exists>new. errs' = errs @ new \<and> map be_state new = filter hasMeaningfulPaused rs \<and>
       (\<forall>e \<in> set new. located e)"
proof (induction rs arbitrary: errs)
  case (Cons s rs)
  from Cons.prems obtain errs1 where f: "filter_round src g s errs = Ok errs1"
    and r: "loopR (filter_round src g) rs errs1 = Ok errs'" by auto
  from Cons.IH [OF r] obtain new where
    new: "errs' = errs1 @ new" "map be_state new = filter hasMeaningfulPaused rs"
    "\<forall>e \<in> set new. located e" by blast
  show ?case
  proof (cases "hasMeaningfulPaused s")
    case True
    then have "\<not> noPaused s" using noPaused_not_meaningful by blast
    with True f obtain m where m: "loopR (locate_pause src g s) (pause_ats s) [] = Ok m"
      and e: "errs1 = errs @ [\<lparr>tid2loc = m, be_state = s\<rparr>]"
      by (auto simp: filter_round_def)
    from locate_pauses_dom [OF m] have "located \<lparr>tid2loc = m, be_state = s\<rparr>"
      by (simp add: located_def)
    with True new e show ?thesis
      by (intro exI [where x = "\<lparr>tid2loc = m, be_state = s\<rparr> # new"]) auto
  next
    case False
    with f have "errs1 = errs" by (auto simp: filter_round_def split: if_splits)
    with False new show ?thesis by auto
  qed
qed simp

text \<open>
  C2: When \<open>DFSDetectBlockingBugs\<close> completes, it has emptied the queue of states and
  appended one report for each explored state with a goroutine paused at a node, in order, and none
  for the others; the report locates exactly the nodes at which goroutines of that state are paused
  (not the markers of a finished goroutine, of an unclosed loop or of a goroutine not started).
\<close>

theorem reports_exact:
  assumes "DFSDetectBlockingBugs fuel E src g = Ok g'" and "states g = []"
  shows "\<exists>errs. berrs g' = berrs g @ errs \<and>
    map be_state errs = filter hasMeaningfulPaused (states g') \<and>
    (\<forall>e \<in> set errs. dom (map_of (tid2loc e)) =
       {i \<in> set (pause_ats (be_state e)). i \<notin> {-1, -2, -3}})"
proof -
  from assms obtain n ds g1 rs errs where u: "updateHIP n (initial_state g) = Ok ds"
    and q: "explore_queue fuel E 0 (g\<lparr>states := [ds]\<rparr>) [] = Ok (g1, rs)"
    and f: "loopR (filter_round src (g1\<lparr>states := rs\<rparr>)) rs (berrs g1) = Ok errs"
    and g': "g' = g1\<lparr>states := rs, berrs := errs\<rparr>"
    by (auto simp: DFSDetectBlockingBugs_def Let_def)
  from updateHIP_evolves [OF u] have "queue_sized (g\<lparr>states := [ds]\<rparr>)"
    by (auto simp: queue_sized_def sized_def initial_state_def evolves_def)
  with explore_queue_inv [OF q] have "berrs g1 = berrs g" by simp
  with filter_rounds [OF f] g' show ?thesis by (auto simp: located_def)
qed

text \<open>Two goroutines, each sending on a channel nobody receives from.\<close>

definition blocked_graph :: RFGraph where
  "blocked_graph = graph_of
     [zero_node\<lparr>node_id := 0, typId := NGoroutine, gid := 0\<rparr>,
      zero_node\<lparr>node_id := 1, typId := NGoroutine, gid := 1\<rparr>,
      zero_node\<lparr>node_id := 2, typId := NChannel, gid := 0, ch_ptr := Some demo_value,
        isSender := True, ch_send_inst := Some \<lparr>inst_id = 0, inst_pos = 11, inst_str = ''send'',
          inst_block = 0, inst_kind = KSend demo_value demo_value, inst_val = demo_value\<rparr>\<rparr>,
      zero_node\<lparr>node_id := 3, typId := NExit, gid := 1\<rparr>]
     [(Some 0, [1, 2]), (Some 1, [3])] [(7, \<lparr>producers = [2], consumers = []\<rparr>)] [0, 1]"

definition demo_source :: source where
  "demo_source pos = (''a.go:'' @ itoa pos, ''ch <- 1'')"

theorem reports_exact_witness:
  "\<exists>g'. DFSDetectBlockingBugs 40 default_env demo_source blocked_graph = Ok g' \<and>
     (\<exists>s. states g' = [s] \<and> pause_ats s = [2, -2]) \<and>
     (\<exists>e. berrs g' = [e] \<and> dom (map_of (tid2loc e)) = {2})"
proof -
  let ?v = "DFSDetectBlockingBugs 40 default_env demo_source blocked_graph"
  have c: "case ?v of Ok g' \<Rightarrow> map pause_ats (states g') = [[2, -2]] | _ \<Rightarrow> False"
    by code_simp
  then obtain g' where v: "?v = Ok g'" by (auto split: res.splits)
  with c obtain s where s: "states g' = [s]" "pause_ats s = [2, -2]" by auto
  have b: "states blocked_graph = []" "berrs blocked_graph = []" by code_simp+
  from reports_exact [OF v b(1)] b(2) s
  obtain errs where "berrs g' = errs" "map be_state errs = [s]"
    "\<forall>e \<in> set errs. dom (map_of (tid2loc e)) = {i \<in> set (pause_ats (be_state e)). i \<notin> {-1, -2, -3}}"
    by (auto simp: hasMeaningfulPaused_def)
  with v s show ?thesis by (auto simp: map_eq_Cons_conv)
qed

end
