(* ===== verification/SparseWord.thy ===== *)
theory SparseWord
  imports GoPrelude "HOL-Library.Word"
begin

text \<open>
  The word level of \<open>container/intsets\<close>: population count, leading and trailing zeros of
  \<open>util.go\<close>, and the bit masks of \<open>sparse.go\<close>. A \<open>word\<close> is \<open>uintptr\<close>, 64 bits wide. The hardware
  instruction behind \<open>popcnt\<close> is assembly; \<open>popcount\<close> is the portable table version that the 64-bit
  builds share (\<open>popcountHD\<close> serves 32-bit words only and is left out).
\<close>

unbundle bit_operations_syntax

section \<open>Definitions\<close>

definition bitsPerWord :: nat where "bitsPerWord = 64"
definition bitsPerBlock :: nat where "bitsPerBlock = 256"
definition wordsPerBlock :: nat where "wordsPerBlock = bitsPerBlock div bitsPerWord"

text \<open>The table \<open>a\<close>: the loop of \<open>init\<close> for one index, and the sum of bytes in \<open>popcountTable\<close>.\<close>

fun count_bits :: "nat \<Rightarrow> 8 word" where
  "count_bits x = (if x = 0 then 0 else (if odd x then 1 else 0) + count_bits (x div 2))"

declare count_bits.simps [simp del]

definition table_at :: "64 word \<Rightarrow> nat \<Rightarrow> 8 word" where
  "table_at x k = count_bits (unat (ucast (drop_bit (k * 8) x) :: 8 word))"

definition popcountTable :: "64 word \<Rightarrow> int" where
  "popcountTable x = uint (table_at x 0 + table_at x 1 + table_at x 2 + table_at x 3 +
     table_at x 4 + table_at x 5 + table_at x 6 + table_at x 7)"

definition popcount :: "64 word \<Rightarrow> int" where
  "popcount x = popcountTable x"

definition nlz :: "64 word \<Rightarrow> int" where
  "nlz x =
     (let x = x OR drop_bit 1 x; x = x OR drop_bit 2 x; x = x OR drop_bit 4 x;
          x = x OR drop_bit 8 x; x = x OR drop_bit 16 x; x = x OR drop_bit 32 x
      in popcount (NOT x))"

text \<open>One halving of \<open>ntz\<close>: \<open>if x & mask == 0 { n += width; x >>= width }\<close>.\<close>

definition ntz_step :: "nat \<Rightarrow> int \<times> 64 word \<Rightarrow> int \<times> 64 word" where
  "ntz_step width = (\<lambda>(n, x).
     if x AND mask width = 0 then (n + int width, drop_bit width x) else (n, x))"

definition ntz :: "64 word \<Rightarrow> int" where
  "ntz x = (if x = 0 then int bitsPerWord
     else case ntz_step 2 (ntz_step 4 (ntz_step 8 (ntz_step 16 (ntz_step 32 (1, x))))) of
       (n, x) \<Rightarrow> n - uint (x AND 1))"

definition wordMask :: "nat \<Rightarrow> nat \<times> 64 word" where
  "wordMask i = (i div bitsPerWord, push_bit (i mod bitsPerWord) 1)"

section \<open>Population count\<close>

text \<open>The set bits of a word, and of a number below \<open>2 ^ n\<close>.\<close>

definition bits_of :: "64 word \<Rightarrow> nat set" where
  "bits_of x = {i. i < 64 \<and> bit x i}"

lemma bits_of_iff: "i \<in> bits_of x \<longleftrightarrow> bit x i"
  using bit_imp_le_length [of x i] by (auto simp: bits_of_def)

lemma finite_bits_of [simp]: "finite (bits_of x)"
  by (simp add: bits_of_def)

lemma bits_of_eq_empty: "bits_of x = {} \<longleftrightarrow> x = 0"
  by (auto simp: bits_of_def intro!: bit_word_eqI)

lemma card_bit_Suc:
  "card {i. i < Suc n \<and> bit (x :: nat) i} = of_bool (odd x) + card {i. i < n \<and> bit (x div 2) i}"
proof -
  have "{i. i < Suc n \<and> bit x i} = (if odd x then {0} else {}) \<union> Suc ` {i. i < n \<and> bit (x div 2) i}"
    by (auto simp: bit_Suc image_iff elim: less_SucE split: nat.splits)
      (metis bit_0 bit_Suc not0_implies_Suc Suc_less_eq)+
  moreover have "card (Suc ` {i. i < n \<and> bit (x div 2) i}) = card {i. i < n \<and> bit (x div 2) i}"
    by (simp add: card_image)
  ultimately show ?thesis by (auto simp: card_insert_if)
qed

lemma count_bits_card:
  "x < 2 ^ n \<Longrightarrow> n \<le> 8 \<Longrightarrow> count_bits x = of_nat (card {i. i < n \<and> bit x i})"
proof (induction n arbitrary: x)
  case 0
  then show ?case by (simp add: count_bits.simps)
next
  case (Suc n)
  then have "count_bits (x div 2) = of_nat (card {i. i < n \<and> bit (x div 2) i})" by auto
  then show ?case
    by (subst count_bits.simps) (auto simp: card_bit_Suc)
qed

lemma table_at_card: "table_at x k = of_nat (card {i. i < 8 \<and> bit x (k * 8 + i)})"
proof -
  let ?y = "ucast (drop_bit (k * 8) x) :: 8 word"
  have "unat ?y < 2 ^ 8" using unsigned_less [of ?y, where 'a = nat] by simp
  then have "table_at x k = of_nat (card {i. i < 8 \<and> bit (unat ?y) i})"
    unfolding table_at_def by (rule count_bits_card) simp
  also have "{i. i < 8 \<and> bit (unat ?y) i} = {i. i < 8 \<and> bit x (k * 8 + i)}"
    by (auto simp: bit_unsigned_iff bit_drop_bit_eq bit_ucast_iff)
  finally show ?thesis .
qed

lemma bits_of_bytes:
  "card (bits_of x) = (\<Sum>k < 8. card {i. i < 8 \<and> bit x (k * 8 + i)})"
proof -
  let ?B = "\<lambda>k. (\<lambda>i. k * 8 + i) ` {i. i < 8 \<and> bit x (k * 8 + i)}"
  have "bits_of x = (\<Union>k < 8. ?B k)"
  proof (intro set_eqI iffI)
    fix j assume "j \<in> bits_of x"
    then have "j div 8 < 8" "j = j div 8 * 8 + j mod 8" "j mod 8 < 8" "bit x j"
      by (auto simp: bits_of_def)
    then have "j \<in> ?B (j div 8)" by (intro image_eqI [where x = "j mod 8"]) auto
    with \<open>j div 8 < 8\<close> show "j \<in> (\<Union>k < 8. ?B k)" by blast
  qed (auto simp: bits_of_iff)
  also have "card \<dots> = (\<Sum>k < 8. card (?B k))"
    by (rule card_UN_disjoint) auto
  also have "\<dots> = (\<Sum>k < 8. card {i. i < 8 \<and> bit x (k * 8 + i)})"
    by (intro sum.cong refl card_image) (auto simp: inj_on_def)
  finally show ?thesis .
qed

lemma sum_lessThan_8:
  "(\<Sum>k < 8. f k) = f 0 + f 1 + f 2 + f 3 + f 4 + f 5 + f 6 + (f (7 :: nat) :: nat)"
  by (simp add: eval_nat_numeral)

lemma uint_of_nat_byte: "n \<le> 64 \<Longrightarrow> uint (of_nat n :: 8 word) = int n"
  by (simp add: unsigned_of_nat take_bit_nat_eq_self)

lemma popcount_card: "popcount x = int (card (bits_of x))"
proof -
  define c where "c k = card {i. i < 8 \<and> bit x (k * 8 + i)}" for k
  have "c k \<le> 8" for k
    unfolding c_def using card_mono [of "{..< 8 :: nat}" "{i. i < 8 \<and> bit x (k * 8 + i)}"] by auto
  then have le: "(\<Sum>k < 8. c k) \<le> 64" using sum_bounded_above [of "{..< 8 :: nat}" c 8] by simp
  have t: "table_at x k = of_nat (c k)" for k by (simp only: table_at_card c_def)
  have "table_at x 0 + table_at x 1 + table_at x 2 + table_at x 3 + table_at x 4 + table_at x 5 +
      table_at x 6 + table_at x 7 = of_nat (\<Sum>k < 8. c k)"
    by (simp only: t sum_lessThan_8 of_nat_add)
  then have "popcount x = int (\<Sum>k < 8. c k)"
    using le by (simp only: popcount_def popcountTable_def uint_of_nat_byte)
  then show ?thesis by (simp only: bits_of_bytes c_def)
qed

section \<open>Leading zeros\<close>

lemma bits_of_or: "bits_of (x OR y) = bits_of x \<union> bits_of y"
  by (auto simp: bits_of_def bit_or_iff)

lemma bits_of_and: "bits_of (x AND y) = bits_of x \<inter> bits_of y"
  by (auto simp: bits_of_def bit_and_iff)

lemma bits_of_xor: "bits_of (x XOR y) = (bits_of x - bits_of y) \<union> (bits_of y - bits_of x)"
  by (auto simp: bits_of_def bit_xor_iff)

lemma bits_of_andnot: "bits_of (x AND NOT y) = bits_of x - bits_of y"
  by (auto simp: bits_of_def bit_and_iff bit_not_iff)

text \<open>\<open>y\<close> has a bit at \<open>i\<close> if \<open>x\<close> has one among the \<open>n\<close> positions from \<open>i\<close> on.\<close>

definition smeared :: "nat \<Rightarrow> 64 word \<Rightarrow> 64 word \<Rightarrow> bool" where
  "smeared n x y \<longleftrightarrow> (\<forall>i. bit y i \<longleftrightarrow> (\<exists>j < n. bit x (i + j)))"

lemma smeared_step: "smeared n x y \<Longrightarrow> smeared (n + n) x (y OR drop_bit n y)"
proof -
  assume s: "smeared n x y"
  have split: "(\<exists>j < n + n. bit x (i + j)) \<longleftrightarrow> (\<exists>j < n. bit x (i + j)) \<or> (\<exists>j < n. bit x (n + i + j))" for i
  proof
    assume "\<exists>j < n + n. bit x (i + j)"
    then obtain j where j: "j < n + n" "bit x (i + j)" by blast
    show "(\<exists>j < n. bit x (i + j)) \<or> (\<exists>j < n. bit x (n + i + j))"
    proof (cases "j < n")
      case False
      with j have "j - n < n" "bit x (n + i + (j - n))" by auto
      then show ?thesis by blast
    qed (use j in blast)
  next
    assume "(\<exists>j < n. bit x (i + j)) \<or> (\<exists>j < n. bit x (n + i + j))"
    then show "\<exists>j < n + n. bit x (i + j)"
      by (metis add.commute add.left_commute add_less_cancel_left trans_less_add1)
  qed
  with s show ?thesis
    by (simp add: smeared_def bit_or_iff bit_drop_bit_eq)
qed

lemma smeared_double: "smeared n x y \<Longrightarrow> m = n + n \<Longrightarrow> smeared m x (y OR drop_bit n y)"
  using smeared_step by simp

lemma nlz_bits:
  assumes "x \<noteq> 0"
  shows "nlz x = 63 - int (Max (bits_of x))"
proof -
  define y1 where "y1 = x OR drop_bit 1 x"
  define y2 where "y2 = y1 OR drop_bit 2 y1"
  define y4 where "y4 = y2 OR drop_bit 4 y2"
  define y8 where "y8 = y4 OR drop_bit 8 y4"
  define y16 where "y16 = y8 OR drop_bit 16 y8"
  define y where "y = y16 OR drop_bit 32 y16"
  have "smeared 1 x x" by (simp add: smeared_def)
  then have "smeared 2 x y1" unfolding y1_def by (rule smeared_double) simp
  then have "smeared 4 x y2" unfolding y2_def by (rule smeared_double) simp
  then have "smeared 8 x y4" unfolding y4_def by (rule smeared_double) simp
  then have "smeared 16 x y8" unfolding y8_def by (rule smeared_double) simp
  then have "smeared 32 x y16" unfolding y16_def by (rule smeared_double) simp
  then have sm: "smeared 64 x y" unfolding y_def by (rule smeared_double) simp
  let ?m = "Max (bits_of x)"
  have m: "?m \<in> bits_of x" using assms by (simp add: bits_of_eq_empty)
  have "bit y i \<longleftrightarrow> i \<le> ?m" for i
  proof
    assume "bit y i"
    with sm obtain j where "bit x (i + j)" by (auto simp: smeared_def)
    then have "i + j \<le> ?m" by (intro Max_ge) (simp_all add: bits_of_iff)
    then show "i \<le> ?m" by simp
  next
    assume "i \<le> ?m"
    with m have "?m - i < 64" "bit x (i + (?m - i))" by (auto simp: bits_of_def)
    with sm show "bit y i" by (auto simp: smeared_def)
  qed
  then have "bits_of (NOT y) = {?m <..< 64}"
    by (auto simp: bits_of_def bit_not_iff)
  moreover have "?m < 64" using m by (simp add: bits_of_def)
  moreover have "nlz x = popcount (NOT y)"
    unfolding nlz_def Let_def y_def y16_def y8_def y4_def y2_def y1_def by (rule refl)
  ultimately show ?thesis by (simp add: popcount_card)
qed

section \<open>Trailing zeros\<close>

text \<open>The lowest set bit of a word that is not zero.\<close>

definition lsb :: "64 word \<Rightarrow> nat" where
  "lsb x = (LEAST i. bit x i)"

lemma lsb_bit: "x \<noteq> 0 \<Longrightarrow> bit x (lsb x)"
  unfolding lsb_def by (rule LeastI_ex) (auto intro: bit_word_eqI)

lemma lsb_le: "bit x i \<Longrightarrow> lsb x \<le> i"
  unfolding lsb_def by (rule Least_le)

lemma lsb_Min: "x \<noteq> 0 \<Longrightarrow> lsb x = Min (bits_of x)"
  using lsb_bit [of x] lsb_le [of x]
  by (intro Min_eqI [symmetric]) (auto simp: bits_of_iff)

lemma and_mask_zero: "x AND mask w = 0 \<longleftrightarrow> (\<forall>i < w. \<not> bit (x :: 64 word) i)"
proof
  assume "x AND mask w = 0"
  then have "\<not> bit (x AND mask w) i" for i by simp
  then show "\<forall>i < w. \<not> bit x i"
    using bit_imp_le_length [of x] by (auto simp: bit_and_iff bit_mask_iff)
qed (auto intro!: bit_word_eqI simp: bit_and_iff bit_mask_iff)

lemma lsb_drop:
  assumes "x \<noteq> 0" and "\<forall>i < w. \<not> bit x i"
  shows "drop_bit w x \<noteq> 0 \<and> lsb x = w + lsb (drop_bit w x)"
proof -
  have "w \<le> lsb x" using lsb_bit [OF assms(1)] assms(2) not_less by blast
  then have b: "bit (drop_bit w x) (lsb x - w)"
    using lsb_bit [OF assms(1)] by (simp add: bit_drop_bit_eq)
  then have "drop_bit w x \<noteq> 0" by auto
  moreover have "lsb x \<le> w + lsb (drop_bit w x)"
    using lsb_bit [OF \<open>drop_bit w x \<noteq> 0\<close>] by (intro lsb_le) (simp add: bit_drop_bit_eq)
  moreover have "lsb (drop_bit w x) \<le> lsb x - w" using b by (rule lsb_le)
  ultimately show ?thesis using \<open>w \<le> lsb x\<close> by linarith
qed

text \<open>After a halving of width \<open>w\<close> the lowest bit is below \<open>w\<close>.\<close>

definition ntz_inv :: "nat \<Rightarrow> 64 word \<Rightarrow> int \<times> 64 word \<Rightarrow> bool" where
  "ntz_inv w x = (\<lambda>(n, y). y \<noteq> 0 \<and> lsb y < w \<and> int (lsb x) = n - 1 + int (lsb y))"

lemma ntz_step_inv: "ntz_inv (w + w) x s \<Longrightarrow> ntz_inv w x (ntz_step w s)"
proof -
  assume I: "ntz_inv (w + w) x s"
  obtain n y where s: "s = (n, y)" by (cases s)
  show ?thesis
  proof (cases "y AND mask w = 0")
    case True
    with I s lsb_drop [of y w] show ?thesis
      by (auto simp: ntz_inv_def ntz_step_def and_mask_zero)
  next
    case False
    then obtain i where "i < w" "bit y i" by (auto simp: and_mask_zero)
    then have "lsb y < w" using lsb_le [of y i] by simp
    with I s False show ?thesis by (simp add: ntz_inv_def ntz_step_def)
  qed
qed

lemma ntz_bits:
  assumes "x \<noteq> 0"
  shows "ntz x = int (Min (bits_of x))"
proof -
  have "bit x (lsb x)" using assms by (rule lsb_bit)
  then have "lsb x < 64" using bit_imp_le_length [of x "lsb x"] by simp
  with assms have I: "ntz_inv (32 + 32) x (1, x)" by (simp add: ntz_inv_def)
  define s where "s = ntz_step 2 (ntz_step 4 (ntz_step 8 (ntz_step 16 (ntz_step 32 (1, x)))))"
  have "ntz_inv 16 x (ntz_step 16 (ntz_step 32 (1, x)))"
    using ntz_step_inv [OF I] ntz_step_inv [of 16] by simp
  then have "ntz_inv 4 x (ntz_step 4 (ntz_step 8 (ntz_step 16 (ntz_step 32 (1, x)))))"
    using ntz_step_inv [of 8] ntz_step_inv [of 4] by simp
  then have "ntz_inv 2 x s" using ntz_step_inv [of 2] by (simp add: s_def)
  moreover obtain n y where s: "s = (n, y)" by (cases s)
  ultimately have y: "y \<noteq> 0" "lsb y < 2" and n: "int (lsb x) = n - 1 + int (lsb y)"
    by (auto simp: ntz_inv_def)
  have "uint (y AND 1) = 1 - int (lsb y)"
  proof (cases "bit y 0")
    case True
    then show ?thesis using lsb_le [of y 0] by (simp add: and_one_eq mod_2_eq_odd bit_0)
  next
    case False
    then have "lsb y \<noteq> 0" using lsb_bit [OF y(1)] by metis
    with y(2) have "lsb y = 1" by simp
    with False show ?thesis by (simp add: and_one_eq mod_2_eq_odd bit_0)
  qed
  with n have "n - uint (y AND 1) = int (lsb x)" by simp
  with assms s show ?thesis by (simp add: ntz_def s_def lsb_Min)
qed

end
