(* ===== verification/SparseBlock.thy ===== *)
theory SparseBlock
  imports SparseWord
begin

text \<open>
  The blocks of \<open>container/intsets/sparse.go\<close>: an offset and an array of four words, a bit per
  element. Go's \<open>int\<close> is \<open>int\<close> here, with the wrap-around of 64-bit arithmetic written out
  (\<open>wrap64\<close>) where a block at the end of the range makes it happen. The panics for an empty block
  are values; the words of a block are indexed below \<open>wordsPerBlock\<close> only.
\<close>

section \<open>Definitions\<close>

definition MaxInt :: int where "MaxInt = 2 ^ 63 - 1"
definition MinInt :: int where "MinInt = - MaxInt - 1"

definition wrap64 :: "int \<Rightarrow> int" where
  "wrap64 i = (i + 2 ^ 63) mod 2 ^ 64 - 2 ^ 63"

record block =
  offset :: int
  bits :: "64 word list"

definition new_block :: block where
  "new_block = \<lparr>offset = 0, bits = replicate wordsPerBlock 0\<rparr>"

definition block_insert :: "block \<Rightarrow> nat \<Rightarrow> bool \<times> block" where
  "block_insert b i = (case wordMask i of (w, m) \<Rightarrow>
     if bits b ! w AND m = 0 then (True, b\<lparr>bits := (bits b)[w := bits b ! w OR m]\<rparr>) else (False, b))"

definition block_remove :: "block \<Rightarrow> nat \<Rightarrow> bool \<times> block" where
  "block_remove b i = (case wordMask i of (w, m) \<Rightarrow>
     if bits b ! w AND m \<noteq> 0 then (True, b\<lparr>bits := (bits b)[w := bits b ! w AND NOT m]\<rparr>)
     else (False, b))"

definition block_has :: "block \<Rightarrow> nat \<Rightarrow> bool" where
  "block_has b i = (case wordMask i of (w, m) \<Rightarrow> bits b ! w AND m \<noteq> 0)"

definition block_empty :: "block \<Rightarrow> bool" where
  "block_empty b = list_all (\<lambda>w. w = 0) (bits b)"

definition block_len :: "block \<Rightarrow> int" where
  "block_len b = sum_list (map popcount (bits b))"

text \<open>The loop of \<open>max\<close> runs from the last word down; the list is the words in that order.\<close>

fun max_loop :: "int \<Rightarrow> 64 word list \<Rightarrow> int res" where
  "max_loop bi [] = Panic (ExplicitPanic ''BUG: empty block'')"
| "max_loop bi (w # ws) =
     (if w \<noteq> 0 then Ok (wrap64 (bi - nlz w - 1)) else max_loop (wrap64 (bi - int bitsPerWord)) ws)"

definition block_max :: "block \<Rightarrow> int res" where
  "block_max b = max_loop (wrap64 (offset b + int bitsPerBlock)) (rev (bits b))"

text \<open>The first word that is not zero, with its index.\<close>

fun first_word :: "nat \<Rightarrow> 64 word list \<Rightarrow> (nat \<times> 64 word) option" where
  "first_word i [] = None"
| "first_word i (w # ws) = (if w \<noteq> 0 then Some (i, w) else first_word (Suc i) ws)"

definition block_min :: "bool \<Rightarrow> block \<Rightarrow> (int \<times> block) res" where
  "block_min take_it b = (case first_word 0 (bits b) of
       None \<Rightarrow> Panic (ExplicitPanic ''BUG: empty block'')
     | Some (i, w) \<Rightarrow> let tz = ntz w in
         Ok (offset b + int (i * bitsPerWord) + tz,
             if take_it then b\<lparr>bits := (bits b)[i := w AND NOT (push_bit (nat tz) 1)]\<rparr> else b))"

definition block_lowerBound :: "block \<Rightarrow> nat \<Rightarrow> int option" where
  "block_lowerBound b i =
     (let w = i div bitsPerWord; val = drop_bit (i mod bitsPerWord) (bits b ! w) in
      if val \<noteq> 0 then Some (offset b + int i + ntz val)
      else case first_word (Suc w) (drop (Suc w) (bits b)) of None \<Rightarrow> None
        | Some (w, val) \<Rightarrow> Some (offset b + int (w * bitsPerWord) + ntz val))"

text \<open>
  \<open>forEach\<close>: the elements in the order in which \<open>f\<close> is called on them; the inner loop stops when the
  shifted word is zero.
\<close>

fun word_elems :: "nat \<Rightarrow> int \<Rightarrow> 64 word \<Rightarrow> int list" where
  "word_elems 0 off w = []"
| "word_elems (Suc n) off w =
     (if w = 0 then []
      else (if w AND 1 \<noteq> 0 then [off] else []) @ word_elems n (off + 1) (drop_bit 1 w))"

definition block_elems :: "block \<Rightarrow> int list" where
  "block_elems b = concat (map (\<lambda>i. word_elems bitsPerWord (offset b + int (i * bitsPerWord))
     (bits b ! i)) [0..<length (bits b)])"

definition offsetAndBitIndex :: "int \<Rightarrow> int \<times> nat" where
  "offsetAndBitIndex x =
     (let m = sgn x * (\<bar>x\<bar> mod int bitsPerBlock); m = (if m < 0 then m + int bitsPerBlock else m)
      in (x - m, nat m))"

section \<open>The set of a block\<close>

definition has_bit :: "block \<Rightarrow> nat \<Rightarrow> bool" where
  "has_bit b i \<longleftrightarrow> bit (bits b ! (i div 64)) (i mod 64)"

definition block_set :: "block \<Rightarrow> int set" where
  "block_set b = {offset b + int i | i. i < 256 \<and> has_bit b i}"

definition wf_block :: "block \<Rightarrow> bool" where
  "wf_block b \<longleftrightarrow> length (bits b) = 4 \<and> offset b mod 256 = 0 \<and> MinInt \<le> offset b \<and>
     offset b + 255 \<le> MaxInt"

lemmas size_defs = bitsPerWord_def bitsPerBlock_def wordsPerBlock_def

lemma wf_blockD: "wf_block b \<Longrightarrow> length (bits b) = 4" "wf_block b \<Longrightarrow> offset b mod 256 = 0"
  by (simp_all add: wf_block_def)

lemma block_set_iff:
  assumes "wf_block b"
  shows "x \<in> block_set b \<longleftrightarrow> offset b = x - x mod 256 \<and> has_bit b (nat (x mod 256))"
proof
  assume "x \<in> block_set b"
  then obtain i where x: "x = offset b + int i" "i < 256" "has_bit b i"
    by (auto simp: block_set_def)
  then have "x mod 256 = int i"
    using wf_blockD(2) [OF assms] mod_add_left_eq [of "offset b" 256 "int i"] by simp
  with x show "offset b = x - x mod 256 \<and> has_bit b (nat (x mod 256))" by simp
next
  assume r: "offset b = x - x mod 256 \<and> has_bit b (nat (x mod 256))"
  have "nat (x mod 256) < 256" by (simp add: nat_less_iff)
  with r show "x \<in> block_set b"
    unfolding block_set_def by (intro CollectI exI [where x = "nat (x mod 256)"]) simp
qed

lemma block_set_range: "x \<in> block_set b \<Longrightarrow> offset b \<le> x \<and> x \<le> offset b + 255"
  by (auto simp: block_set_def)

lemma block_sets_disjoint:
  "wf_block b \<Longrightarrow> wf_block c \<Longrightarrow> offset b \<noteq> offset c \<Longrightarrow> block_set b \<inter> block_set c = {}"
  by (auto simp: block_set_iff)

lemma block_sets_less:
  assumes "wf_block b" and "wf_block c" and "offset b < offset c"
    and "x \<in> block_set b" and "y \<in> block_set c"
  shows "x < y"
proof -
  obtain p q where "offset b = 256 * p" "offset c = 256 * q"
    using wf_blockD(2) [OF assms(1)] wf_blockD(2) [OF assms(2)] by (metis dvdE mod_eq_0_iff_dvd)
  with assms(3) have "offset b + 256 \<le> offset c" by simp
  then show ?thesis using block_set_range [OF assms(4)] block_set_range [OF assms(5)] by linarith
qed

lemma finite_block_set [simp]: "finite (block_set b)"
  by (simp add: block_set_def)

lemma offsetAndBitIndex_eq: "offsetAndBitIndex x = (x - x mod 256, nat (x mod 256))"
proof (cases "0 \<le> x")
  case True
  then show ?thesis
    by (cases "x = 0") (simp_all add: offsetAndBitIndex_def size_defs Let_def)
next
  case False
  then have "sgn x * (\<bar>x\<bar> mod int bitsPerBlock) = (if x mod 256 = 0 then 0 else x mod 256 - 256)"
    by (simp add: zmod_zminus1_eq_if size_defs)
  then show ?thesis
    by (simp add: offsetAndBitIndex_def size_defs Let_def not_le)
qed

section \<open>Operations on one bit\<close>

lemma word_and_bit: "(w :: 64 word) AND 2 ^ k = 0 \<longleftrightarrow> \<not> bit w k" if "k < 64"
proof
  assume "w AND 2 ^ k = 0"
  then have "\<not> bit (w AND 2 ^ k) k" by simp
  with that show "\<not> bit w k" by (simp add: bit_and_iff bit_exp_iff)
next
  assume "\<not> bit w k"
  then show "w AND 2 ^ k = 0"
    by (intro bit_word_eqI) (auto simp: bit_and_iff bit_exp_iff)
qed

lemma has_bit_update:
  assumes "length (bits b) = 4" and "i < 256" and "j < 256"
    and "\<And>k. k < 64 \<Longrightarrow> bit w k \<longleftrightarrow> (if k = i mod 64 then v else bit (bits b ! (i div 64)) k)"
  shows "has_bit (b\<lparr>bits := (bits b)[i div 64 := w]\<rparr>) j \<longleftrightarrow> (if j = i then v else has_bit b j)"
proof -
  have "i div 64 < 4" using assms(2) by simp
  moreover have "j = i \<longleftrightarrow> j div 64 = i div 64 \<and> j mod 64 = i mod 64" by (metis div_mult_mod_eq)
  ultimately show ?thesis
    using assms(1,4) by (auto simp: has_bit_def nth_list_update)
qed

lemma wf_block_bits [simp]: "wf_block (b\<lparr>bits := bs\<rparr>) \<longleftrightarrow> length bs = 4 \<and>
    offset b mod 256 = 0 \<and> MinInt \<le> offset b \<and> offset b + 255 \<le> MaxInt"
  by (simp add: wf_block_def)

lemma block_has_bit: "block_has b i \<longleftrightarrow> has_bit b i"
  by (simp add: block_has_def wordMask_def has_bit_def word_and_bit size_defs)

lemma block_insert_set:
  assumes "wf_block b" and "i < 256" and "block_insert b i = (new, b')"
  shows "wf_block b' \<and> offset b' = offset b \<and> block_set b' = insert (offset b + int i) (block_set b) \<and>
    new = (offset b + int i \<notin> block_set b)"
proof -
  let ?w = "bits b ! (i div 64) OR 2 ^ (i mod 64)"
  have l: "length (bits b) = 4" using assms(1) by (rule wf_blockD)
  have member: "offset b + int i \<in> block_set b \<longleftrightarrow> has_bit b i"
    using assms(2) by (auto simp: block_set_def)
  show ?thesis
  proof (cases "has_bit b i")
    case True
    with assms(3) member assms(1) show ?thesis
      by (auto simp: block_insert_def wordMask_def has_bit_def word_and_bit size_defs
          split: if_splits)
  next
    case False
    with assms(3) have new: "new" and b': "b' = b\<lparr>bits := (bits b)[i div 64 := ?w]\<rparr>"
      by (auto simp: block_insert_def wordMask_def has_bit_def word_and_bit size_defs)
    have "has_bit b' j \<longleftrightarrow> (if j = i then True else has_bit b j)" if "j < 256" for j
      unfolding b' using l assms(2) that
      by (intro has_bit_update) (auto simp: bit_or_iff bit_exp_iff)
    then have "block_set b' = insert (offset b + int i) (block_set b)"
      using assms(2) by (auto simp: block_set_def b' split: if_splits)
    with new b' False member assms(1) show ?thesis by (auto simp: wf_block_def)
  qed
qed

lemma block_remove_set:
  assumes "wf_block b" and "i < 256" and "block_remove b i = (gone, b')"
  shows "wf_block b' \<and> offset b' = offset b \<and> block_set b' = block_set b - {offset b + int i} \<and>
    gone = (offset b + int i \<in> block_set b)"
proof -
  let ?w = "bits b ! (i div 64) AND NOT (2 ^ (i mod 64))"
  have l: "length (bits b) = 4" using assms(1) by (rule wf_blockD)
  have member: "offset b + int i \<in> block_set b \<longleftrightarrow> has_bit b i"
    using assms(2) by (auto simp: block_set_def)
  show ?thesis
  proof (cases "has_bit b i")
    case False
    with assms(3) member assms(1) show ?thesis
      by (auto simp: block_remove_def wordMask_def has_bit_def word_and_bit size_defs
          split: if_splits)
  next
    case True
    with assms(3) have new: "gone" and b': "b' = b\<lparr>bits := (bits b)[i div 64 := ?w]\<rparr>"
      by (auto simp: block_remove_def wordMask_def has_bit_def word_and_bit size_defs)
    have "has_bit b' j \<longleftrightarrow> (if j = i then False else has_bit b j)" if "j < 256" for j
      unfolding b' using l assms(2) that
      by (intro has_bit_update) (auto simp: bit_and_iff bit_not_iff bit_exp_iff)
    then have "block_set b' = block_set b - {offset b + int i}"
      using assms(2) by (auto simp: block_set_def b' split: if_splits)
    with new b' True member assms(1) show ?thesis by (auto simp: wf_block_def)
  qed
qed

section \<open>Operations on whole blocks\<close>

lemma has_bit_word: "k < 64 \<Longrightarrow> has_bit b (j * 64 + k) \<longleftrightarrow> bit (bits b ! j) k"
  by (simp add: has_bit_def)

lemma block_set_words:
  "block_set b = (\<Union>j < 4. (\<lambda>k. offset b + int (j * 64 + k)) ` bits_of (bits b ! j))"
proof (intro set_eqI iffI)
  fix x assume "x \<in> block_set b"
  then obtain i where i: "x = offset b + int i" "i < 256" "has_bit b i"
    by (auto simp: block_set_def)
  then have "i mod 64 \<in> bits_of (bits b ! (i div 64))" and "i div 64 < 4"
    by (auto simp: has_bit_def bits_of_iff)
  moreover have "x = offset b + int (i div 64 * 64 + i mod 64)" using i(1) by simp
  ultimately show "x \<in> (\<Union>j < 4. (\<lambda>k. offset b + int (j * 64 + k)) ` bits_of (bits b ! j))" by blast
next
  fix x assume "x \<in> (\<Union>j < 4. (\<lambda>k. offset b + int (j * 64 + k)) ` bits_of (bits b ! j))"
  then obtain j k where jk: "j < 4" "k < 64" "bit (bits b ! j) k" "x = offset b + int (j * 64 + k)"
    by (auto simp: bits_of_def)
  then show "x \<in> block_set b"
    unfolding block_set_def
    by (intro CollectI exI [where x = "j * 64 + k"]) (simp add: has_bit_word)
qed

lemma block_set_empty_iff:
  "length (bits b) = 4 \<Longrightarrow> block_set b = {} \<longleftrightarrow> (\<forall>w \<in> set (bits b). w = 0)"
  by (auto simp: block_set_words bits_of_eq_empty all_set_conv_all_nth)

lemma block_empty_set: "wf_block b \<Longrightarrow> block_empty b \<longleftrightarrow> block_set b = {}"
  by (simp add: block_set_empty_iff wf_blockD block_empty_def list_all_iff)

lemma sum_list_map_nth: "sum_list (map f xs) = (\<Sum>j < length xs. (f (xs ! j) :: int))"
  by (simp add: sum_list_sum_nth atLeast0LessThan)

lemma block_len_card:
  assumes "wf_block b"
  shows "block_len b = int (card (block_set b))"
proof -
  have "card (block_set b) =
      (\<Sum>j < 4. card ((\<lambda>k. offset b + int (j * 64 + k)) ` bits_of (bits b ! j)))"
    unfolding block_set_words by (rule card_UN_disjoint) (auto simp: bits_of_def)
  also have "\<dots> = (\<Sum>j < 4. card (bits_of (bits b ! j)))"
    by (intro sum.cong refl card_image) (auto simp: inj_on_def)
  finally show ?thesis
    using wf_blockD(1) [OF assms]
    by (simp add: block_len_def sum_list_map_nth popcount_card)
qed

text \<open>Four words combined word by word, as the loops \<open>for i := range sb.bits\<close> do.\<close>

definition zip_bits :: "(64 word \<Rightarrow> 64 word \<Rightarrow> 64 word) \<Rightarrow> block \<Rightarrow> block \<Rightarrow> 64 word list" where
  "zip_bits f b c = map2 f (bits b) (bits c)"

lemma zip_bits_block:
  assumes "wf_block b" and "wf_block c" and "offset b = offset c"
    and "\<And>v w k. k < 64 \<Longrightarrow> bit (f v w) k \<longleftrightarrow> P (bit v k) (bit w k)"
  shows "wf_block (b\<lparr>bits := zip_bits f b c\<rparr>)"
    and "\<not> P False False \<Longrightarrow> block_set (b\<lparr>bits := zip_bits f b c\<rparr>) =
      {x. P (x \<in> block_set b) (x \<in> block_set c)}"
proof -
  have l: "length (bits b) = 4" "length (bits c) = 4" using assms(1,2) by (auto dest: wf_blockD)
  with assms(1) show wf: "wf_block (b\<lparr>bits := zip_bits f b c\<rparr>)"
    by (simp add: wf_block_def zip_bits_def)
  have "has_bit (b\<lparr>bits := zip_bits f b c\<rparr>) i \<longleftrightarrow> P (has_bit b i) (has_bit c i)" if "i < 256" for i
    using l that by (simp add: has_bit_def zip_bits_def assms(4))
  moreover have "nat (x mod 256) < 256" for x :: int by (simp add: nat_less_iff)
  ultimately have "x \<in> block_set (b\<lparr>bits := zip_bits f b c\<rparr>) \<longleftrightarrow> P (x \<in> block_set b) (x \<in> block_set c)"
    if "\<not> P False False" for x
    using assms(3) that
    by (cases "offset c = x - x mod 256")
      (simp_all add: block_set_iff [OF wf] block_set_iff [OF assms(1)] block_set_iff [OF assms(2)])
  then show "block_set (b\<lparr>bits := zip_bits f b c\<rparr>) = {x. P (x \<in> block_set b) (x \<in> block_set c)}"
    if "\<not> P False False" using that by blast
qed

lemma block_and:
  assumes "wf_block b" "wf_block c" "offset b = offset c"
  shows "wf_block (b\<lparr>bits := zip_bits (AND) b c\<rparr>) \<and>
    block_set (b\<lparr>bits := zip_bits (AND) b c\<rparr>) = block_set b \<inter> block_set c"
  using zip_bits_block [OF assms, of "(AND)" "(\<and>)"]
  by (auto simp: bit_and_iff bit_or_iff bit_xor_iff bit_not_iff)

lemma block_or:
  assumes "wf_block b" "wf_block c" "offset b = offset c"
  shows "wf_block (b\<lparr>bits := zip_bits (OR) b c\<rparr>) \<and>
    block_set (b\<lparr>bits := zip_bits (OR) b c\<rparr>) = block_set b \<union> block_set c"
  using zip_bits_block [OF assms, of "(OR)" "(\<or>)"]
  by (auto simp: bit_and_iff bit_or_iff bit_xor_iff bit_not_iff)

lemma block_andnot:
  assumes "wf_block b" "wf_block c" "offset b = offset c"
  shows "wf_block (b\<lparr>bits := zip_bits (\<lambda>v w. v AND NOT w) b c\<rparr>) \<and>
    block_set (b\<lparr>bits := zip_bits (\<lambda>v w. v AND NOT w) b c\<rparr>) = block_set b - block_set c"
  using zip_bits_block [OF assms, of "\<lambda>v w. v AND NOT w" "\<lambda>p q. p \<and> \<not> q"]
  by (auto simp: bit_and_iff bit_or_iff bit_xor_iff bit_not_iff)

lemma block_xor:
  assumes "wf_block b" "wf_block c" "offset b = offset c"
  shows "wf_block (b\<lparr>bits := zip_bits (XOR) b c\<rparr>) \<and>
    block_set (b\<lparr>bits := zip_bits (XOR) b c\<rparr>) =
      (block_set b - block_set c) \<union> (block_set c - block_set b)"
  using zip_bits_block [OF assms, of "(XOR)" "\<lambda>p q. (p \<and> \<not> q) \<or> (q \<and> \<not> p)"]
  by (auto simp: bit_and_iff bit_or_iff bit_xor_iff bit_not_iff)

lemma block_set_eq_bits:
  assumes "wf_block b" "wf_block c" "offset b = offset c" "block_set b = block_set c"
  shows "b = c"
proof -
  have l: "length (bits b) = 4" "length (bits c) = 4" using assms(1,2) by (auto dest: wf_blockD)
  have m: "offset b + int i \<in> block_set d \<longleftrightarrow> has_bit d i" if "i < 256" "offset d = offset b" for i d
    using that by (auto simp: block_set_def)
  then have e: "has_bit b i = has_bit c i" if "i < 256" for i
    using that assms(3,4) by metis
  have "bits b = bits c"
  proof (rule nth_equalityI)
    show "length (bits b) = length (bits c)" using l by simp
    fix j assume "j < length (bits b)"
    then have "j * 64 + k < 256" if "k < 64" for k using that l by simp
    then show "bits b ! j = bits c ! j"
      using e by (intro bit_word_eqI) (simp flip: has_bit_word)
  qed
  with assms(3) show ?thesis by simp
qed

section \<open>Minimum, maximum, lower bound\<close>

lemma first_word_Some:
  "first_word i ws = Some (j, w) \<Longrightarrow>
     i \<le> j \<and> j < i + length ws \<and> w = ws ! (j - i) \<and> w \<noteq> 0 \<and> (\<forall>k < j - i. ws ! k = 0)"
proof (induction ws arbitrary: i)
  case (Cons v ws)
  show ?case
  proof (cases "v = 0")
    case True
    with Cons.prems have "first_word (Suc i) ws = Some (j, w)" by simp
    note Cons.IH [OF this]
    moreover from this have "j - i = Suc (j - Suc i)" by (elim conjE) linarith
    ultimately show ?thesis using True by (auto simp: less_Suc_eq_0_disj)
  qed (use Cons.prems in auto)
qed simp

lemma first_word_None: "first_word i ws = None \<longleftrightarrow> (\<forall>w \<in> set ws. w = 0)"
  by (induction ws arbitrary: i) auto

lemma bits_lsb:
  assumes "w \<noteq> 0"
  shows "ntz w = int (lsb w)" "bit w (lsb w)" "lsb w < 64" "bit w k \<Longrightarrow> lsb w \<le> k"
  using assms lsb_bit [of w] lsb_le [of w k] bit_imp_le_length [of w "lsb w"]
  by (simp_all add: ntz_bits flip: lsb_Min)

text \<open>The first set bit at or after position \<open>64 * s\<close> of a block, for a search from word \<open>s\<close>.\<close>

lemma first_word_bit:
  assumes "length (bits b) = 4" and "first_word s (drop s (bits b)) = Some (j, w)" and "s \<le> 4"
  shows "s \<le> j \<and> j < 4 \<and> w = bits b ! j \<and> w \<noteq> 0 \<and> has_bit b (j * 64 + lsb w) \<and>
    (\<forall>i. s * 64 \<le> i \<and> i < 256 \<and> has_bit b i \<longrightarrow> j * 64 + lsb w \<le> i)"
proof -
  from first_word_Some [OF assms(2)] assms(1,3)
  have j: "s \<le> j" "j < 4" "w = bits b ! j" "w \<noteq> 0" and z: "\<forall>k < j - s. bits b ! (s + k) = 0"
    by auto
  have "j * 64 + lsb w \<le> i" if "s * 64 \<le> i" "i < 256" "has_bit b i" for i
  proof -
    have "s \<le> i div 64" using that(1) by simp
    have "j \<le> i div 64"
    proof (rule ccontr)
      assume "\<not> j \<le> i div 64"
      with \<open>s \<le> i div 64\<close> z have "bits b ! (i div 64) = 0" by (auto dest: spec [of _ "i div 64 - s"])
      with that(3) show False by (simp add: has_bit_def)
    qed
    moreover have "lsb w \<le> i mod 64" if "j = i div 64"
      using \<open>has_bit b i\<close> that j(3) lsb_le [of w] by (simp add: has_bit_def)
    ultimately show ?thesis
      using bits_lsb(3) [OF j(4)] div_mult_mod_eq [of i 64] by (cases "j = i div 64") linarith+
  qed
  with j bits_lsb(2,3) [OF j(4)] show ?thesis by (simp add: has_bit_word)
qed

lemma block_min_Ok:
  assumes "wf_block b" and "block_set b \<noteq> {}"
  shows "\<exists>b'. block_min take_it b = Ok (Min (block_set b), b') \<and> wf_block b' \<and> offset b' = offset b \<and>
    block_set b' = (if take_it then block_set b - {Min (block_set b)} else block_set b)"
proof -
  have l: "length (bits b) = 4" using assms(1) by (rule wf_blockD)
  from assms l have "first_word 0 (bits b) \<noteq> None"
    by (simp add: first_word_None block_set_empty_iff)
  then obtain j w where f: "first_word 0 (drop 0 (bits b)) = Some (j, w)" by auto
  from first_word_bit [OF l f] have j: "j < 4" "w = bits b ! j" "w \<noteq> 0" "has_bit b (j * 64 + lsb w)"
    and least: "\<And>i. i < 256 \<Longrightarrow> has_bit b i \<Longrightarrow> j * 64 + lsb w \<le> i" by auto
  define i where "i = j * 64 + lsb w"
  have i: "i < 256" "i div 64 = j" "i mod 64 = lsb w"
    using j(1) bits_lsb(3) [OF j(3)] by (auto simp: i_def)
  have mn: "Min (block_set b) = offset b + int i"
  proof (rule Min_eqI)
    show "offset b + int i \<in> block_set b"
      using j(4) i(1) unfolding block_set_def by (intro CollectI exI [where x = i]) (simp add: i_def)
    fix x assume "x \<in> block_set b"
    then obtain k where "x = offset b + int k" "k < 256" "has_bit b k" by (auto simp: block_set_def)
    with least [of k] show "offset b + int i \<le> x" by (simp add: i_def flip: of_nat_le_iff)
  qed simp
  let ?c = "b\<lparr>bits := (bits b)[j := w AND NOT (2 ^ lsb w)]\<rparr>"
  have "has_bit ?c k \<longleftrightarrow> (if k = i then False else has_bit b k)" if "k < 256" for k
    unfolding i(2) [symmetric] using l i that j(2)
    by (intro has_bit_update) (auto simp: bit_and_iff bit_not_iff bit_exp_iff)
  then have "block_set ?c = block_set b - {offset b + int i}"
    using i(1) by (auto simp: block_set_def split: if_splits)
  moreover have "wf_block ?c" using assms(1) by (simp add: wf_block_def)
  ultimately show ?thesis
    using f mn assms(1) bits_lsb(1) [OF j(3)]
    by (auto simp: block_min_def size_defs Let_def i_def)
qed

lemma block_lowerBound_spec:
  assumes "wf_block b" and "i < 256"
  shows "block_lowerBound b i =
    (let up = {x \<in> block_set b. offset b + int i \<le> x} in if up = {} then None else Some (Min up))"
proof -
  have l: "length (bits b) = 4" using assms(1) by (rule wf_blockD)
  let ?w = "i div 64" and ?v = "drop_bit (i mod 64) (bits b ! (i div 64))"
  define up where "up = {x \<in> block_set b. offset b + int i \<le> x}"
  have up: "up = {offset b + int k | k. i \<le> k \<and> k < 256 \<and> has_bit b k}"
    by (auto simp: up_def block_set_def)
  have fin: "finite up" by (simp add: up_def)
  have Some_up: "Some (Min up) = Some (offset b + int k)"
    if "i \<le> k" "k < 256" "has_bit b k" "\<And>j. i \<le> j \<Longrightarrow> j < 256 \<Longrightarrow> has_bit b j \<Longrightarrow> k \<le> j" for k
    using that fin unfolding up by (subst Min_eqI [where x = "offset b + int k"]) auto
  have up_has: "i \<le> k \<Longrightarrow> k < 256 \<Longrightarrow> has_bit b k \<Longrightarrow> up \<noteq> {}" for k unfolding up by blast
  have "block_lowerBound b i = (if up = {} then None else Some (Min up))"
  proof (cases "?v = 0")
    case False
    let ?k = "i + lsb ?v"
    have v: "bit (bits b ! ?w) (i mod 64 + lsb ?v)"
      using bits_lsb(2) [OF False] by (simp add: bit_drop_bit_eq)
    then have lt: "i mod 64 + lsb ?v < 64" using bit_imp_le_length by fastforce
    have k: "?k = ?w * 64 + (i mod 64 + lsb ?v)" by simp
    have "has_bit b ?k" unfolding k using v lt by (simp only: has_bit_word)
    moreover have "i \<le> ?k" by simp
    moreover have "?k < 256"
    proof -
      have "?w \<le> 3" using assms(2) by simp
      with lt k show ?thesis by linarith
    qed
    moreover have "?k \<le> j" if "i \<le> j" "j < 256" "has_bit b j" for j
    proof (cases "j div 64 = ?w")
      case True
      then have "i mod 64 \<le> j mod 64" using that(1) by (metis div_mult_mod_eq nat_add_left_cancel_le)
      moreover from that(3) True have "bit ?v (j mod 64 - i mod 64)"
        using calculation by (simp add: has_bit_def bit_drop_bit_eq)
      then have "lsb ?v \<le> j mod 64 - i mod 64" by (rule lsb_le)
      ultimately show ?thesis using True k by (metis (no_types) add.commute add_le_mono1
        div_mult_mod_eq le_diff_conv2 mult.commute nat_add_left_cancel_le)
    next
      case False
      with that(1) have "?w < j div 64" using div_le_mono [of i j 64] by simp
      then show ?thesis
        using lt div_mult_mod_eq [of i 64] div_mult_mod_eq [of j 64] by linarith
    qed
    ultimately have "Some (Min up) = Some (offset b + int ?k)" and "up \<noteq> {}"
      using Some_up [of ?k] up_has [of ?k] by blast+
    with False bits_lsb(1) [OF False] show ?thesis
      by (simp add: block_lowerBound_def Let_def size_defs)
  next
    case True
    have no: "\<not> has_bit b k" if "i \<le> k" "k < Suc ?w * 64" for k
    proof
      assume h: "has_bit b k"
      have w: "k div 64 = ?w"
        using div_le_mono [OF that(1), of 64] less_mult_imp_div_less [OF that(2)] by simp
      then have "i mod 64 \<le> k mod 64" using that(1) by (metis div_mult_mod_eq nat_add_left_cancel_le)
      with h w have "bit ?v (k mod 64 - i mod 64)" by (simp add: has_bit_def bit_drop_bit_eq)
      with True show False by simp
    qed
    show ?thesis
    proof (cases "first_word (Suc ?w) (drop (Suc ?w) (bits b))")
      case None
      have "\<not> has_bit b k" if "i \<le> k" "k < 256" for k
      proof (cases "k < Suc ?w * 64")
        case False
        then have "Suc ?w \<le> k div 64" by simp
        moreover have "k div 64 < 4" using that by simp
        ultimately have "bits b ! (k div 64) \<in> set (drop (Suc ?w) (bits b))"
          using l by (auto simp: in_set_conv_nth intro!: exI [where x = "k div 64 - Suc ?w"])
        with None have "bits b ! (k div 64) = 0" by (simp add: first_word_None)
        then show ?thesis by (simp add: has_bit_def)
      qed (use that no in blast)
      then have "up = {}" by (auto simp: up)
      with True None show ?thesis
        by (simp add: block_lowerBound_def Let_def size_defs)
    next
      case (Some jw)
      then obtain j w where f: "first_word (Suc ?w) (drop (Suc ?w) (bits b)) = Some (j, w)"
        by (cases jw) auto
      have "Suc ?w \<le> 4" using assms(2) by simp
      from first_word_bit [OF l f this]
      have j: "Suc ?w \<le> j" "j < 4" "w \<noteq> 0" "has_bit b (j * 64 + lsb w)"
        and least: "\<And>k. Suc ?w * 64 \<le> k \<Longrightarrow> k < 256 \<Longrightarrow> has_bit b k \<Longrightarrow> j * 64 + lsb w \<le> k" by auto
      have lt: "j * 64 + lsb w < 256" using j(2) bits_lsb(3) [OF j(3)] by linarith
      moreover have "i \<le> j * 64 + lsb w" using j(1) by linarith
      moreover have "j * 64 + lsb w \<le> k" if "i \<le> k" "k < 256" "has_bit b k" for k
        using that least no by (meson not_le)
      ultimately have "Some (Min up) = Some (offset b + int (j * 64 + lsb w))" and "up \<noteq> {}"
        using Some_up [of "j * 64 + lsb w"] up_has [of "j * 64 + lsb w"] j(4) by blast+
      with True f bits_lsb(1) [OF j(3)] show ?thesis
        by (simp add: block_lowerBound_def Let_def size_defs)
    qed
  qed
  then show ?thesis by (simp add: up_def Let_def)
qed

lemma wrap64_range: "MinInt \<le> i \<Longrightarrow> i \<le> MaxInt \<Longrightarrow> wrap64 i = i"
  by (simp add: wrap64_def MinInt_def MaxInt_def)

lemma wrap64_add: "wrap64 (wrap64 a + b) = wrap64 (a + b)"
proof -
  have "(wrap64 a + b + 2 ^ 63) mod 2 ^ 64 = ((a + 2 ^ 63) mod 2 ^ 64 + b) mod 2 ^ 64"
    by (simp add: wrap64_def)
  also have "\<dots> = (a + 2 ^ 63 + b) mod 2 ^ 64" by (rule mod_add_left_eq)
  also have "a + 2 ^ 63 + b = a + b + 2 ^ 63" by simp
  finally show ?thesis unfolding wrap64_def [of "wrap64 a + b"] wrap64_def [of "a + b"] by (rule arg_cong)
qed

text \<open>The elements of a list of words, and \<open>max\<close> on them; their range must fit into an \<open>int\<close>.\<close>

definition words_on :: "int \<Rightarrow> 64 word list \<Rightarrow> int set" where
  "words_on off us = {off + int (j * 64 + k) | j k. j < length us \<and> bit (us ! j) k}"

lemma max_loop_spec:
  assumes "MinInt \<le> off" and "off + int (length ws * 64) - 1 \<le> MaxInt"
  shows "max_loop (wrap64 (off + int (length ws * 64))) (rev ws) =
    (if \<forall>w \<in> set ws. w = 0 then Panic (ExplicitPanic ''BUG: empty block'')
     else Ok (Max (words_on off ws)))"
  using assms(2)
proof (induction ws rule: rev_induct)
  case (snoc w ws)
  let ?on = "words_on off"
  have step: "?on (ws @ [w]) = ?on ws \<union> (\<lambda>k. off + int (length ws * 64 + k)) ` bits_of w"
  proof (intro set_eqI iffI)
    fix x assume "x \<in> ?on (ws @ [w])"
    then obtain j k where x: "x = off + int (j * 64 + k)" "j < Suc (length ws)"
      "bit ((ws @ [w]) ! j) k" unfolding words_on_def by auto
    show "x \<in> ?on ws \<union> (\<lambda>k. off + int (length ws * 64 + k)) ` bits_of w"
    proof (cases "j < length ws")
      case True
      with x(3) have "bit (ws ! j) k" by (simp add: nth_append)
      with x(1) True show ?thesis unfolding words_on_def by blast
    next
      case False
      with x(2,3) have "j = length ws" "k \<in> bits_of w" by (auto simp: nth_append bits_of_iff)
      with x(1) show ?thesis by blast
    qed
  next
    fix x assume "x \<in> ?on ws \<union> (\<lambda>k. off + int (length ws * 64 + k)) ` bits_of w"
    then consider j k where "x = off + int (j * 64 + k)" "j < length ws" "bit (ws ! j) k"
      | k where "x = off + int (length ws * 64 + k)" "bit w k"
      unfolding words_on_def by (auto simp: bits_of_iff)
    then show "x \<in> ?on (ws @ [w])"
    proof cases
      case 1
      then show ?thesis unfolding words_on_def by (intro CollectI exI conjI) (auto simp: nth_append)
    next
      case 2
      then show ?thesis unfolding words_on_def by (intro CollectI exI conjI) (auto simp: nth_append)
    qed
  qed
  have fin: "finite (?on us)" for us
  proof -
    have "?on us = (\<Union>j < length us. (\<lambda>k. off + int (j * 64 + k)) ` bits_of (us ! j))"
      unfolding words_on_def using bits_of_iff by blast
    then show ?thesis by simp
  qed
  have below: "x < off + int (length ws * 64)" if "x \<in> ?on ws" for x
  proof -
    from that obtain j k where x: "x = off + int (j * 64 + k)" "j < length ws" "bit (ws ! j) k"
      by (auto simp: words_on_def)
    have "k < 64" using bit_imp_le_length [OF x(3)] by simp
    with x(2) have "j * 64 + k < length ws * 64" by linarith
    with x(1) show ?thesis by linarith
  qed
  show ?case
  proof (cases "w = 0")
    case True
    then have "bits_of w = {}" by (simp add: bits_of_eq_empty)
    with step have "?on (ws @ [w]) = ?on ws" by simp
    moreover have "wrap64 (wrap64 (off + int (length (ws @ [w]) * 64)) - 64) =
        wrap64 (off + int (length ws * 64))"
      using wrap64_add [of "off + int (length (ws @ [w]) * 64)" "- 64"] by simp
    ultimately show ?thesis
      using snoc True by (simp add: size_defs)
  next
    case False
    let ?m = "Max (bits_of w)"
    have m: "?m \<in> bits_of w" using False by (simp add: bits_of_eq_empty)
    then have lt: "?m < 64" by (simp add: bits_of_def)
    have "Max (?on (ws @ [w])) = off + int (length ws * 64 + ?m)"
    proof (rule Max_eqI)
      show "off + int (length ws * 64 + ?m) \<in> ?on (ws @ [w])" using m step by blast
      fix x assume "x \<in> ?on (ws @ [w])"
      then consider "x \<in> ?on ws" | k where "k \<in> bits_of w" "x = off + int (length ws * 64 + k)"
        using step by blast
      then show "x \<le> off + int (length ws * 64 + ?m)"
      proof cases
        case 1
        with below [of x] show ?thesis by simp
      next
        case 2
        then have "k \<le> ?m" by (intro Max_ge) simp_all
        with 2 show ?thesis by simp
      qed
    qed (rule fin)
    moreover have "wrap64 (wrap64 (off + int (length (ws @ [w]) * 64)) - nlz w - 1) =
        off + int (length ws * 64 + ?m)"
      using wrap64_add [of "off + int (length (ws @ [w]) * 64)" "- nlz w - 1"] snoc.prems assms(1) lt
        wrap64_range [of "off + int (length ws * 64 + ?m)"]
      by (simp add: nlz_bits [OF False] algebra_simps)
    ultimately show ?thesis using False by simp
  qed
qed simp

lemma block_max_Ok:
  assumes "wf_block b" and "block_set b \<noteq> {}"
  shows "block_max b = Ok (Max (block_set b))"
proof -
  have l: "length (bits b) = 4" using assms(1) by (rule wf_blockD)
  have "words_on (offset b) (bits b) = block_set b"
    unfolding block_set_words words_on_def l using bits_of_iff by blast
  then show ?thesis
    using max_loop_spec [of "offset b" "bits b"] assms l
    by (auto simp: block_max_def wf_block_def block_set_empty_iff size_defs Let_def)
qed

section \<open>The elements in order\<close>

lemma word_elems_filter:
  "(\<forall>k. bit w k \<longrightarrow> k < n) \<Longrightarrow>
     word_elems n off w = map (\<lambda>k. off + int k) (filter (bit w) [0..<n])"
proof (induction n arbitrary: off w)
  case (Suc n)
  have up: "[0..<Suc n] = 0 # map Suc [0..<n]" by (simp add: map_Suc_upt upt_conv_Cons del: upt_Suc)
  have "word_elems n (off + 1) (drop_bit 1 w) =
      map (\<lambda>k. off + 1 + int k) (filter (bit (drop_bit 1 w)) [0..<n])"
    using Suc.prems by (intro Suc.IH) (auto simp: bit_drop_bit_eq)
  also have "\<dots> = map (\<lambda>k. off + int k) (filter (bit w) (map Suc [0..<n]))"
    by (simp add: filter_map comp_def bit_drop_bit_eq add.assoc)
  finally show ?case
    by (cases "w = 0") (auto simp: up and_one_eq mod_2_eq_odd bit_0 simp del: upt_Suc)
qed simp

lemma word_elems_all: "word_elems 64 off w = map (\<lambda>k. off + int k) (filter (bit w) [0..<64])"
  using bit_imp_le_length [of w] by (intro word_elems_filter) auto

lemma block_elems_eq:
  assumes "wf_block b"
  shows "block_elems b = map (\<lambda>i. offset b + int i) (filter (has_bit b) [0..<256])"
proof -
  have piece: "word_elems 64 (offset b + int (j * 64)) (bits b ! j) =
      map (\<lambda>i. offset b + int i) (filter (has_bit b) [j * 64..<j * 64 + 64])" for j
  proof -
    have "[j * 64..<j * 64 + 64] = map (\<lambda>k. j * 64 + k) [0..<64]" by (simp add: map_add_upt add.commute)
    moreover have "filter (\<lambda>k. has_bit b (j * 64 + k)) [0..<64] = filter (bit (bits b ! j)) [0..<64]"
      by (rule filter_cong) (simp_all add: has_bit_word)
    ultimately show ?thesis
      by (simp add: word_elems_all filter_map comp_def add.assoc)
  qed
  have up: "[0..<256] = [0 * 64..<0 * 64 + 64] @ [1 * 64..<1 * 64 + 64] @ [2 * 64..<2 * 64 + 64] @
      [3 * 64..<3 * 64 + (64 :: nat)]"
    using upt_add_eq_append [of 0 64 192] upt_add_eq_append [of 64 128 128]
      upt_add_eq_append [of 128 192 64] by simp
  have four: "[0..<4 :: nat] = [0, 1, 2, 3]" by (simp add: upt_rec)
  show ?thesis
    unfolding up block_elems_def wf_blockD(1) [OF assms] four bitsPerWord_def
    by (simp only: piece list.map concat.simps filter_append map_append append_Nil2)
qed

lemma block_elems_sorted:
  assumes "wf_block b"
  shows "set (block_elems b) = block_set b \<and> sorted_wrt (<) (block_elems b)"
proof
  show "set (block_elems b) = block_set b"
    by (auto simp: block_elems_eq [OF assms] block_set_def)
  have "sorted_wrt (<) (filter (has_bit b) [0..<256])" by (intro sorted_wrt_filter) simp
  then show "sorted_wrt (<) (block_elems b)"
    by (simp add: block_elems_eq [OF assms] sorted_wrt_map)
qed

end
