(* ===== verification/SparseSet.thy ===== *)
theory SparseSet
  imports SparseBlock GoFmt
begin

text \<open>
  \<open>Sparse\<close> of \<open>container/intsets/sparse.go\<close>. The circular list of blocks is the list of its blocks
  from the root on; the empty set (root offset \<open>MaxInt\<close>, or an uninitialised root) is the empty
  list, and the sentinel \<open>none\<close> is the end of the list. A loop that walks cursors \<open>sb\<close>, \<open>xb\<close>, \<open>yb\<close>
  over sets is a recursion on the blocks from each cursor on; what it returns is the list of \<open>s\<close> from
  \<open>sb\<close> on as the loop leaves it: \<open>next\<close> keeps the block, \<open>insertBlockBefore\<close> conses one,
  \<open>removeBlock\<close> drops it, \<open>discardTail\<close> ends the list. Operations that take two or three sets work on
  a store of set variables, since they test their pointers for equality.
\<close>

type_synonym sparse = "block list"

section \<open>Queries\<close>

definition IsEmpty :: "sparse \<Rightarrow> bool" where
  "IsEmpty s = (s = [])"

definition Len :: "sparse \<Rightarrow> int" where
  "Len s = sum_list (map block_len s)"

definition set_Max :: "sparse \<Rightarrow> int res" where
  "set_Max s = (if IsEmpty s then Ok MinInt else block_max (last s))"

definition set_Min :: "sparse \<Rightarrow> int res" where
  "set_Min s = (if IsEmpty s then Ok MaxInt else bindR (block_min False (hd s)) (\<lambda>(m, _). Ok m))"

fun lowerBound_loop :: "int \<Rightarrow> nat \<Rightarrow> block list \<Rightarrow> int res" where
  "lowerBound_loop off i [] = Ok MaxInt"
| "lowerBound_loop off i (b # bs) =
     (if offset b > off then bindR (block_min False b) (\<lambda>(m, _). Ok m)
      else if offset b = off then
        (case block_lowerBound b i of Some y \<Rightarrow> Ok y | None \<Rightarrow> lowerBound_loop off i bs)
      else lowerBound_loop off i bs)"

definition LowerBound :: "sparse \<Rightarrow> int \<Rightarrow> int res" where
  "LowerBound s x = (case offsetAndBitIndex x of (off, i) \<Rightarrow> lowerBound_loop off i s)"

text \<open>\<open>block\<close> returns a pointer: the position of the block in the list.\<close>

fun block_at :: "int \<Rightarrow> block list \<Rightarrow> nat option" where
  "block_at off [] = None"
| "block_at off (b # bs) =
     (if offset b \<le> off then
        (if offset b = off then Some 0
         else case block_at off bs of None \<Rightarrow> None | Some k \<Rightarrow> Some (Suc k))
      else None)"

definition Has :: "sparse \<Rightarrow> int \<Rightarrow> bool" where
  "Has s x = (case offsetAndBitIndex x of (off, i) \<Rightarrow>
     (case block_at off s of Some k \<Rightarrow> block_has (s ! k) i | None \<Rightarrow> False))"

section \<open>Single elements\<close>

fun insert_loop :: "int \<Rightarrow> nat \<Rightarrow> block list \<Rightarrow> bool \<times> block list" where
  "insert_loop off i [] = (case block_insert (new_block\<lparr>offset := off\<rparr>) i of (r, b) \<Rightarrow> (r, [b]))"
| "insert_loop off i (b # bs) =
     (if offset b \<le> off then
        (if offset b = off then (case block_insert b i of (r, b') \<Rightarrow> (r, b' # bs))
         else (case insert_loop off i bs of (r, bs') \<Rightarrow> (r, b # bs')))
      else (case block_insert (new_block\<lparr>offset := off\<rparr>) i of (r, n) \<Rightarrow> (r, n # b # bs)))"

definition set_Insert :: "sparse \<Rightarrow> int \<Rightarrow> bool \<times> sparse" where
  "set_Insert s x = (case offsetAndBitIndex x of (off, i) \<Rightarrow> insert_loop off i s)"

definition removeBlock :: "sparse \<Rightarrow> nat \<Rightarrow> sparse" where
  "removeBlock s k = take k s @ drop (Suc k) s"

definition set_Remove :: "sparse \<Rightarrow> int \<Rightarrow> bool \<times> sparse" where
  "set_Remove s x = (case offsetAndBitIndex x of (off, i) \<Rightarrow>
     (case block_at off s of None \<Rightarrow> (False, s)
      | Some k \<Rightarrow> (case block_remove (s ! k) i of (gone, b) \<Rightarrow>
          if \<not> gone then (False, s)
          else if block_empty b then (True, removeBlock s k) else (True, s[k := b]))))"

definition Clear :: sparse where
  "Clear = []"

text \<open>\<open>TakeMin\<close>: \<open>None\<close> when the set is empty.\<close>

definition TakeMin :: "sparse \<Rightarrow> (int \<times> sparse) option res" where
  "TakeMin s = (if IsEmpty s then Ok None
     else bindR (block_min True (hd s)) (\<lambda>(m, b).
       Ok (Some (m, if block_empty b then removeBlock s 0 else s[0 := b]))))"

section \<open>Loops of the set operations\<close>

text \<open>
  \<open>cell sb\<close> is the block to write to: the current block of \<open>s\<close>, or a new one at the end. \<open>or_all\<close>
  is the variable \<open>sum\<close>.
\<close>

definition cell :: "block list \<Rightarrow> block" where
  "cell sb = (case sb of [] \<Rightarrow> new_block | b # _ \<Rightarrow> b)"

definition or_all :: "64 word list \<Rightarrow> 64 word" where
  "or_all ws = fold (\<lambda>r sum. sum OR r) ws 0"

definition copy_to :: "block \<Rightarrow> block \<Rightarrow> block" where
  "copy_to b x = b\<lparr>offset := offset x, bits := bits x\<rparr>"

fun copy_loop :: "block list \<Rightarrow> block list \<Rightarrow> block list" where
  "copy_loop [] sb = []"
| "copy_loop (x # xs) sb = copy_to (cell sb) x # copy_loop xs (tl sb)"

fun inter_with :: "block list \<Rightarrow> block list \<Rightarrow> block list" where
  "inter_with [] xb = []"
| "inter_with (b # sb) [] = []"
| "inter_with (b # sb) (x # xs) =
     (if offset x < offset b then inter_with (b # sb) xs
      else if offset x > offset b then inter_with sb (x # xs)
      else let b' = b\<lparr>bits := zip_bits (AND) x b\<rparr> in
        if or_all (bits b') \<noteq> 0 then b' # inter_with sb xs else inter_with (b' # sb) xs)"

fun inter_loop :: "block list \<Rightarrow> block list \<Rightarrow> block list \<Rightarrow> block list" where
  "inter_loop (x # xs) (y # ys) sb =
     (if offset x < offset y then inter_loop xs (y # ys) sb
      else if offset x > offset y then inter_loop (x # xs) ys sb
      else let c = (cell sb)\<lparr>offset := offset x, bits := zip_bits (AND) x y\<rparr> in
        if or_all (bits c) \<noteq> 0 then c # inter_loop xs ys (tl sb)
        else inter_loop xs ys (c # tl sb))"
| "inter_loop xb yb sb = []"

fun intersects :: "block list \<Rightarrow> block list \<Rightarrow> bool" where
  "intersects (b # sb) (x # xs) =
     (if offset x < offset b then intersects (b # sb) xs
      else if offset x > offset b then intersects sb (x # xs)
      else if list_ex (\<lambda>w. w \<noteq> 0) (zip_bits (AND) b x) then True
      else intersects sb xs)"
| "intersects sb xb = False"

fun union_with :: "block list \<Rightarrow> block list \<Rightarrow> bool \<times> block list" where
  "union_with sb [] = (False, sb)"
| "union_with [] (x # xs) =
     (case union_with [] xs of (_, rest) \<Rightarrow> (True, copy_to new_block x # rest))"
| "union_with (b # sb) (x # xs) =
     (if offset b = offset x then
        (case union_with sb xs of (changed, rest) \<Rightarrow>
           (list_ex (\<lambda>(v, w). v \<noteq> w) (zip (bits b) (bits x)) \<or> changed,
            b\<lparr>bits := zip_bits (\<lambda>v w. if v \<noteq> w then v OR w else v) b x\<rparr> # rest))
      else if offset b > offset x then
        (case union_with (b # sb) xs of (_, rest) \<Rightarrow> (True, copy_to new_block x # rest))
      else (case union_with sb (x # xs) of (changed, rest) \<Rightarrow> (changed, b # rest)))"

fun union_loop :: "block list \<Rightarrow> block list \<Rightarrow> block list \<Rightarrow> block list" where
  "union_loop [] [] sb = []"
| "union_loop (x # xs) [] sb = copy_to (cell sb) x # union_loop xs [] (tl sb)"
| "union_loop [] (y # ys) sb = copy_to (cell sb) y # union_loop [] ys (tl sb)"
| "union_loop (x # xs) (y # ys) sb =
     (if offset x < offset y then copy_to (cell sb) x # union_loop xs (y # ys) (tl sb)
      else if offset y < offset x then copy_to (cell sb) y # union_loop (x # xs) ys (tl sb)
      else (cell sb)\<lparr>offset := offset x, bits := zip_bits (OR) x y\<rparr> # union_loop xs ys (tl sb))"

fun diff_with :: "block list \<Rightarrow> block list \<Rightarrow> block list" where
  "diff_with [] xb = []"
| "diff_with (b # sb) [] = b # sb"
| "diff_with (b # sb) (x # xs) =
     (if offset x > offset b then b # diff_with sb (x # xs)
      else if offset x < offset b then diff_with (b # sb) xs
      else let b' = b\<lparr>bits := zip_bits (\<lambda>v w. v AND NOT w) b x\<rparr> in
        if or_all (bits b') = 0 then diff_with sb xs else b' # diff_with sb xs)"

fun diff_loop :: "block list \<Rightarrow> block list \<Rightarrow> block list \<Rightarrow> block list" where
  "diff_loop [] yb sb = []"
| "diff_loop (x # xs) [] sb = copy_to (cell sb) x # diff_loop xs [] (tl sb)"
| "diff_loop (x # xs) (y # ys) sb =
     (if offset x > offset y then diff_loop (x # xs) ys sb
      else if offset x < offset y then copy_to (cell sb) x # diff_loop xs (y # ys) (tl sb)
      else let c = (cell sb)\<lparr>offset := offset x, bits := zip_bits (\<lambda>v w. v AND NOT w) x y\<rparr> in
        if or_all (bits c) \<noteq> 0 then c # diff_loop xs ys (tl sb)
        else diff_loop xs ys (c # tl sb))"

fun symdiff_with :: "block list \<Rightarrow> block list \<Rightarrow> block list" where
  "symdiff_with sb [] = sb"
| "symdiff_with [] (x # xs) = copy_to new_block x # symdiff_with [] xs"
| "symdiff_with (b # sb) (x # xs) =
     (if offset b < offset x then b # symdiff_with sb (x # xs)
      else if offset x < offset b then copy_to new_block x # symdiff_with (b # sb) xs
      else let b' = b\<lparr>bits := zip_bits (XOR) b x\<rparr> in
        if or_all (bits b') = 0 then symdiff_with sb xs else b' # symdiff_with sb xs)"

fun symdiff_loop :: "block list \<Rightarrow> block list \<Rightarrow> block list \<Rightarrow> block list" where
  "symdiff_loop [] [] sb = []"
| "symdiff_loop (x # xs) [] sb = copy_to (cell sb) x # symdiff_loop xs [] (tl sb)"
| "symdiff_loop [] (y # ys) sb = copy_to (cell sb) y # symdiff_loop [] ys (tl sb)"
| "symdiff_loop (x # xs) (y # ys) sb =
     (if offset y < offset x then copy_to (cell sb) y # symdiff_loop (x # xs) ys (tl sb)
      else if offset x < offset y then copy_to (cell sb) x # symdiff_loop xs (y # ys) (tl sb)
      else let c = (cell sb)\<lparr>bits := zip_bits (XOR) x y\<rparr> in
        if or_all (bits c) \<noteq> 0 then c\<lparr>offset := offset x\<rparr> # symdiff_loop xs ys (tl sb)
        else symdiff_loop xs ys (c # tl sb))"

fun subset_of :: "block list \<Rightarrow> block list \<Rightarrow> bool" where
  "subset_of [] xb = True"
| "subset_of (b # sb) [] = False"
| "subset_of (b # sb) (x # xs) =
     (if offset x > offset b then False
      else if offset x < offset b then subset_of (b # sb) xs
      else if list_ex (\<lambda>w. w \<noteq> 0) (zip_bits (\<lambda>v w. v AND NOT w) b x) then False
      else subset_of sb xs)"

fun equals_loop :: "block list \<Rightarrow> block list \<Rightarrow> bool" where
  "equals_loop [] [] = True"
| "equals_loop (b # sb) (t # tb) =
     (if offset b \<noteq> offset t then False else if bits b \<noteq> bits t then False else equals_loop sb tb)"
| "equals_loop sb tb = False"

section \<open>The operations on set variables\<close>

type_synonym store = "nat \<Rightarrow> sparse"

definition Copy :: "store \<Rightarrow> nat \<Rightarrow> nat \<Rightarrow> store" where
  "Copy st s x = (if s = x then st else st(s := copy_loop (st x) (st s)))"

definition IntersectionWith :: "store \<Rightarrow> nat \<Rightarrow> nat \<Rightarrow> store" where
  "IntersectionWith st s x = (if s = x then st else st(s := inter_with (st s) (st x)))"

definition Intersection :: "store \<Rightarrow> nat \<Rightarrow> nat \<Rightarrow> nat \<Rightarrow> store" where
  "Intersection st s x y =
     (if s = x then IntersectionWith st s y
      else if s = y then IntersectionWith st s x
      else if x = y then Copy st s x
      else st(s := inter_loop (st x) (st y) (st s)))"

definition Intersects :: "store \<Rightarrow> nat \<Rightarrow> nat \<Rightarrow> bool" where
  "Intersects st s x = intersects (st s) (st x)"

definition UnionWith :: "store \<Rightarrow> nat \<Rightarrow> nat \<Rightarrow> bool \<times> store" where
  "UnionWith st s x =
     (if s = x then (False, st)
      else case union_with (st s) (st x) of (changed, r) \<Rightarrow> (changed, st(s := r)))"

definition Union :: "store \<Rightarrow> nat \<Rightarrow> nat \<Rightarrow> nat \<Rightarrow> store" where
  "Union st s x y =
     (if x = y then Copy st s x
      else if s = x then snd (UnionWith st s y)
      else if s = y then snd (UnionWith st s x)
      else st(s := union_loop (st x) (st y) (st s)))"

definition DifferenceWith :: "store \<Rightarrow> nat \<Rightarrow> nat \<Rightarrow> store" where
  "DifferenceWith st s x = (if s = x then st(s := Clear) else st(s := diff_with (st s) (st x)))"

text \<open>In the case \<open>s == y\<close> the loop reads a copy \<open>y2\<close> of \<open>y\<close>.\<close>

definition Difference :: "store \<Rightarrow> nat \<Rightarrow> nat \<Rightarrow> nat \<Rightarrow> store" where
  "Difference st s x y =
     (if x = y then st(s := Clear)
      else if s = x then DifferenceWith st s y
      else if s = y then st(s := diff_loop (st x) (copy_loop (st y) []) (st s))
      else st(s := diff_loop (st x) (st y) (st s)))"

definition SymmetricDifferenceWith :: "store \<Rightarrow> nat \<Rightarrow> nat \<Rightarrow> store" where
  "SymmetricDifferenceWith st s x =
     (if s = x then st(s := Clear) else st(s := symdiff_with (st s) (st x)))"

definition SymmetricDifference :: "store \<Rightarrow> nat \<Rightarrow> nat \<Rightarrow> nat \<Rightarrow> store" where
  "SymmetricDifference st s x y =
     (if x = y then st(s := Clear)
      else if s = x then SymmetricDifferenceWith st s y
      else if s = y then SymmetricDifferenceWith st s x
      else st(s := symdiff_loop (st x) (st y) (st s)))"

definition SubsetOf :: "store \<Rightarrow> nat \<Rightarrow> nat \<Rightarrow> bool" where
  "SubsetOf st s x = (if s = x then True else subset_of (st s) (st x))"

definition Equals :: "store \<Rightarrow> nat \<Rightarrow> nat \<Rightarrow> bool" where
  "Equals st s t = (if s = t then True else equals_loop (st s) (st t))"

section \<open>Elements in order, printing\<close>

text \<open>The elements in the order in which \<open>forEach\<close> passes them to its function.\<close>

definition forEach :: "sparse \<Rightarrow> int list" where
  "forEach s = concat (map block_elems s)"

definition AppendTo :: "sparse \<Rightarrow> int list \<Rightarrow> int list" where
  "AppendTo s sl0 = fold (\<lambda>x sl. sl @ [x]) (forEach s) sl0"

definition set_String :: "sparse \<Rightarrow> string" where
  "set_String s =
     fold (\<lambda>x buf. (if length buf > 1 then buf @ '' '' else buf) @ itoa x) (forEach s) ''{'' @ ''}''"

definition BitString :: "sparse \<Rightarrow> string res" where
  "BitString s =
     (if IsEmpty s then Ok ''0''
      else bindR (set_Min s) (\<lambda>mn. bindR (set_Max s) (\<lambda>mx.
        let nbytes = (if mx > 0 then mx else 0) + 1; radix = nbytes;
            nbytes = (if mn < 0 then nbytes + (1 - mn) else nbytes);
            b = replicate (nat nbytes) CHR ''0''
        in bindR (if radix < nbytes then slice_set b radix CHR ''.'' else Ok b) (\<lambda>b.
           loopR (\<lambda>x b. slice_set b (radix - (if x \<ge> 0 then x + 1 else x)) CHR ''1'') (forEach s) b))))"

end
