(* ===== verification/SparseProps.thy ===== *)
theory SparseProps
  imports SparseSet
begin

text \<open>
  What the operations of \<open>Sparse\<close> compute, for sets that satisfy the representation invariant
  \<open>wf_sparse\<close>: the blocks are ordered by offset, aligned, within the range of \<open>int\<close>, and none is
  empty. \<open>elems\<close> is the abstract set.
\<close>

section \<open>The invariant and the abstract set\<close>

definition ordered :: "block list \<Rightarrow> bool" where
  "ordered bs \<longleftrightarrow> sorted_wrt (\<lambda>b c. offset b < offset c) bs \<and> (\<forall>b \<in> set bs. wf_block b)"

definition wf_sparse :: "sparse \<Rightarrow> bool" where
  "wf_sparse s \<longleftrightarrow> ordered s \<and> (\<forall>b \<in> set s. block_set b \<noteq> {})"

definition elems :: "sparse \<Rightarrow> int set" where
  "elems s = \<Union> (block_set ` set s)"

lemma ordered_simps [simp]:
  "ordered []" "ordered (b # bs) \<longleftrightarrow> wf_block b \<and> (\<forall>c \<in> set bs. offset b < offset c) \<and> ordered bs"
  by (auto simp: ordered_def)

lemma wf_sparse_simps [simp]:
  "wf_sparse []"
  "wf_sparse (b # bs) \<longleftrightarrow> wf_block b \<and> block_set b \<noteq> {} \<and> (\<forall>c \<in> set bs. offset b < offset c) \<and>
     wf_sparse bs"
  by (auto simp: wf_sparse_def)

lemma elems_simps [simp]: "elems [] = {}" "elems (b # bs) = block_set b \<union> elems bs"
  by (simp_all add: elems_def)

lemma wf_sparse_ordered: "wf_sparse s \<Longrightarrow> ordered s"
  by (simp add: wf_sparse_def)

lemma finite_elems [simp]: "finite (elems s)"
  by (simp add: elems_def)

lemma apart:
  assumes "wf_block x" and "ordered bs" and "\<forall>c \<in> set bs. offset c \<noteq> offset x"
  shows "block_set x \<inter> elems bs = {}"
proof -
  have "block_set x \<inter> block_set c = {}" if "c \<in> set bs" for c
  proof (rule block_sets_disjoint [OF assms(1)])
    show "wf_block c" using assms(2) that by (simp add: ordered_def)
    show "offset x \<noteq> offset c" using assms(3) that by metis
  qed
  then show ?thesis by (auto simp: elems_def)
qed

lemma before_apart:
  "wf_block x \<Longrightarrow> ordered bs \<Longrightarrow> \<forall>c \<in> set bs. offset x < offset c \<Longrightarrow> block_set x \<inter> elems bs = {}"
  by (rule apart) auto

text \<open>Cursors \<open>b # sb\<close> and \<open>x # xs\<close>: where the blocks cannot share elements.\<close>

lemma cursors_less:
  "ordered (b # sb) \<Longrightarrow> wf_block x \<Longrightarrow> offset x < offset b \<Longrightarrow> block_set x \<inter> elems (b # sb) = {}"
  by (rule before_apart) auto

lemma cursors_equal:
  "ordered (b # sb) \<Longrightarrow> wf_block x \<Longrightarrow> offset x = offset b \<Longrightarrow> block_set x \<inter> elems sb = {}"
  by (rule before_apart) auto

text \<open>What a loop returns: a well-formed list with offsets among \<open>K\<close> and elements \<open>S\<close>.\<close>

definition result :: "block list \<Rightarrow> int set \<Rightarrow> int set \<Rightarrow> bool" where
  "result R K S \<longleftrightarrow> wf_sparse R \<and> offset ` set R \<subseteq> K \<and> elems R = S"

lemma result_Nil: "S = {} \<Longrightarrow> result [] K S"
  by (simp add: result_def)

lemma result_Cons:
  assumes "result R K' S'" and "wf_block c" and "block_set c \<noteq> {}" and "\<forall>k \<in> K'. offset c < k"
    and "K' \<subseteq> K" and "offset c \<in> K" and "S = block_set c \<union> S'"
  shows "result (c # R) K S"
  using assms by (auto simp: result_def)

lemma result_weaken: "result R K' S' \<Longrightarrow> K' \<subseteq> K \<Longrightarrow> S = S' \<Longrightarrow> result R K S"
  by (auto simp: result_def)

lemma result_self: "wf_sparse bs \<Longrightarrow> offset ` set bs \<subseteq> K \<Longrightarrow> S = elems bs \<Longrightarrow> result bs K S"
  by (simp add: result_def)

abbreviation offs :: "block list \<Rightarrow> int set" where
  "offs bs \<equiv> offset ` set bs"

section \<open>Writing blocks\<close>

lemma copy_to_eq [simp]: "copy_to b x = x"
  by (simp add: copy_to_def)

lemma cell_write [simp]: "(c :: block)\<lparr>offset := offset x, bits := w\<rparr> = x\<lparr>bits := w\<rparr>"
  by (cases c; cases x) simp

lemma cell_write' [simp]: "(c :: block)\<lparr>bits := w, offset := offset x\<rparr> = x\<lparr>bits := w\<rparr>"
  by (cases c; cases x) simp

lemma word_or_zero: "(v :: 64 word) OR w = 0 \<longleftrightarrow> v = 0 \<and> w = 0"
  by (simp flip: bits_of_eq_empty add: bits_of_or)

lemma or_all_zero: "or_all ws = 0 \<longleftrightarrow> (\<forall>w \<in> set ws. w = 0)"
proof -
  have "fold (\<lambda>r sum. sum OR r) ws v = 0 \<longleftrightarrow> v = 0 \<and> (\<forall>w \<in> set ws. w = 0)" for v
    by (induction ws arbitrary: v) (auto simp: word_or_zero)
  then show ?thesis by (simp add: or_all_def)
qed

lemma or_all_set: "wf_block b \<Longrightarrow> or_all (bits b) = 0 \<longleftrightarrow> block_set b = {}"
  by (simp add: or_all_zero block_set_empty_iff wf_blockD)

lemma zip_and_commute: "zip_bits (AND) x b = zip_bits (AND) b x"
proof -
  have "map2 (AND) xs ys = map2 (AND) ys (xs :: 64 word list)" for xs ys
    by (induction xs ys rule: list_induct2') (auto simp: ac_simps)
  then show ?thesis by (simp add: zip_bits_def)
qed

lemma zip_or_cond: "zip_bits (\<lambda>v w. if v \<noteq> w then v OR w else v) b x = zip_bits (OR) b x"
  unfolding zip_bits_def by (rule arg_cong [where f = "\<lambda>f. map2 f (bits b) (bits x)"]) (auto simp: fun_eq_iff)

lemma zip_ex_set:
  assumes "wf_block (b\<lparr>bits := zip_bits f b x\<rparr>)"
  shows "list_ex (\<lambda>w. w \<noteq> 0) (zip_bits f b x) \<longleftrightarrow> block_set (b\<lparr>bits := zip_bits f b x\<rparr>) \<noteq> {}"
  using or_all_set [OF assms] by (auto simp: or_all_zero list_ex_iff)

section \<open>The loops\<close>

lemma inter_with_result:
  "ordered sb \<Longrightarrow> ordered xb \<Longrightarrow> result (inter_with sb xb) (offs sb) (elems sb \<inter> elems xb)"
proof (induction sb xb rule: inter_with.induct)
  case (3 b sb x xs)
  note prems = "3.prems"
  from prems have o: "ordered sb" "ordered xs" "wf_block b" "wf_block x" by auto
  consider "offset x < offset b" | "offset b < offset x" | "offset x = offset b" by linarith
  then show ?case
  proof cases
    case 1
    with "3.IH"(1) prems(1) o(2)
    have "result (inter_with (b # sb) (x # xs)) (offs (b # sb)) (elems (b # sb) \<inter> elems xs)" by simp
    then show ?thesis
      by (rule result_weaken) (use cursors_less [OF prems(1) o(4) 1] in auto)
  next
    case 2
    with "3.IH"(2) prems(2) o(1)
    have "result (inter_with (b # sb) (x # xs)) (offs sb) (elems sb \<inter> elems (x # xs))" by simp
    then show ?thesis
      by (rule result_weaken) (use cursors_less [OF prems(2) o(3) 2] in auto)
  next
    case eq: 3
    let ?b = "b\<lparr>bits := zip_bits (AND) b x\<rparr>"
    from block_and [OF o(3,4)] eq have B: "wf_block ?b" "block_set ?b = block_set b \<inter> block_set x"
      by auto
    note D = cursors_equal [OF prems(1) o(4) eq] cursors_equal [OF prems(2) o(3) eq [symmetric]]
    have S: "elems (b # sb) \<inter> elems (x # xs) = block_set ?b \<union> (elems sb \<inter> elems xs)"
      using B(2) D by auto
    show ?thesis
    proof (cases "block_set ?b = {}")
      case True
      with eq or_all_set [OF B(1)]
      have R: "inter_with (b # sb) (x # xs) = inter_with (?b # sb) xs"
        by (simp add: zip_and_commute Let_def)
      have "ordered (?b # sb)" using prems(1) B(1) by simp
      with o eq True or_all_set [OF B(1)]
      have "result (inter_with (?b # sb) xs) (offs (?b # sb)) (elems (?b # sb) \<inter> elems xs)"
        using "3.IH"(4) by (simp add: zip_and_commute Let_def del: ordered_simps)
      then show ?thesis
        unfolding R S by (rule result_weaken) (use True D in auto)
    next
      case False
      with eq or_all_set [OF B(1)]
      have R: "inter_with (b # sb) (x # xs) = ?b # inter_with sb xs"
        by (simp add: zip_and_commute Let_def)
      from False "3.IH"(3) o eq or_all_set [OF B(1)]
      have "result (inter_with sb xs) (offs sb) (elems sb \<inter> elems xs)"
        by (simp add: zip_and_commute)
      then show ?thesis
        unfolding R S by (rule result_Cons) (use B(1) False prems(1) in auto)
    qed
  qed
qed (auto intro: result_Nil)

lemma inter_loop_result:
  "ordered xb \<Longrightarrow> ordered yb \<Longrightarrow> result (inter_loop xb yb sb) (offs xb) (elems xb \<inter> elems yb)"
proof (induction xb yb sb rule: inter_loop.induct)
  case (1 x xs y ys sb)
  note prems = "1.prems"
  from prems have o: "ordered xs" "ordered ys" "wf_block x" "wf_block y" by auto
  consider "offset x < offset y" | "offset y < offset x" | "offset x = offset y" by linarith
  then show ?case
  proof cases
    case 1
    with "1.IH"(1) prems(2) o(1)
    have "result (inter_loop (x # xs) (y # ys) sb) (offs xs) (elems xs \<inter> elems (y # ys))" by simp
    then show ?thesis
      by (rule result_weaken) (use cursors_less [OF prems(2) o(3) 1] in auto)
  next
    case 2
    with "1.IH"(2) prems(1) o(2)
    have "result (inter_loop (x # xs) (y # ys) sb) (offs (x # xs)) (elems (x # xs) \<inter> elems ys)" by simp
    then show ?thesis
      by (rule result_weaken) (use cursors_less [OF prems(1) o(4) 2] in auto)
  next
    case eq: 3
    let ?c = "x\<lparr>bits := zip_bits (AND) x y\<rparr>"
    from block_and [OF o(3,4) eq] have B: "wf_block ?c" "block_set ?c = block_set x \<inter> block_set y"
      by auto
    note D = cursors_equal [OF prems(1) o(4) eq [symmetric]] cursors_equal [OF prems(2) o(3) eq]
    have S: "elems (x # xs) \<inter> elems (y # ys) = block_set ?c \<union> (elems xs \<inter> elems ys)"
      using B(2) D by auto
    show ?thesis
    proof (cases "block_set ?c = {}")
      case True
      with eq or_all_set [OF B(1)] "1.IH"(4) o
      have "result (inter_loop (x # xs) (y # ys) sb) (offs xs) (elems xs \<inter> elems ys)"
        by (simp add: Let_def)
      then show ?thesis unfolding S by (rule result_weaken) (use True in auto)
    next
      case False
      with eq or_all_set [OF B(1)]
      have R: "inter_loop (x # xs) (y # ys) sb = ?c # inter_loop xs ys (tl sb)"
        by (simp add: Let_def)
      from False "1.IH"(3) o eq or_all_set [OF B(1)]
      have "result (inter_loop xs ys (tl sb)) (offs xs) (elems xs \<inter> elems ys)" by simp
      then show ?thesis
        unfolding R S by (rule result_Cons) (use B(1) False prems(1) in auto)
    qed
  qed
qed (auto intro: result_Nil)

lemma copy_loop_eq [simp]: "copy_loop xs sb = xs"
  by (induction xs sb rule: copy_loop.induct) auto

lemma intersects_iff:
  "ordered sb \<Longrightarrow> ordered xb \<Longrightarrow> intersects sb xb \<longleftrightarrow> elems sb \<inter> elems xb \<noteq> {}"
proof (induction sb xb rule: intersects.induct)
  case (1 b sb x xs)
  note prems = "1.prems"
  from prems have o: "ordered sb" "ordered xs" "wf_block b" "wf_block x" by auto
  consider "offset x < offset b" | "offset b < offset x" | "offset x = offset b" by linarith
  then show ?case
  proof cases
    case 1
    with "1.IH"(1) prems(1) o(2) cursors_less [OF prems(1) o(4) 1] show ?thesis by auto
  next
    case 2
    with "1.IH"(2) prems(2) o(1) cursors_less [OF prems(2) o(3) 2] show ?thesis by auto
  next
    case eq: 3
    let ?b = "b\<lparr>bits := zip_bits (AND) b x\<rparr>"
    from block_and [OF o(3,4)] eq have B: "wf_block ?b" "block_set ?b = block_set b \<inter> block_set x"
      by auto
    note D = cursors_equal [OF prems(1) o(4) eq] cursors_equal [OF prems(2) o(3) eq [symmetric]]
    have S: "elems (b # sb) \<inter> elems (x # xs) = block_set ?b \<union> (elems sb \<inter> elems xs)"
      using B(2) D by auto
    have "intersects (b # sb) (x # xs) \<longleftrightarrow> block_set ?b \<noteq> {} \<or> intersects sb xs"
      using eq zip_ex_set [OF B(1)] by simp
    with "1.IH"(3) o eq zip_ex_set [OF B(1)] show ?thesis unfolding S by auto
  qed
qed auto

lemma wf_union_bits:
  assumes "wf_block b" "wf_block x" "offset b = offset x" "block_set b \<noteq> {}"
  shows "wf_block (b\<lparr>bits := zip_bits (OR) b x\<rparr>) \<and>
    block_set (b\<lparr>bits := zip_bits (OR) b x\<rparr>) = block_set b \<union> block_set x \<and>
    block_set (b\<lparr>bits := zip_bits (OR) b x\<rparr>) \<noteq> {}"
  using block_or [OF assms(1-3)] assms(4) by auto

lemma union_with_result:
  "wf_sparse sb \<Longrightarrow> wf_sparse xb \<Longrightarrow>
     result (snd (union_with sb xb)) (offs sb \<union> offs xb) (elems sb \<union> elems xb)"
proof (induction sb xb rule: union_with.induct)
  case (2 x xs)
  from 2 have "result (snd (union_with [] xs)) (offs xs) (elems xs)" by simp
  then have "result (x # snd (union_with [] xs)) (offs (x # xs)) (elems (x # xs))"
    by (rule result_Cons) (use "2.prems" in auto)
  then show ?case by (simp add: case_prod_beta)
next
  case (3 b sb x xs)
  note prems = "3.prems"
  consider "offset b < offset x" | "offset x < offset b" | "offset b = offset x" by linarith
  then show ?case
  proof cases
    case 1
    with "3.IH"(3) prems
    have "result (snd (union_with sb (x # xs))) (offs sb \<union> offs (x # xs)) (elems sb \<union> elems (x # xs))"
      by simp
    then have "result (b # snd (union_with sb (x # xs))) (offs (b # sb) \<union> offs (x # xs))
        (elems (b # sb) \<union> elems (x # xs))"
      by (rule result_Cons) (use prems 1 in auto)
    with 1 show ?thesis by (simp add: case_prod_beta)
  next
    case 2
    with "3.IH"(2) prems
    have "result (snd (union_with (b # sb) xs)) (offs (b # sb) \<union> offs xs) (elems (b # sb) \<union> elems xs)"
      by simp
    then have "result (x # snd (union_with (b # sb) xs)) (offs (b # sb) \<union> offs (x # xs))
        (elems (b # sb) \<union> elems (x # xs))"
      by (rule result_Cons) (use prems 2 in auto)
    with 2 show ?thesis by (simp add: case_prod_beta)
  next
    case eq: 3
    let ?b = "b\<lparr>bits := zip_bits (OR) b x\<rparr>"
    have B: "wf_block ?b" "block_set ?b = block_set b \<union> block_set x" "block_set ?b \<noteq> {}"
      using wf_union_bits [of b x] prems eq by auto
    from "3.IH"(1) eq prems have "result (snd (union_with sb xs)) (offs sb \<union> offs xs) (elems sb \<union> elems xs)"
      by simp
    then have "result (?b # snd (union_with sb xs)) (offs (b # sb) \<union> offs (x # xs))
        (elems (b # sb) \<union> elems (x # xs))"
      by (rule result_Cons) (use prems eq B in auto)
    with eq show ?thesis by (simp add: zip_or_cond case_prod_beta)
  qed
qed (simp add: result_self)

lemma ex_zip_diff:
  "length vs = length ws \<Longrightarrow> list_ex (\<lambda>(v, w). v \<noteq> w) (zip vs ws) \<longleftrightarrow> vs \<noteq> ws"
  by (induction vs ws rule: list_induct2) auto

text \<open>The flag of \<open>UnionWith\<close>: some block of \<open>x\<close> is not literally a block of \<open>s\<close>.\<close>

lemma union_with_flag:
  "ordered sb \<Longrightarrow> ordered xb \<Longrightarrow> fst (union_with sb xb) \<longleftrightarrow> \<not> set xb \<subseteq> set sb"
proof (induction sb xb rule: union_with.induct)
  case (2 x xs)
  then show ?case by (simp split: prod.splits)
next
  case (3 b sb x xs)
  note prems = "3.prems"
  consider "offset b < offset x" | "offset x < offset b" | "offset b = offset x" by linarith
  then show ?case
  proof cases
    case 1
    then have "b \<notin> set (x # xs)" using prems(2) by auto
    with 1 "3.IH"(3) prems show ?thesis by (auto split: prod.splits)
  next
    case 2
    then have "x \<notin> set (b # sb)" using prems(1) by auto
    with 2 show ?thesis by (auto split: prod.splits)
  next
    case eq: 3
    have l: "length (bits b) = length (bits x)" using prems by (simp add: wf_blockD)
    have "x \<notin> set sb" "b \<notin> set xs" using prems eq by auto
    moreover have "bits b \<noteq> bits x \<longleftrightarrow> b \<noteq> x" using eq by (cases b; cases x) auto
    ultimately show ?thesis
      using eq "3.IH"(1) prems ex_zip_diff [OF l] by (auto split: prod.splits)
  qed
qed auto

lemma union_loop_result:
  "wf_sparse xb \<Longrightarrow> wf_sparse yb \<Longrightarrow>
     result (union_loop xb yb sb) (offs xb \<union> offs yb) (elems xb \<union> elems yb)"
proof (induction xb yb sb rule: union_loop.induct)
  case (2 x xs sb)
  then have "result (union_loop xs [] (tl sb)) (offs xs) (elems xs)" by simp
  then have "result (x # union_loop xs [] (tl sb)) (offs (x # xs)) (elems (x # xs))"
    by (rule result_Cons) (use "2.prems" in auto)
  then show ?case by simp
next
  case (3 y ys sb)
  then have "result (union_loop [] ys (tl sb)) (offs ys) (elems ys)" by simp
  then have "result (y # union_loop [] ys (tl sb)) (offs (y # ys)) (elems (y # ys))"
    by (rule result_Cons) (use "3.prems" in auto)
  then show ?case by simp
next
  case (4 x xs y ys sb)
  note prems = "4.prems"
  consider "offset x < offset y" | "offset y < offset x" | "offset x = offset y" by linarith
  then show ?case
  proof cases
    case 1
    with "4.IH"(1) prems have "result (union_loop xs (y # ys) (tl sb)) (offs xs \<union> offs (y # ys))
        (elems xs \<union> elems (y # ys))" by simp
    then have "result (x # union_loop xs (y # ys) (tl sb)) (offs (x # xs) \<union> offs (y # ys))
        (elems (x # xs) \<union> elems (y # ys))"
      by (rule result_Cons) (use prems 1 in auto)
    with 1 show ?thesis by simp
  next
    case 2
    with "4.IH"(2) prems have "result (union_loop (x # xs) ys (tl sb)) (offs (x # xs) \<union> offs ys)
        (elems (x # xs) \<union> elems ys)" by simp
    then have "result (y # union_loop (x # xs) ys (tl sb)) (offs (x # xs) \<union> offs (y # ys))
        (elems (x # xs) \<union> elems (y # ys))"
      by (rule result_Cons) (use prems 2 in auto)
    with 2 show ?thesis by simp
  next
    case eq: 3
    let ?c = "x\<lparr>bits := zip_bits (OR) x y\<rparr>"
    have B: "wf_block ?c" "block_set ?c = block_set x \<union> block_set y" "block_set ?c \<noteq> {}"
      using wf_union_bits [of x y] prems eq by auto
    from "4.IH"(3) eq prems
    have "result (union_loop xs ys (tl sb)) (offs xs \<union> offs ys) (elems xs \<union> elems ys)" by simp
    then have "result (?c # union_loop xs ys (tl sb)) (offs (x # xs) \<union> offs (y # ys))
        (elems (x # xs) \<union> elems (y # ys))"
      by (rule result_Cons) (use prems eq B in auto)
    with eq [symmetric] show ?thesis by simp
  qed
qed (simp add: result_Nil)

lemma diff_with_result:
  "wf_sparse sb \<Longrightarrow> ordered xb \<Longrightarrow> result (diff_with sb xb) (offs sb) (elems sb - elems xb)"
proof (induction sb xb rule: diff_with.induct)
  case (3 b sb x xs)
  note prems = "3.prems"
  from prems have o: "wf_sparse sb" "ordered sb" "ordered xs" "wf_block b" "wf_block x" "ordered (b # sb)"
    by (auto simp: wf_sparse_def)
  consider "offset x < offset b" | "offset b < offset x" | "offset x = offset b" by linarith
  then show ?case
  proof cases
    case 1
    with "3.IH"(2) prems(1) o
    have "result (diff_with (b # sb) (x # xs)) (offs (b # sb)) (elems (b # sb) - elems xs)" by simp
    then show ?thesis
      by (rule result_weaken) (use cursors_less [OF o(6,5) 1] in auto)
  next
    case 2
    with "3.IH"(1) prems(2) o
    have "result (diff_with sb (x # xs)) (offs sb) (elems sb - elems (x # xs))" by simp
    then have "result (b # diff_with sb (x # xs)) (offs (b # sb)) (elems (b # sb) - elems (x # xs))"
      by (rule result_Cons) (use prems(1) cursors_less [OF prems(2) o(4) 2] in auto)
    with 2 show ?thesis by simp
  next
    case eq: 3
    let ?b = "b\<lparr>bits := zip_bits (\<lambda>v w. v AND NOT w) b x\<rparr>"
    from block_andnot [OF o(4,5)] eq have B: "wf_block ?b" "block_set ?b = block_set b - block_set x"
      by auto
    note D = cursors_equal [OF o(6,5) eq] cursors_equal [OF prems(2) o(4) eq [symmetric]]
    have S: "elems (b # sb) - elems (x # xs) = block_set ?b \<union> (elems sb - elems xs)"
      using B(2) D by auto
    show ?thesis
    proof (cases "block_set ?b = {}")
      case True
      with eq or_all_set [OF B(1)] "3.IH"(3) o
      have "result (diff_with (b # sb) (x # xs)) (offs sb) (elems sb - elems xs)" by (simp add: Let_def)
      then show ?thesis unfolding S by (rule result_weaken) (use True in auto)
    next
      case False
      with eq or_all_set [OF B(1)] have R: "diff_with (b # sb) (x # xs) = ?b # diff_with sb xs"
        by (simp add: Let_def)
      from False "3.IH"(4) o eq or_all_set [OF B(1)]
      have "result (diff_with sb xs) (offs sb) (elems sb - elems xs)" by simp
      then show ?thesis
        unfolding R S by (rule result_Cons) (use B(1) False prems(1) in auto)
    qed
  qed
qed (simp_all add: result_Nil result_self)

lemma diff_loop_result:
  "wf_sparse xb \<Longrightarrow> ordered yb \<Longrightarrow> result (diff_loop xb yb sb) (offs xb) (elems xb - elems yb)"
proof (induction xb yb sb rule: diff_loop.induct)
  case (2 x xs sb)
  then have "result (diff_loop xs [] (tl sb)) (offs xs) (elems xs)" by simp
  then have "result (x # diff_loop xs [] (tl sb)) (offs (x # xs)) (elems (x # xs))"
    by (rule result_Cons) (use "2.prems" in auto)
  then show ?case by simp
next
  case (3 x xs y ys sb)
  note prems = "3.prems"
  from prems have o: "wf_sparse xs" "ordered ys" "wf_block x" "wf_block y" "ordered (x # xs)"
    by (auto simp: wf_sparse_def)
  consider "offset y < offset x" | "offset x < offset y" | "offset x = offset y" by linarith
  then show ?case
  proof cases
    case 1
    with "3.IH"(1) prems(1) o
    have "result (diff_loop (x # xs) (y # ys) sb) (offs (x # xs)) (elems (x # xs) - elems ys)" by simp
    then show ?thesis
      by (rule result_weaken) (use cursors_less [OF o(5,4) 1] in auto)
  next
    case 2
    with "3.IH"(2) prems(2) o
    have "result (diff_loop xs (y # ys) (tl sb)) (offs xs) (elems xs - elems (y # ys))" by simp
    then have "result (x # diff_loop xs (y # ys) (tl sb)) (offs (x # xs)) (elems (x # xs) - elems (y # ys))"
      by (rule result_Cons) (use prems(1) cursors_less [OF prems(2) o(3) 2] in auto)
    with 2 show ?thesis by simp
  next
    case eq: 3
    let ?c = "x\<lparr>bits := zip_bits (\<lambda>v w. v AND NOT w) x y\<rparr>"
    from block_andnot [OF o(3,4) eq] have B: "wf_block ?c" "block_set ?c = block_set x - block_set y"
      by auto
    note D = cursors_equal [OF o(5,4) eq [symmetric]] cursors_equal [OF prems(2) o(3) eq]
    have S: "elems (x # xs) - elems (y # ys) = block_set ?c \<union> (elems xs - elems ys)"
      using B(2) D by auto
    show ?thesis
    proof (cases "block_set ?c = {}")
      case True
      with eq or_all_set [OF B(1)] "3.IH"(4) o
      have "result (diff_loop (x # xs) (y # ys) sb) (offs xs) (elems xs - elems ys)"
        by (simp add: Let_def)
      then show ?thesis unfolding S by (rule result_weaken) (use True in auto)
    next
      case False
      with eq [symmetric] or_all_set [OF B(1)]
      have R: "diff_loop (x # xs) (y # ys) sb = ?c # diff_loop xs ys (tl sb)" by (simp add: Let_def)
      from False "3.IH"(3) o eq or_all_set [OF B(1)]
      have "result (diff_loop xs ys (tl sb)) (offs xs) (elems xs - elems ys)" by simp
      then show ?thesis
        unfolding R S by (rule result_Cons) (use B(1) False prems(1) in auto)
    qed
  qed
qed (auto intro: result_Nil)

abbreviation symdiff :: "int set \<Rightarrow> int set \<Rightarrow> int set" where
  "symdiff A B \<equiv> (A - B) \<union> (B - A)"

lemma symdiff_with_result:
  "wf_sparse sb \<Longrightarrow> wf_sparse xb \<Longrightarrow>
     result (symdiff_with sb xb) (offs sb \<union> offs xb) (symdiff (elems sb) (elems xb))"
proof (induction sb xb rule: symdiff_with.induct)
  case (2 x xs)
  from 2 have "result (symdiff_with [] xs) (offs xs) (elems xs)" by simp
  then have "result (x # symdiff_with [] xs) (offs (x # xs)) (elems (x # xs))"
    by (rule result_Cons) (use "2.prems" in auto)
  then show ?case by simp
next
  case (3 b sb x xs)
  note prems = "3.prems"
  from prems have o: "wf_sparse sb" "wf_sparse xs" "wf_block b" "wf_block x" "ordered (b # sb)"
    "ordered (x # xs)" by (auto simp: wf_sparse_def)
  consider "offset b < offset x" | "offset x < offset b" | "offset x = offset b" by linarith
  then show ?case
  proof cases
    case 1
    with "3.IH"(1) prems o
    have "result (symdiff_with sb (x # xs)) (offs sb \<union> offs (x # xs)) (symdiff (elems sb) (elems (x # xs)))"
      by simp
    then have "result (b # symdiff_with sb (x # xs)) (offs (b # sb) \<union> offs (x # xs))
        (symdiff (elems (b # sb)) (elems (x # xs)))"
      by (rule result_Cons) (use prems 1 cursors_less [OF o(6,3) 1] before_apart [of b sb] o(5) in auto)
    with 1 show ?thesis by simp
  next
    case 2
    with "3.IH"(2) prems o
    have "result (symdiff_with (b # sb) xs) (offs (b # sb) \<union> offs xs) (symdiff (elems (b # sb)) (elems xs))"
      by simp
    then have "result (x # symdiff_with (b # sb) xs) (offs (b # sb) \<union> offs (x # xs))
        (symdiff (elems (b # sb)) (elems (x # xs)))"
      by (rule result_Cons) (use prems 2 cursors_less [OF o(5,4) 2] before_apart [of x xs] o(6) in auto)
    with 2 show ?thesis by simp
  next
    case eq: 3
    let ?b = "b\<lparr>bits := zip_bits (XOR) b x\<rparr>"
    from block_xor [OF o(3,4)] eq have
      B: "wf_block ?b" "block_set ?b = symdiff (block_set b) (block_set x)" by auto
    note D = cursors_equal [OF o(5,4) eq] cursors_equal [OF o(6,3) eq [symmetric]]
      before_apart [of b sb] before_apart [of x xs]
    have S: "symdiff (elems (b # sb)) (elems (x # xs)) =
        block_set ?b \<union> symdiff (elems sb) (elems xs)"
      using B(2) D o(5,6) by auto
    show ?thesis
    proof (cases "block_set ?b = {}")
      case True
      with eq or_all_set [OF B(1)] "3.IH"(3) o
      have "result (symdiff_with (b # sb) (x # xs)) (offs sb \<union> offs xs) (symdiff (elems sb) (elems xs))"
        by (simp add: Let_def)
      then show ?thesis unfolding S by (rule result_weaken) (use True in auto)
    next
      case False
      with eq or_all_set [OF B(1)] have R: "symdiff_with (b # sb) (x # xs) = ?b # symdiff_with sb xs"
        by (simp add: Let_def)
      from False "3.IH"(4) o eq or_all_set [OF B(1)]
      have "result (symdiff_with sb xs) (offs sb \<union> offs xs) (symdiff (elems sb) (elems xs))" by simp
      then show ?thesis
        unfolding R S by (rule result_Cons) (use B(1) False prems eq in auto)
    qed
  qed
qed (simp add: result_self)

lemma symdiff_loop_result:
  "wf_sparse xb \<Longrightarrow> wf_sparse yb \<Longrightarrow>
     result (symdiff_loop xb yb sb) (offs xb \<union> offs yb) (symdiff (elems xb) (elems yb))"
proof (induction xb yb sb rule: symdiff_loop.induct)
  case (2 x xs sb)
  then have "result (symdiff_loop xs [] (tl sb)) (offs xs) (elems xs)" by simp
  then have "result (x # symdiff_loop xs [] (tl sb)) (offs (x # xs)) (elems (x # xs))"
    by (rule result_Cons) (use "2.prems" in auto)
  then show ?case by simp
next
  case (3 y ys sb)
  then have "result (symdiff_loop [] ys (tl sb)) (offs ys) (elems ys)" by simp
  then have "result (y # symdiff_loop [] ys (tl sb)) (offs (y # ys)) (elems (y # ys))"
    by (rule result_Cons) (use "3.prems" in auto)
  then show ?case by simp
next
  case (4 x xs y ys sb)
  note prems = "4.prems"
  from prems have o: "wf_sparse xs" "wf_sparse ys" "wf_block x" "wf_block y" "ordered (x # xs)"
    "ordered (y # ys)" by (auto simp: wf_sparse_def)
  consider "offset y < offset x" | "offset x < offset y" | "offset x = offset y" by linarith
  then show ?case
  proof cases
    case 1
    with "4.IH"(1) prems o have "result (symdiff_loop (x # xs) ys (tl sb)) (offs (x # xs) \<union> offs ys)
        (symdiff (elems (x # xs)) (elems ys))" by simp
    then have "result (y # symdiff_loop (x # xs) ys (tl sb)) (offs (x # xs) \<union> offs (y # ys))
        (symdiff (elems (x # xs)) (elems (y # ys)))"
      by (rule result_Cons) (use prems 1 cursors_less [OF o(5,4) 1] before_apart [of y ys] o(6) in auto)
    with 1 show ?thesis by simp
  next
    case 2
    with "4.IH"(2) prems o have "result (symdiff_loop xs (y # ys) (tl sb)) (offs xs \<union> offs (y # ys))
        (symdiff (elems xs) (elems (y # ys)))" by simp
    then have "result (x # symdiff_loop xs (y # ys) (tl sb)) (offs (x # xs) \<union> offs (y # ys))
        (symdiff (elems (x # xs)) (elems (y # ys)))"
      by (rule result_Cons) (use prems 2 cursors_less [OF o(6,3) 2] before_apart [of x xs] o(5) in auto)
    with 2 show ?thesis by simp
  next
    case eq: 3
    let ?c = "x\<lparr>bits := zip_bits (XOR) x y\<rparr>"
    from block_xor [OF o(3,4) eq] have
      B: "wf_block ?c" "block_set ?c = symdiff (block_set x) (block_set y)" by auto
    note D = cursors_equal [OF o(5,4) eq [symmetric]] cursors_equal [OF o(6,3) eq]
      before_apart [of x xs] before_apart [of y ys]
    have S: "symdiff (elems (x # xs)) (elems (y # ys)) =
        block_set ?c \<union> symdiff (elems xs) (elems ys)"
      using B(2) D o(5,6) by auto
    show ?thesis
    proof (cases "block_set ?c = {}")
      case True
      with eq or_all_set [OF B(1)] "4.IH"(4) o
      have "result (symdiff_loop (x # xs) (y # ys) sb) (offs xs \<union> offs ys) (symdiff (elems xs) (elems ys))"
        by (simp add: Let_def)
      then show ?thesis unfolding S by (rule result_weaken) (use True in auto)
    next
      case False
      with eq [symmetric] or_all_set [OF B(1)]
      have R: "symdiff_loop (x # xs) (y # ys) sb = ?c # symdiff_loop xs ys (tl sb)"
        by (simp add: Let_def)
      from False "4.IH"(3) o eq or_all_set [OF B(1)]
      have "result (symdiff_loop xs ys (tl sb)) (offs xs \<union> offs ys) (symdiff (elems xs) (elems ys))"
        by simp
      then show ?thesis
        unfolding R S by (rule result_Cons) (use B(1) False prems eq in auto)
    qed
  qed
qed (simp add: result_Nil)

lemma subset_of_iff:
  "wf_sparse sb \<Longrightarrow> ordered xb \<Longrightarrow> subset_of sb xb \<longleftrightarrow> elems sb \<subseteq> elems xb"
proof (induction sb xb rule: subset_of.induct)
  case (2 b sb)
  then show ?case by auto
next
  case (3 b sb x xs)
  note prems = "3.prems"
  from prems have o: "wf_sparse sb" "ordered xs" "wf_block b" "wf_block x" "ordered (b # sb)"
    "block_set b \<noteq> {}" by (auto simp: wf_sparse_def)
  consider "offset x < offset b" | "offset b < offset x" | "offset x = offset b" by linarith
  then show ?case
  proof cases
    case 1
    with "3.IH"(1) prems(1) o cursors_less [OF o(5,4) 1] show ?thesis by auto
  next
    case 2
    with cursors_less [OF prems(2) o(3) 2] o(6) show ?thesis by auto
  next
    case eq: 3
    let ?b = "b\<lparr>bits := zip_bits (\<lambda>v w. v AND NOT w) b x\<rparr>"
    from block_andnot [OF o(3,4)] eq have B: "wf_block ?b" "block_set ?b = block_set b - block_set x"
      by auto
    note D = cursors_equal [OF o(5,4) eq] cursors_equal [OF prems(2) o(3) eq [symmetric]]
    have "subset_of (b # sb) (x # xs) \<longleftrightarrow> block_set ?b = {} \<and> subset_of sb xs"
      using eq zip_ex_set [OF B(1)] by simp
    moreover have "subset_of sb xs \<longleftrightarrow> elems sb \<subseteq> elems xs" if "block_set ?b = {}"
      using "3.IH"(2) o eq that zip_ex_set [OF B(1)] by simp
    moreover have "elems (b # sb) \<subseteq> elems (x # xs) \<longleftrightarrow> block_set b \<subseteq> block_set x \<and> elems sb \<subseteq> elems xs"
      using D by auto
    ultimately show ?thesis using B(2) by (auto simp del: subset_of.simps elems_simps)
  qed
qed simp

lemma equals_loop_eq: "equals_loop sb tb \<longleftrightarrow> sb = tb"
  by (induction sb tb rule: equals_loop.induct) auto

text \<open>The representation is canonical.\<close>

lemma elems_inject:
  "wf_sparse s \<Longrightarrow> wf_sparse t \<Longrightarrow> elems s = elems t \<longleftrightarrow> s = t"
proof (induction s t rule: list_induct2')
  case (4 b s c t)
  show ?case
  proof
    assume e: "elems (b # s) = elems (c # t)"
    from 4(2,3) have o: "wf_sparse s" "wf_sparse t" "wf_block b" "wf_block c" "ordered (b # s)"
      "ordered (c # t)" "block_set b \<noteq> {}" "block_set c \<noteq> {}" by (auto simp: wf_sparse_def)
    have eq: "offset b = offset c"
    proof (rule ccontr)
      assume "offset b \<noteq> offset c"
      then consider "offset b < offset c" | "offset c < offset b" by linarith
      then show False
        using cursors_less [OF o(6,3)] cursors_less [OF o(5,4)] e o(7,8) by cases auto
    qed
    note D = cursors_equal [OF o(6,3) eq] cursors_equal [OF o(5,4) eq [symmetric]]
      before_apart [of b s] before_apart [of c t]
    from e D o(5,6) have "block_set b = block_set c" "elems s = elems t" by auto
    with 4(1) o(1,2) block_set_eq_bits [OF o(3,4) eq] show "b # s = c # t" by simp
  qed simp
qed auto

section \<open>Single elements\<close>

definition go_int :: "int \<Rightarrow> bool" where
  "go_int x \<longleftrightarrow> MinInt \<le> x \<and> x \<le> MaxInt"

lemma wf_block_new:
  assumes "go_int x"
  shows "wf_block (new_block\<lparr>offset := x - x mod 256\<rparr>)"
proof -
  have "x div 256 \<le> MaxInt div 256" using assms by (intro zdiv_mono1) (auto simp: go_int_def)
  then have "256 * (x div 256) + 255 \<le> MaxInt" by (simp add: MaxInt_def)
  moreover have "MinInt div 256 \<le> x div 256" using assms by (intro zdiv_mono1) (auto simp: go_int_def)
  then have "MinInt \<le> 256 * (x div 256)" by (simp add: MinInt_def MaxInt_def)
  moreover have "x - x mod 256 = 256 * (x div 256)" by (simp add: minus_mod_eq_mult_div)
  ultimately show ?thesis
    by (simp add: wf_block_def new_block_def size_defs)
qed

lemma block_set_new: "block_set (new_block\<lparr>offset := off\<rparr>) = {}"
  by (auto simp: block_set_def has_bit_def new_block_def size_defs)

lemma insert_new:
  assumes "go_int x" and "block_insert (new_block\<lparr>offset := x - x mod 256\<rparr>) (nat (x mod 256)) = (r, b)"
  shows "r \<and> wf_block b \<and> offset b = x - x mod 256 \<and> block_set b = {x}"
  using block_insert_set [OF wf_block_new [OF assms(1)] _ assms(2)]
  by (simp add: block_set_new nat_less_iff)

lemma elem_offset: "ordered s \<Longrightarrow> x \<in> elems s \<longleftrightarrow> (\<exists>b \<in> set s. offset b = x - x mod 256 \<and> x \<in> block_set b)"
  by (auto simp: elems_def ordered_def block_set_iff)

lemma nat_mod_256: "nat (x mod 256) < 256" "int (nat (x mod 256)) = x mod 256"
  by (simp_all add: nat_less_iff)

lemma insert_loop_result:
  assumes "go_int x" and off: "off = x - x mod 256" and i: "i = nat (x mod 256)"
  shows "wf_sparse s \<Longrightarrow> insert_loop off i s = (r, s') \<Longrightarrow>
    result s' (insert off (offs s)) (insert x (elems s)) \<and> r = (x \<notin> elems s)"
proof -
  have new: "r \<and> wf_block b \<and> offset b = off \<and> block_set b = {x}"
    if "block_insert (new_block\<lparr>offset := off\<rparr>) i = (r, b)" for r b
    using insert_new [OF assms(1)] that by (simp add: off i)
  have idx: "i < 256" and xi: "off + int i = x" by (simp_all add: off i nat_mod_256)
  have at: "wf_block b \<Longrightarrow> x \<in> block_set b \<Longrightarrow> offset b = off" for b
    unfolding off by (simp only: block_set_iff)
  have elem: "ordered t \<Longrightarrow> x \<in> elems t \<longleftrightarrow> (\<exists>b \<in> set t. offset b = off \<and> x \<in> block_set b)" for t
    unfolding off by (rule elem_offset)
  show "wf_sparse s \<Longrightarrow> insert_loop off i s = (r, s') \<Longrightarrow>
    result s' (insert off (offs s)) (insert x (elems s)) \<and> r = (x \<notin> elems s)"
  proof (induction s arbitrary: r s')
    case Nil
    obtain q n where ii: "block_insert (new_block\<lparr>offset := off\<rparr>) i = (q, n)" by fastforce
    with Nil(2) have "r = q" "s' = [n]" by simp_all
    with new [OF ii] show ?case by (simp add: result_def)
  next
    case (Cons b s)
    from Cons.prems(1) have o: "wf_sparse s" "wf_block b" "block_set b \<noteq> {}" "ordered (b # s)" "ordered s"
      by (auto simp: wf_sparse_def)
    consider "offset b < off" | "off < offset b" | "offset b = off"
      by linarith
    then show ?case
    proof cases
      case 1
      obtain q s1 where q: "insert_loop off i s = (q, s1)" by fastforce
      with 1 Cons.prems(2) have ii: "insert_loop off i s = (r, s1)" and s': "s' = b # s1"
        by simp_all
      from Cons.IH [OF o(1) ii] have IH: "result s1 (insert off (offs s)) (insert x (elems s))"
        "r = (x \<notin> elems s)" by auto
      have "x \<notin> block_set b" using 1 at [OF o(2)] by auto
      moreover have "result s' (insert off (offs (b # s))) (insert x (elems (b # s)))"
        unfolding s' by (rule result_Cons [OF IH(1)]) (use Cons.prems(1) 1 in auto)
      ultimately show ?thesis using IH(2) by simp
    next
      case 2
      obtain q n where q: "block_insert (new_block\<lparr>offset := off\<rparr>) i = (q, n)" by fastforce
      with 2 Cons.prems(2) have ii: "block_insert (new_block\<lparr>offset := off\<rparr>) i = (r, n)"
        and s': "s' = n # b # s" by simp_all
      note N = new [OF ii]
      have "x \<notin> elems (b # s)" using 2 Cons.prems(1) by (subst elem [OF o(4)]) auto
      moreover have "result s' (insert off (offs (b # s))) (insert x (elems (b # s)))"
        unfolding s' using result_self [OF Cons.prems(1) order_refl refl]
        by (rule result_Cons) (use N 2 Cons.prems(1) in auto)
      ultimately show ?thesis using N by simp
    next
      case 3
      obtain q b' where q: "block_insert b i = (q, b')" by fastforce
      with 3 Cons.prems(2) have ii: "block_insert b i = (r, b')" and s': "s' = b' # s"
        by simp_all
      from block_insert_set [OF o(2) idx ii] 3
      have B: "wf_block b'" "offset b' = offset b" "block_set b' = insert x (block_set b)"
        "r = (x \<notin> block_set b)" by (auto simp: xi)
      have "x \<notin> elems s" using 3 Cons.prems(1) by (subst elem [OF o(5)]) auto
      moreover have "result s' (insert off (offs (b # s))) (insert x (elems (b # s)))"
        unfolding s' using result_self [OF o(1) order_refl refl]
        by (rule result_Cons) (use B Cons.prems(1) in auto)
      ultimately show ?thesis using B by simp
    qed
  qed
qed

lemma set_Insert_spec:
  assumes "wf_sparse s" and "go_int x" and "set_Insert s x = (grew, s')"
  shows "wf_sparse s' \<and> elems s' = insert x (elems s) \<and> grew = (x \<notin> elems s)"
  using insert_loop_result [OF assms(2) refl refl assms(1)] assms(3)
  by (simp add: set_Insert_def offsetAndBitIndex_eq result_def)

lemma block_at_spec:
  "ordered s \<Longrightarrow> (case block_at off s of
     None \<Rightarrow> off \<notin> offs s
   | Some k \<Rightarrow> k < length s \<and> offset (s ! k) = off)"
  by (induction s) (auto split: option.splits)

lemma block_at_elem:
  assumes "wf_sparse s"
  shows "x \<in> elems s \<longleftrightarrow> (case block_at (x - x mod 256) s of None \<Rightarrow> False
     | Some k \<Rightarrow> x \<in> block_set (s ! k))"
proof -
  have o: "ordered s" using assms by (rule wf_sparse_ordered)
  have uniq: "b = c" if "b \<in> set s" "c \<in> set s" "offset b = offset c" for b c
    using that o by (induction s) auto
  show ?thesis
  proof (cases "block_at (x - x mod 256) s")
    case None
    with block_at_spec [OF o, of "x - x mod 256"] have "\<forall>b \<in> set s. offset b \<noteq> x - x mod 256"
      by force
    with None show ?thesis by (simp add: elem_offset [OF o])
  next
    case (Some k)
    with block_at_spec [OF o, of "x - x mod 256"] have k: "k < length s" "offset (s ! k) = x - x mod 256"
      by auto
    then have "s ! k \<in> set s" by simp
    then have "x \<in> elems s \<longleftrightarrow> x \<in> block_set (s ! k)"
      unfolding elem_offset [OF o] using uniq k(2) by metis
    with Some show ?thesis by simp
  qed
qed

lemma Has_spec:
  assumes "wf_sparse s"
  shows "Has s x \<longleftrightarrow> x \<in> elems s"
proof (cases "block_at (x - x mod 256) s")
  case None
  then show ?thesis by (simp add: Has_def offsetAndBitIndex_eq block_at_elem [OF assms])
next
  case (Some k)
  have o: "ordered s" using assms by (rule wf_sparse_ordered)
  with block_at_spec [OF o, of "x - x mod 256"] Some
  have k: "k < length s" "offset (s ! k) = x - x mod 256" by auto
  then have "wf_block (s ! k)" using o by (simp add: ordered_def)
  with k Some show ?thesis
    by (simp add: Has_def offsetAndBitIndex_eq block_at_elem [OF assms] block_has_bit block_set_iff)
qed

text \<open>Replacing or removing one block.\<close>

lemma split_at: "k < length s \<Longrightarrow> s = take k s @ s ! k # drop (Suc k) s"
  by (simp add: id_take_nth_drop)

lemma wf_sparse_append:
  "wf_sparse (as @ bs) \<longleftrightarrow> wf_sparse as \<and> wf_sparse bs \<and> (\<forall>a \<in> set as. \<forall>b \<in> set bs. offset a < offset b)"
  by (induction as) auto

lemma elems_append: "elems (as @ bs) = elems as \<union> elems bs"
  by (simp add: elems_def)

lemma wf_sparse_split:
  assumes "wf_sparse s" and "k < length s"
  shows "wf_sparse (removeBlock s k)"
    and "\<And>b. wf_block b \<Longrightarrow> offset b = offset (s ! k) \<Longrightarrow> block_set b \<noteq> {} \<Longrightarrow> wf_sparse (s[k := b])"
    and "elems s = elems (removeBlock s k) \<union> block_set (s ! k)"
    and "elems (removeBlock s k) \<inter> block_set (s ! k) = {}"
    and "\<And>b. elems (s[k := b]) = elems (removeBlock s k) \<union> block_set b"
proof -
  define as c bs where "as = take k s" and "c = s ! k" and "bs = drop (Suc k) s"
  have s: "s = as @ c # bs" using split_at [OF assms(2)] by (simp add: as_def c_def bs_def)
  have r: "removeBlock s k = as @ bs" by (simp add: removeBlock_def as_def bs_def)
  have u: "s[k := b] = as @ b # bs" for b
    using assms(2) by (simp add: as_def bs_def upd_conv_take_nth_drop)
  have W: "wf_sparse (as @ c # bs)" using assms(1) s by simp
  then show "wf_sparse (removeBlock s k)" by (auto simp: r wf_sparse_append)
  show "wf_sparse (s[k := b])" if "wf_block b" "offset b = offset (s ! k)" "block_set b \<noteq> {}" for b
    using W that by (auto simp: u wf_sparse_append c_def)
  show "elems s = elems (removeBlock s k) \<union> block_set (s ! k)"
    by (subst s) (auto simp: r elems_append c_def)
  show "elems (s[k := b]) = elems (removeBlock s k) \<union> block_set b" for b
    by (auto simp: r u elems_append)
  have "wf_sparse (as @ bs)" using W by (auto simp: wf_sparse_append)
  moreover have "wf_block c" "\<forall>d \<in> set (as @ bs). offset d \<noteq> offset c"
    using W by (auto simp: wf_sparse_append)
  ultimately have "block_set c \<inter> elems (as @ bs) = {}"
    by (intro apart wf_sparse_ordered)
  then show "elems (removeBlock s k) \<inter> block_set (s ! k) = {}" by (auto simp: r c_def)
qed

lemma set_Remove_spec:
  assumes "wf_sparse s" and "set_Remove s x = (shrank, s')"
  shows "wf_sparse s' \<and> elems s' = elems s - {x} \<and> shrank = (x \<in> elems s)"
proof (cases "block_at (x - x mod 256) s")
  case None
  with assms(2) block_at_elem [OF assms(1), of x] assms(1) show ?thesis
    by (simp add: set_Remove_def offsetAndBitIndex_eq)
next
  case (Some k)
  have o: "ordered s" using assms(1) by (rule wf_sparse_ordered)
  with block_at_spec [OF o, of "x - x mod 256"] Some
  have k: "k < length s" "offset (s ! k) = x - x mod 256" by auto
  then have w: "wf_block (s ! k)" using o by (simp add: ordered_def)
  obtain g b where rm: "block_remove (s ! k) (nat (x mod 256)) = (g, b)" by fastforce
  from block_remove_set [OF w nat_mod_256(1) rm] k(2)
  have B: "wf_block b" "offset b = offset (s ! k)" "block_set b = block_set (s ! k) - {x}"
    "g = (x \<in> block_set (s ! k))" by (auto simp: nat_mod_256)
  note P = wf_sparse_split [OF assms(1) k(1)]
  have m: "x \<in> elems s \<longleftrightarrow> g" using B(4) Some by (simp add: block_at_elem [OF assms(1)])
  have s': "(shrank, s') = (if \<not> g then (False, s)
      else if block_empty b then (True, removeBlock s k) else (True, s[k := b]))"
    using assms(2) Some rm by (simp add: set_Remove_def offsetAndBitIndex_eq)
  show ?thesis
  proof (cases g)
    case False
    with s' m assms(1) show ?thesis by simp
  next
    case True
    with m B(4) have x: "x \<in> block_set (s ! k)" by simp
    with P(3,4) B(3) have e: "elems s - {x} = elems (removeBlock s k) \<union> block_set b" by auto
    show ?thesis
    proof (cases "block_set b = {}")
      case em: True
      then have "block_empty b" using block_empty_set [OF B(1)] by simp
      with True s' e em P(1) m show ?thesis by simp
    next
      case False
      then have "\<not> block_empty b" using block_empty_set [OF B(1)] by simp
      with True s' e False P(2,5) B(1,2) m show ?thesis by simp
    qed
  qed
qed

section \<open>Minimum, maximum, length, order\<close>

lemma blocks_sorted:
  assumes "wf_sparse (b # s)" and "x \<in> block_set b" and "y \<in> elems s"
  shows "x < y"
proof -
  from assms(3) obtain c where "c \<in> set s" "y \<in> block_set c" by (auto simp: elems_def)
  with assms(1,2) show ?thesis
    using block_sets_less [of b c x y] by (auto simp: wf_sparse_def ordered_def)
qed

lemma Min_elems:
  assumes "wf_sparse (b # s)"
  shows "Min (elems (b # s)) = Min (block_set b)"
proof (rule Min_eqI)
  have ne: "block_set b \<noteq> {}" using assms by simp
  then have "Min (block_set b) \<in> block_set b" by (intro Min_in) auto
  then show "Min (block_set b) \<in> elems (b # s)" by simp
  fix y assume "y \<in> elems (b # s)"
  then show "Min (block_set b) \<le> y"
    using blocks_sorted [OF assms \<open>Min (block_set b) \<in> block_set b\<close>] by fastforce
qed simp

lemma set_Min_spec:
  assumes "wf_sparse s"
  shows "set_Min s = Ok (if elems s = {} then MaxInt else Min (elems s))"
proof (cases s)
  case (Cons b bs)
  with assms have "wf_block b" "block_set b \<noteq> {}" by auto
  from block_min_Ok [OF this, of False] show ?thesis
    using Cons Min_elems [of b bs] assms \<open>block_set b \<noteq> {}\<close> by (auto simp: set_Min_def IsEmpty_def)
qed (simp add: set_Min_def IsEmpty_def)

lemma set_Max_spec:
  assumes "wf_sparse s"
  shows "set_Max s = Ok (if elems s = {} then MinInt else Max (elems s))"
proof (cases s rule: rev_cases)
  case (snoc bs b)
  with assms have "wf_sparse bs" and W: "wf_block b" "block_set b \<noteq> {}"
    and "\<forall>a \<in> set bs. offset a < offset b"
    by (auto simp: wf_sparse_append)
  then have W4: "\<forall>a \<in> set bs. offset a < offset b \<and> wf_block a"
    by (auto simp: wf_sparse_def ordered_def)
  have "Max (elems s) = Max (block_set b)"
  proof (rule Max_eqI)
    have m: "Max (block_set b) \<in> block_set b" using W(2) by (intro Max_in) auto
    then show "Max (block_set b) \<in> elems s" by (simp add: snoc elems_append)
    fix y assume "y \<in> elems s"
    then consider "y \<in> block_set b" | a where "a \<in> set bs" "y \<in> block_set a"
      by (auto simp: snoc elems_append elems_def)
    then show "y \<le> Max (block_set b)"
    proof cases
      case 2
      with W(1) W4 m block_sets_less [of a b y] show ?thesis by fastforce
    qed simp
  qed simp
  with snoc block_max_Ok [OF W(1,2)] W(2) show ?thesis
    by (auto simp: set_Max_def IsEmpty_def elems_append)
qed (simp add: set_Max_def IsEmpty_def)

lemma TakeMin_spec:
  assumes "wf_sparse s"
  shows "if elems s = {} then TakeMin s = Ok None
    else \<exists>s'. TakeMin s = Ok (Some (Min (elems s), s')) \<and> wf_sparse s' \<and>
           elems s' = elems s - {Min (elems s)}"
proof (cases s)
  case (Cons b bs)
  with assms have W: "wf_block b" "block_set b \<noteq> {}" by auto
  from block_min_Ok [OF W, of True] obtain b' where
    b': "block_min True b = Ok (Min (block_set b), b')" "wf_block b'" "offset b' = offset b"
    "block_set b' = block_set b - {Min (block_set b)}" by auto
  have mn: "Min (elems s) = Min (block_set b)" using Cons Min_elems assms by simp
  have T: "TakeMin s = Ok (Some (Min (elems s), if block_empty b' then bs else b' # bs))"
    using Cons b'(1) mn by (simp add: TakeMin_def IsEmpty_def removeBlock_def)
  have apart: "block_set b \<inter> elems bs = {}"
    using assms Cons by (intro before_apart) (auto simp: wf_sparse_def)
  have "Min (block_set b) \<in> block_set b" using W(2) by (intro Min_in) auto
  with apart have "elems s - {Min (elems s)} = block_set b' \<union> elems bs"
    using Cons b'(4) mn by auto
  moreover have "wf_sparse (if block_empty b' then bs else b' # bs) \<and>
      elems (if block_empty b' then bs else b' # bs) = block_set b' \<union> elems bs"
    using assms Cons b'(2,3) block_empty_set [OF b'(2)] by auto
  ultimately show ?thesis using T W(2) Cons by auto
qed (simp add: TakeMin_def IsEmpty_def)

lemma Len_spec: "wf_sparse s \<Longrightarrow> Len s = int (card (elems s))"
proof (induction s)
  case (Cons b s)
  then have "block_set b \<inter> elems s = {}"
    by (intro before_apart) (auto simp: wf_sparse_def)
  with Cons show ?case
    by (simp add: Len_def block_len_card card_Un_disjoint)
qed (simp add: Len_def)

lemma forEach_spec:
  "wf_sparse s \<Longrightarrow> set (forEach s) = elems s \<and> sorted_wrt (<) (forEach s)"
proof (induction s)
  case (Cons b s)
  then have "set (block_elems b) = block_set b" "sorted_wrt (<) (block_elems b)"
    using block_elems_sorted by auto
  with Cons blocks_sorted [OF Cons.prems] show ?case
    by (auto simp: forEach_def sorted_wrt_append)
qed (simp add: forEach_def)

lemma AppendTo_eq: "AppendTo s sl0 = sl0 @ forEach s"
proof -
  have "fold (\<lambda>x sl. sl @ [x]) xs sl0 = sl0 @ xs" for xs :: "int list"
    by (induction xs arbitrary: sl0) auto
  then show ?thesis by (simp add: AppendTo_def)
qed

lemma IsEmpty_spec: "wf_sparse s \<Longrightarrow> IsEmpty s \<longleftrightarrow> elems s = {}"
  by (cases s) (auto simp: IsEmpty_def)

lemma LowerBound_loop_spec:
  assumes "ordered s" and "\<forall>b \<in> set s. block_set b \<noteq> {}"
  shows "lowerBound_loop (x - x mod 256) (nat (x mod 256)) s =
    Ok (let up = {y \<in> elems s. x \<le> y} in if up = {} then MaxInt else Min up)"
  using assms
proof (induction s)
  case (Cons b s)
  from Cons.prems have o: "wf_block b" "ordered s" "block_set b \<noteq> {}" "wf_sparse (b # s)"
    by (auto simp: wf_sparse_def)
  let ?off = "x - x mod 256"
  have xb: "?off \<le> x" "x < ?off + 256" by simp_all
  consider "?off < offset b" | "offset b = ?off" | "offset b < ?off" by linarith
  then show ?case
  proof cases
    case 1
    obtain p where "offset b = 256 * p" using wf_blockD(2) [OF o(1)] by (metis dvdE mod_eq_0_iff_dvd)
    moreover have "?off = 256 * (x div 256)" by (simp add: minus_mod_eq_mult_div)
    ultimately have "x < offset b" using 1 xb by simp
    have "{y \<in> elems (b # s). x \<le> y} = elems (b # s)"
    proof -
      have "x \<le> y" if "y \<in> elems (b # s)" for y
      proof -
        from that have "y \<in> block_set b \<or> y \<in> elems s" by simp
        moreover obtain z where "z \<in> block_set b" using o(3) by auto
        moreover have "offset b \<le> z" "y \<in> block_set b \<Longrightarrow> offset b \<le> y"
          using block_set_range calculation(2) by auto
        ultimately show ?thesis using blocks_sorted [OF o(4)] \<open>x < offset b\<close> by fastforce
      qed
      then show ?thesis by auto
    qed
    with 1 block_min_Ok [OF o(1,3), of False] Min_elems [OF o(4)] o(3) show ?thesis
      by (auto simp: Let_def)
  next
    case 2
    let ?up = "{y \<in> block_set b. x \<le> y}"
    have lb: "block_lowerBound b (nat (x mod 256)) = (if ?up = {} then None else Some (Min ?up))"
      using block_lowerBound_spec [OF o(1) nat_mod_256(1), of x] 2 by (simp add: nat_mod_256 Let_def)
    have U: "{y \<in> elems (b # s). x \<le> y} = ?up \<union> {y \<in> elems s. x \<le> y}" by auto
    show ?thesis
    proof (cases "?up = {}")
      case True
      with 2 lb Cons.IH o(2) Cons.prems(2) U show ?thesis by (simp add: Let_def)
    next
      case False
      have "Min (?up \<union> {y \<in> elems s. x \<le> y}) = Min ?up"
      proof (rule Min_eqI)
        have m: "Min ?up \<in> ?up" using False by (intro Min_in) auto
        then show "Min ?up \<in> ?up \<union> {y \<in> elems s. x \<le> y}" by blast
        fix y assume "y \<in> ?up \<union> {y \<in> elems s. x \<le> y}"
        then show "Min ?up \<le> y"
        proof
          assume "y \<in> ?up" then show ?thesis by (intro Min_le) auto
        next
          assume "y \<in> {y \<in> elems s. x \<le> y}"
          with blocks_sorted [OF o(4)] m show ?thesis by fastforce
        qed
      qed simp
      moreover have "?up \<union> {y \<in> elems s. x \<le> y} \<noteq> {}" using False by blast
      moreover have "lowerBound_loop (x - x mod 256) (nat (x mod 256)) (b # s) = Ok (Min ?up)"
        using 2 lb by (simp only: lowerBound_loop.simps False if_False option.case) simp
      ultimately show ?thesis unfolding Let_def U by (simp only: if_False)
    qed
  next
    case 3
    have "y < x" if "y \<in> block_set b" for y
    proof -
      obtain p where "offset b = 256 * p" using wf_blockD(2) [OF o(1)] by (metis dvdE mod_eq_0_iff_dvd)
      moreover have "?off = 256 * (x div 256)" by (simp add: minus_mod_eq_mult_div)
      ultimately have "offset b + 256 \<le> ?off" using 3 by simp
      with block_set_range [OF that] xb show ?thesis by linarith
    qed
    then have "{y \<in> elems (b # s). x \<le> y} = {y \<in> elems s. x \<le> y}" by force
    with 3 Cons.IH o(2) Cons.prems(2) show ?thesis by simp
  qed
qed simp

lemma LowerBound_spec:
  "wf_sparse s \<Longrightarrow> LowerBound s x =
     Ok (let up = {y \<in> elems s. x \<le> y} in if up = {} then MaxInt else Min up)"
  by (simp add: LowerBound_def offsetAndBitIndex_eq LowerBound_loop_spec wf_sparse_def)

end
