(* ===== verification/SparseClaims.thy ===== *)
theory SparseClaims
  imports SparseProps
begin

text \<open>
  The properties of \<open>container/intsets\<close>: the interface of an integer set and of a worklist with
  their clients, interpreted on \<open>Sparse\<close>, and what each operation computes, with the aliasing of its
  arguments.
\<close>

section \<open>Interfaces\<close>

text \<open>
  What the clients of a worklist rely on (\<open>for worklist.TakeMin(&x) { use(x) }\<close>): an insertion adds
  one element and reports growth, \<open>TakeMin\<close> removes the least one.
\<close>

locale worklist =
  fixes inv :: "'s \<Rightarrow> bool" and abs :: "'s \<Rightarrow> int set"
    and ins :: "'s \<Rightarrow> int \<Rightarrow> bool \<times> 's" and take_min :: "'s \<Rightarrow> (int \<times> 's) option res"
  assumes finite_abs: "inv s \<Longrightarrow> finite (abs s)"
    and ins_law: "inv s \<Longrightarrow> go_int x \<Longrightarrow> ins s x = (b, s') \<Longrightarrow>
      inv s' \<and> abs s' = insert x (abs s) \<and> b = (x \<notin> abs s)"
    and take_law: "inv s \<Longrightarrow> if abs s = {} then take_min s = Ok None
      else \<exists>s'. take_min s = Ok (Some (Min (abs s), s')) \<and> inv s' \<and> abs s' = abs s - {Min (abs s)}"

text \<open>The loop of the client, collecting the elements it uses, and the loop that fills the set.\<close>

fun drain :: "('s \<Rightarrow> (int \<times> 's) option res) \<Rightarrow> nat \<Rightarrow> 's \<Rightarrow> int list res" where
  "drain tk 0 s = OutOfFuel"
| "drain tk (Suc fuel) s = bindR (tk s) (\<lambda>r. case r of None \<Rightarrow> Ok []
     | Some (x, s') \<Rightarrow> bindR (drain tk fuel s') (\<lambda>xs. Ok (x # xs)))"

definition fill :: "('s \<Rightarrow> int \<Rightarrow> bool \<times> 's) \<Rightarrow> int list \<Rightarrow> 's \<Rightarrow> 's" where
  "fill ins xs s = fold (\<lambda>x s. snd (ins s x)) xs s"

context worklist
begin

lemma drain_sorted:
  "inv s \<Longrightarrow> card (abs s) < fuel \<Longrightarrow> drain take_min fuel s = Ok (sorted_list_of_set (abs s))"
proof (induction fuel arbitrary: s)
  case (Suc fuel)
  show ?case
  proof (cases "abs s = {}")
    case True
    with take_law [OF Suc.prems(1)] show ?thesis by simp
  next
    case False
    with take_law [OF Suc.prems(1)] obtain s' where
      t: "take_min s = Ok (Some (Min (abs s), s'))" "inv s'" "abs s' = abs s - {Min (abs s)}" by auto
    have fin: "finite (abs s)" using Suc.prems(1) by (rule finite_abs)
    then have "card (abs s') = card (abs s) - 1" and "0 < card (abs s)"
      using t(3) False by (simp_all add: card_gt_0_iff)
    then have "card (abs s') < fuel" using Suc.prems(2) by linarith
    with Suc.IH [OF t(2)] t(1,3) fin False show ?thesis
      by (simp add: sorted_list_of_set_nonempty)
  qed
qed simp

lemma fill_abs:
  "inv s \<Longrightarrow> list_all go_int xs \<Longrightarrow> inv (fill ins xs s) \<and> abs (fill ins xs s) = abs s \<union> set xs"
proof (induction xs arbitrary: s)
  case (Cons x xs)
  obtain b s' where i: "ins s x = (b, s')" by fastforce
  from Cons.prems have "inv s'" "abs s' = insert x (abs s)"
    using ins_law [OF Cons.prems(1) _ i] by auto
  with Cons.IH [of s'] Cons.prems(2) i show ?case by (auto simp: fill_def)
qed (simp add: fill_def)

text \<open>Filling a worklist and draining it sorts and removes duplicates.\<close>

lemma fill_drain:
  assumes "inv s" and "abs s = {}" and "list_all go_int xs" and "length xs < fuel"
  shows "drain take_min fuel (fill ins xs s) = Ok (sorted_list_of_set (set xs))"
proof -
  have "card (set xs) < fuel" using card_length [of xs] assms(4) by linarith
  with fill_abs [OF assms(1,3)] assms(2) show ?thesis
    using drain_sorted [of "fill ins xs s" fuel] by simp
qed

end

text \<open>The set interface adds membership, removal and size.\<close>

locale int_set = worklist inv abs ins take_min
  for inv :: "'s \<Rightarrow> bool" and abs ins take_min +
  fixes rem :: "'s \<Rightarrow> int \<Rightarrow> bool \<times> 's" and has :: "'s \<Rightarrow> int \<Rightarrow> bool" and len :: "'s \<Rightarrow> int"
  assumes rem_law: "inv s \<Longrightarrow> rem s x = (b, s') \<Longrightarrow> inv s' \<and> abs s' = abs s - {x} \<and> b = (x \<in> abs s)"
    and has_law: "inv s \<Longrightarrow> has s x \<longleftrightarrow> x \<in> abs s"
    and len_law: "inv s \<Longrightarrow> len s = int (card (abs s))"

context int_set
begin

lemma has_after_insert:
  assumes "inv s" and "go_int x" and "ins s x = (b, s')"
  shows "has s' y \<longleftrightarrow> y = x \<or> has s y" and "len s' = len s + of_bool b"
proof -
  from ins_law [OF assms] have i: "inv s'" "abs s' = insert x (abs s)" "b = (x \<notin> abs s)" by auto
  with has_law [OF assms(1)] has_law [OF i(1)] show "has s' y \<longleftrightarrow> y = x \<or> has s y" by auto
  show "len s' = len s + of_bool b"
    using i len_law [OF assms(1)] len_law [OF i(1)] finite_abs [OF assms(1)]
    by (simp add: card_insert_if)
qed

lemma remove_undoes_insert:
  assumes "inv s" and "go_int x" and "ins s x = (True, s1)" and "rem s1 x = (b, s2)"
  shows "b \<and> abs s2 = abs s \<and> len s2 = len s"
proof -
  from ins_law [OF assms(1-3)] have i: "inv s1" "abs s1 = insert x (abs s)" "x \<notin> abs s" by auto
  from rem_law [OF i(1) assms(4)] i have "inv s2" "abs s2 = abs s" b by auto
  with len_law [OF assms(1)] len_law [of s2] show ?thesis by simp
qed

end

interpretation sparse: int_set wf_sparse elems set_Insert TakeMin set_Remove Has Len
proof
  show "wf_sparse s \<Longrightarrow> finite (elems s)" for s by simp
  show "wf_sparse s \<Longrightarrow> go_int x \<Longrightarrow> set_Insert s x = (b, s') \<Longrightarrow>
      wf_sparse s' \<and> elems s' = insert x (elems s) \<and> b = (x \<notin> elems s)" for s x b s'
    by (rule set_Insert_spec)
  show "wf_sparse s \<Longrightarrow> if elems s = {} then TakeMin s = Ok None
      else \<exists>s'. TakeMin s = Ok (Some (Min (elems s), s')) \<and> wf_sparse s' \<and>
        elems s' = elems s - {Min (elems s)}" for s
    by (rule TakeMin_spec)
  show "wf_sparse s \<Longrightarrow> set_Remove s x = (b, s') \<Longrightarrow>
      wf_sparse s' \<and> elems s' = elems s - {x} \<and> b = (x \<in> elems s)" for s x b s'
    by (rule set_Remove_spec)
  show "wf_sparse s \<Longrightarrow> Has s x \<longleftrightarrow> x \<in> elems s" for s x by (rule Has_spec)
  show "wf_sparse s \<Longrightarrow> Len s = int (card (elems s))" for s by (rule Len_spec)
qed

section \<open>Words\<close>

text \<open>
  C28: The bit tricks of \<open>util.go\<close> on every 64-bit word: \<open>popcount\<close> counts the set
  bits, and for a word that is not zero \<open>ntz\<close> is the position of its lowest set bit and \<open>nlz\<close> the
  distance of its highest one from bit 63.
\<close>

theorem word_bit_functions:
  "popcount x = int (card {i. i < 64 \<and> bit x i}) \<and>
   (x = 0 \<or> ntz x = int (Min {i. i < 64 \<and> bit x i}) \<and> nlz x = 63 - int (Max {i. i < 64 \<and> bit x i})) \<and>
   ntz 0 = 64"
  using popcount_card [of x] ntz_bits [of x] nlz_bits [of x]
  by (auto simp: bits_of_def) (simp add: ntz_def size_defs)

section \<open>One set\<close>

text \<open>
  C24: On a set that satisfies the representation invariant, the queries of \<open>Sparse\<close>
  return what they say of the abstract set: membership, size, emptiness, least and greatest element
  (with the documented values for the empty set), the least element from \<open>x\<close> on, and the elements
  in increasing order; none of them panics.
\<close>

theorem sparse_queries:
  assumes "wf_sparse s"
  shows "(Has s x \<longleftrightarrow> x \<in> elems s) \<and> Len s = int (card (elems s)) \<and> (IsEmpty s \<longleftrightarrow> elems s = {}) \<and>
    set_Min s = Ok (if elems s = {} then MaxInt else Min (elems s)) \<and>
    set_Max s = Ok (if elems s = {} then MinInt else Max (elems s)) \<and>
    LowerBound s x = Ok (if {y \<in> elems s. x \<le> y} = {} then MaxInt else Min {y \<in> elems s. x \<le> y}) \<and>
    AppendTo s sl0 = sl0 @ sorted_list_of_set (elems s)"
proof -
  have "forEach s = sorted_list_of_set (elems s)"
    using forEach_spec [OF assms] strict_sorted_equal [of "forEach s" "sorted_list_of_set (elems s)"]
    by simp
  then show ?thesis
    using assms Has_spec Len_spec IsEmpty_spec set_Min_spec set_Max_spec LowerBound_spec
    by (simp add: AppendTo_eq Let_def)
qed

definition some_set :: sparse where
  "some_set = fill set_Insert [300, -7, 5, 260, -7] []"

lemma some_set_elems: "wf_sparse some_set \<and> elems some_set = {300, -7, 5, 260}"
proof -
  have "list_all go_int [300, -7, 5, 260, -7 :: int]" by code_simp
  from sparse.fill_abs [OF _ this, of "[]"] show ?thesis by (auto simp: some_set_def)
qed

theorem sparse_queries_witness:
  "Has some_set 260 \<and> \<not> Has some_set 6 \<and> Len some_set = 4 \<and> set_Min some_set = Ok (-7) \<and>
   LowerBound some_set 6 = Ok 260 \<and> AppendTo some_set [] = [-7, 5, 260, 300]"
proof -
  have W: "wf_sparse some_set" and E: "elems some_set = {300, -7, 5, 260}"
    using some_set_elems by auto
  have up: "{y \<in> elems some_set. 6 \<le> y} = {300, 260}" by (auto simp: E)
  note q = sparse_queries [OF W, of 260 "[]"] and r = sparse_queries [OF W, of 6 "[]"]
  from q have "Has some_set 260" by (simp only: E) simp
  moreover from r have "\<not> Has some_set 6" by (simp only: E) simp
  moreover from q have "Len some_set = 4" by (simp only: E) simp
  moreover from q have "set_Min some_set = Ok (-7)" by (simp only: E) simp
  moreover from r have "LowerBound some_set 6 = Ok 260" by (simp only: up) simp
  moreover from q have "AppendTo some_set [] = sorted_list_of_set {300, -7, 5, 260}"
    by (simp only: E append_Nil)
  then have "AppendTo some_set [] = [-7, 5, 260, 300]" by simp
  ultimately show ?thesis by blast
qed

text \<open>
  C23: \<open>Insert\<close>, \<open>Remove\<close> and \<open>TakeMin\<close> on one set keep the representation invariant,
  change the abstract set by exactly one element, and report exactly whether they changed it (for
  every \<open>int\<close> that Go can represent).
\<close>

theorem sparse_single:
  assumes "wf_sparse s" and "go_int x" and "set_Insert s x = (grew, s1)"
    and "set_Remove s x = (shrank, s2)"
  shows "wf_sparse s1 \<and> elems s1 = insert x (elems s) \<and> (grew \<longleftrightarrow> x \<notin> elems s) \<and>
    wf_sparse s2 \<and> elems s2 = elems s - {x} \<and> (shrank \<longleftrightarrow> x \<in> elems s) \<and>
    (if elems s = {} then TakeMin s = Ok None
     else \<exists>s3. TakeMin s = Ok (Some (Min (elems s), s3)) \<and> wf_sparse s3 \<and>
            elems s3 = elems s - {Min (elems s)})"
  using sparse.ins_law [OF assms(1-3)] sparse.rem_law [OF assms(1,4)] sparse.take_law [OF assms(1)]
  by simp

theorem sparse_single_witness:
  "\<exists>s1 s2. set_Insert some_set 6 = (True, s1) \<and> set_Remove some_set 6 = (False, s2) \<and>
     elems s1 = {300, -7, 5, 260, 6} \<and> elems s2 = {300, -7, 5, 260}"
proof -
  have W: "wf_sparse some_set" and E: "elems some_set = {300, -7, 5, 260}"
    using some_set_elems by auto
  obtain a s1 b s2 where i: "set_Insert some_set 6 = (a, s1)" "set_Remove some_set 6 = (b, s2)"
    by fastforce
  have "go_int 6" by code_simp
  from sparse_single [OF W this i] i E show ?thesis by auto
qed

text \<open>
  C25: The documented iteration: filling an empty set with any representable numbers
  and draining it with \<open>TakeMin\<close> terminates and uses each of them once, in increasing order.
\<close>

theorem takemin_worklist:
  assumes "list_all go_int xs"
  shows "drain TakeMin (Suc (length xs)) (fill set_Insert xs []) = Ok (sorted_list_of_set (set xs))"
  by (rule sparse.fill_drain) (use assms in auto)

theorem takemin_worklist_witness:
  "drain TakeMin 5 (fill set_Insert [900, -3, 900, 4] []) = Ok [-3, 4, 900]"
proof -
  have "list_all go_int [900, -3, 900, 4 :: int]" by code_simp
  moreover have "sorted_list_of_set (set [900, -3, 900, 4 :: int]) = [-3, 4, 900]"
    by code_simp
  moreover have "Suc (length [900, -3, 900, 4 :: int]) = 5" by simp
  ultimately show ?thesis using takemin_worklist [of "[900, -3, 900, 4]"] by metis
qed

section \<open>Printing\<close>

lemma loopR_slice_set:
  assumes "\<forall>x \<in> set xs. in_range b (f x)"
  shows "loopR (\<lambda>x b. slice_set b (f x) c) xs b = Ok (fold (\<lambda>x b. b[nat (f x) := c]) xs b)"
  using assms
proof (induction xs arbitrary: b)
  case (Cons x xs)
  then have "slice_set b (f x) c = Ok (b[nat (f x) := c])" by (simp add: slice_set_def)
  with Cons show ?case by simp
qed simp

lemma nth_fold_update:
  "i < length b \<Longrightarrow>
     fold (\<lambda>x b. b[nat (f x) := c]) xs b ! i = (if \<exists>x \<in> set xs. nat (f x) = i then c else b ! i)"
proof (induction xs arbitrary: b)
  case (Cons x xs)
  from Cons.IH [of "b[nat (f x) := c]"] Cons.prems show ?case by (auto simp: nth_list_update)
qed simp

lemma length_fold_update [simp]: "length (fold (\<lambda>x b. b[nat (f x) := c]) xs b) = length b"
  by (induction xs arbitrary: b) auto

text \<open>The number of digits before the point, and the position of the digit of \<open>x\<close>.\<close>

definition int_digits :: "sparse \<Rightarrow> int" where
  "int_digits s = max 0 (Max (elems s)) + 1"

definition digit_pos :: "sparse \<Rightarrow> int \<Rightarrow> int" where
  "digit_pos s x = (if 0 \<le> x then int_digits s - (x + 1) else int_digits s - x)"

lemma digit_pos_inject: "digit_pos s x = digit_pos s y \<Longrightarrow> x < int_digits s \<Longrightarrow> y < int_digits s \<Longrightarrow> x = y"
  by (auto simp: digit_pos_def split: if_splits)

definition blank :: "sparse \<Rightarrow> string" where
  "blank s = (let n = int_digits s; m = Min (elems s) in
     if m < 0 then (replicate (nat (n + (1 - m))) CHR ''0'')[nat n := CHR ''.'']
     else replicate (nat n) CHR ''0'')"

lemma BitString_loop:
  assumes "wf_sparse s" and "elems s \<noteq> {}"
  shows "BitString s = loopR (\<lambda>x b. slice_set b (digit_pos s x) CHR ''1'') (forEach s) (blank s)"
proof -
  have ne: "\<not> IsEmpty s" using assms IsEmpty_spec by simp
  have mm: "set_Min s = Ok (Min (elems s))" "set_Max s = Ok (Max (elems s))"
    using assms set_Min_spec set_Max_spec by simp_all
  have n: "(if Max (elems s) > 0 then Max (elems s) else 0) + 1 = int_digits s"
    by (simp add: int_digits_def)
  have p: "int_digits s - (if x \<ge> 0 then x + 1 else x) = digit_pos s x" for x
    by (simp add: digit_pos_def)
  have pt: "slice_set (replicate (nat (int_digits s + (1 - Min (elems s)))) CHR ''0'') (int_digits s)
      CHR ''.'' = Ok ((replicate (nat (int_digits s + (1 - Min (elems s)))) CHR ''0'')
        [nat (int_digits s) := CHR ''.''])" if "Min (elems s) < 0"
    using that by (simp add: slice_set_def in_range_def int_digits_def)
  show ?thesis
    unfolding BitString_def Let_def mm bindR.simps n p if_not_P [OF ne]
    by (cases "Min (elems s) < 0") (simp_all add: blank_def Let_def pt)
qed



section \<open>Several sets\<close>

definition wf_store :: "store \<Rightarrow> bool" where
  "wf_store st \<longleftrightarrow> (\<forall>v. wf_sparse (st v))"

lemma result_wf: "result R K S \<Longrightarrow> wf_sparse R \<and> elems R = S"
  by (simp add: result_def)

lemma store_wf: "wf_store st \<Longrightarrow> wf_sparse (st v)" "wf_store st \<Longrightarrow> ordered (st v)"
  by (simp_all add: wf_store_def wf_sparse_def)

lemma wf_store_upd: "wf_store st \<Longrightarrow> wf_sparse R \<Longrightarrow> wf_store (st(s := R))"
  by (simp add: wf_store_def)

text \<open>Storing a result in \<open>s\<close>: the invariant, the value of \<open>s\<close>, and the frame.\<close>

definition stores :: "store \<Rightarrow> nat \<Rightarrow> int set \<Rightarrow> store \<Rightarrow> bool" where
  "stores st s S st' \<longleftrightarrow> wf_store st' \<and> elems (st' s) = S \<and> (\<forall>v. v \<noteq> s \<longrightarrow> st' v = st v)"

lemma stores_upd: "wf_store st \<Longrightarrow> wf_sparse R \<and> elems R = S \<Longrightarrow> stores st s S (st(s := R))"
  by (simp add: stores_def wf_store_upd)

lemma stores_same: "wf_store st \<Longrightarrow> elems (st s) = S \<Longrightarrow> stores st s S st"
  by (simp add: stores_def)

lemma stores_result:
  assumes "wf_store st" and "result R K S" and "S = T"
  shows "stores st s T (st(s := R))"
  using stores_upd [OF assms(1) result_wf [OF assms(2)]] assms(3) by simp

lemma stores_Clear: "wf_store st \<Longrightarrow> S = {} \<Longrightarrow> stores st s S (st(s := Clear))"
  by (simp add: Clear_def stores_def wf_store_upd)

lemma IntersectionWith_stores:
  assumes "wf_store st"
  shows "stores st s (elems (st s) \<inter> elems (st x)) (IntersectionWith st s x)"
  unfolding IntersectionWith_def
  using stores_same [OF assms] stores_result [OF assms inter_with_result] store_wf [OF assms] by simp

lemma UnionWith_stores:
  assumes "wf_store st"
  shows "stores st s (elems (st s) \<union> elems (st x)) (snd (UnionWith st s x))"
  unfolding UnionWith_def case_prod_beta
  using stores_same [OF assms] stores_result [OF assms union_with_result] store_wf [OF assms] by simp

lemma DifferenceWith_stores:
  assumes "wf_store st"
  shows "stores st s (elems (st s) - elems (st x)) (DifferenceWith st s x)"
  unfolding DifferenceWith_def
  using stores_Clear [OF assms] stores_result [OF assms diff_with_result] store_wf [OF assms] by simp

lemma SymmetricDifferenceWith_stores:
  assumes "wf_store st"
  shows "stores st s (symdiff (elems (st s)) (elems (st x))) (SymmetricDifferenceWith st s x)"
  unfolding SymmetricDifferenceWith_def
  using stores_Clear [OF assms] stores_result [OF assms symdiff_with_result] store_wf [OF assms]
  by simp

lemma Copy_stores:
  assumes "wf_store st"
  shows "stores st s (elems (st x)) (Copy st s x)"
  unfolding Copy_def using stores_same [OF assms] stores_upd [OF assms] store_wf [OF assms] by simp

lemma Intersection_stores:
  assumes "wf_store st"
  shows "stores st s (elems (st x) \<inter> elems (st y)) (Intersection st s x y)"
proof -
  consider "s = x" | "s \<noteq> x" "s = y" | "s \<noteq> x" "s \<noteq> y" "x = y" | "s \<noteq> x" "s \<noteq> y" "x \<noteq> y" by blast
  then show ?thesis
  proof cases
    case 2
    with IntersectionWith_stores [OF assms, of s x] show ?thesis
      by (simp add: Intersection_def Int_commute)
  next
    case 4
    then show ?thesis
      using stores_result [OF assms inter_loop_result] store_wf [OF assms]
      by (simp add: Intersection_def)
  qed (use IntersectionWith_stores [OF assms] Copy_stores [OF assms] in
      \<open>simp_all add: Intersection_def\<close>)
qed

lemma Union_stores:
  assumes "wf_store st"
  shows "stores st s (elems (st x) \<union> elems (st y)) (Union st s x y)"
proof -
  consider "x = y" | "x \<noteq> y" "s = x" | "x \<noteq> y" "s \<noteq> x" "s = y" | "x \<noteq> y" "s \<noteq> x" "s \<noteq> y" by blast
  then show ?thesis
  proof cases
    case 3
    with UnionWith_stores [OF assms, of s x] show ?thesis by (simp add: Union_def Un_commute)
  next
    case 4
    then show ?thesis
      using stores_result [OF assms union_loop_result] store_wf [OF assms]
      by (simp add: Union_def)
  qed (use UnionWith_stores [OF assms] Copy_stores [OF assms] in \<open>simp_all add: Union_def\<close>)
qed

lemma Difference_stores:
  assumes "wf_store st"
  shows "stores st s (elems (st x) - elems (st y)) (Difference st s x y)"
proof -
  consider "x = y" | "x \<noteq> y" "s = x" | "x \<noteq> y" "s \<noteq> x" by blast
  then show ?thesis
  proof cases
    case 1
    with stores_Clear [OF assms] show ?thesis by (simp add: Difference_def)
  next
    case 2
    with DifferenceWith_stores [OF assms] show ?thesis by (simp add: Difference_def)
  next
    case 3
    then show ?thesis
      using stores_result [OF assms diff_loop_result] store_wf [OF assms]
      by (simp add: Difference_def)
  qed
qed

lemma SymmetricDifference_stores:
  assumes "wf_store st"
  shows "stores st s (symdiff (elems (st x)) (elems (st y))) (SymmetricDifference st s x y)"
proof -
  consider "x = y" | "x \<noteq> y" "s = x" | "x \<noteq> y" "s \<noteq> x" "s = y" | "x \<noteq> y" "s \<noteq> x" "s \<noteq> y" by blast
  then show ?thesis
  proof cases
    case 1
    with stores_Clear [OF assms] show ?thesis by (simp add: SymmetricDifference_def)
  next
    case 2
    with SymmetricDifferenceWith_stores [OF assms] show ?thesis
      by (simp add: SymmetricDifference_def)
  next
    case 3
    with SymmetricDifferenceWith_stores [OF assms, of s x] show ?thesis
      by (simp add: SymmetricDifference_def Un_commute)
  next
    case 4
    then show ?thesis
      using stores_result [OF assms symdiff_loop_result] store_wf [OF assms]
      by (simp add: SymmetricDifference_def)
  qed
qed


definition demo_store :: store where
  "demo_store = (\<lambda>v. if v = 0 then some_set else if v = 1 then fill set_Insert [5, 1000] [] else [])"

lemma demo_store_wf:
  "wf_store demo_store \<and> elems (demo_store 0) = {300, -7, 5, 260} \<and> elems (demo_store 1) = {5, 1000}"
proof -
  have "list_all go_int [5, 1000 :: int]" by code_simp
  from sparse.fill_abs [OF _ this, of "[]"] some_set_elems show ?thesis
    by (auto simp: demo_store_def wf_store_def)
qed


text \<open>
  C26: The comparisons of two sets: \<open>Intersects\<close>, \<open>SubsetOf\<close> and \<open>Equals\<close> decide the
  relation of the abstract sets (equality of the lists of blocks is equality of the sets, since the
  representation is canonical).
\<close>

theorem sparse_comparisons:
  assumes "wf_store st"
  shows "(Intersects st s x \<longleftrightarrow> elems (st s) \<inter> elems (st x) \<noteq> {}) \<and>
    (SubsetOf st s x \<longleftrightarrow> elems (st s) \<subseteq> elems (st x)) \<and>
    (Equals st s x \<longleftrightarrow> elems (st s) = elems (st x))"
proof (intro conjI)
  note w = store_wf(1) [OF assms] and o = store_wf(2) [OF assms]
  show "Intersects st s x \<longleftrightarrow> elems (st s) \<inter> elems (st x) \<noteq> {}"
    unfolding Intersects_def by (rule intersects_iff [OF o o])
  show "SubsetOf st s x \<longleftrightarrow> elems (st s) \<subseteq> elems (st x)"
    using subset_of_iff [OF w o, of s x] by (simp add: SubsetOf_def)
  show "Equals st s x \<longleftrightarrow> elems (st s) = elems (st x)"
    using elems_inject [OF w w, of s x] by (auto simp: Equals_def equals_loop_eq)
qed

theorem sparse_comparisons_witness:
  "Intersects demo_store 0 1 \<and> \<not> SubsetOf demo_store 1 0 \<and> \<not> Equals demo_store 0 1"
proof -
  have W: "wf_store demo_store" using demo_store_wf by simp
  have E: "elems (demo_store 0) = {300, -7, 5, 260}" "elems (demo_store 1) = {5, 1000}"
    using demo_store_wf by simp_all
  note q = sparse_comparisons [OF W, of 0 1, unfolded E]
    and r = sparse_comparisons [OF W, of 1 0, unfolded E]
  from q have "Intersects demo_store 0 1" by simp
  moreover from r have "\<not> SubsetOf demo_store 1 0" by simp
  moreover have "{300, -7, 5, 260} \<noteq> {5, 1000 :: int}" by (simp add: set_eq_iff) presburger
  with q have "\<not> Equals demo_store 0 1" by simp
  ultimately show ?thesis by simp
qed

text \<open>
  C29: \<open>UnionWith\<close> makes \<open>s\<close> the union and reports true whenever \<open>s\<close> grew;
  but it reports true exactly when some block of \<open>x\<close> is not literally a block of \<open>s\<close>, so it may
  report growth when there is none.
\<close>

theorem union_with_reports_growth:
  assumes "wf_store st" and "UnionWith st s x = (changed, st')"
  shows "elems (st' s) = elems (st s) \<union> elems (st x) \<and>
    (elems (st' s) \<noteq> elems (st s) \<longrightarrow> changed) \<and>
    (s \<noteq> x \<longrightarrow> (changed \<longleftrightarrow> \<not> set (st x) \<subseteq> set (st s)))"
proof -
  have e: "elems (st' s) = elems (st s) \<union> elems (st x)"
    using UnionWith_stores [OF assms(1), of s x] assms(2) by (simp add: stores_def)
  show ?thesis
  proof (cases "s = x")
    case True
    with e show ?thesis by simp
  next
    case False
    with assms(2) have "changed = fst (union_with (st s) (st x))"
      by (simp add: UnionWith_def case_prod_beta)
    then have c: "changed \<longleftrightarrow> \<not> set (st x) \<subseteq> set (st s)"
      using union_with_flag store_wf(2) [OF assms(1)] by simp
    have "elems (st x) \<subseteq> elems (st s)" if "set (st x) \<subseteq> set (st s)"
      using that by (auto simp: elems_def)
    with e c show ?thesis by auto
  qed
qed

definition grown_store :: store where
  "grown_store = (\<lambda>v. if v = 0 then fill set_Insert [1, 2] [] else fill set_Insert [1] [])"

text \<open>The set {1, 2} is reported to grow by the union with {1}.\<close>

theorem union_with_reports_growth_witness:
  "\<exists>st'. UnionWith grown_store 0 1 = (True, st') \<and> elems (st' 0) = elems (grown_store 0)"
proof -
  have "list_all go_int [1, 2 :: int]" "list_all go_int [1 :: int]" by code_simp+
  from this [THEN sparse.fill_abs [of "[]", rotated]]
  have W: "wf_store grown_store"
    and E: "elems (grown_store 0) = {1, 2}" "elems (grown_store 1) = {1}"
    by (auto simp: grown_store_def wf_store_def)
  obtain c st' where u: "UnionWith grown_store 0 1 = (c, st')" by fastforce
  have "\<not> set (grown_store 1) \<subseteq> set (grown_store 0)" by code_simp
  with union_with_reports_growth [OF W u] u E show ?thesis by auto
qed

end
