(* ===== verification/HappensBefore.thy ===== *)
theory HappensBefore
  imports RFGModel
begin

text \<open>
  The happens-before relation of \<open>concurrency/rfg.go\<close>: \<open>AddHappenBeforeEdges\<close> walks the graph
  breadth first from the main goroutine and adds an edge from every operation that informs others
  to the consumers of its objects; \<open>DFSCanReach\<close> decides by depth-first search, with a cache,
  whether two accesses are ordered.
\<close>

section \<open>Synchronisation edges\<close>

definition consumers_of :: "RFGraph \<Rightarrow> int \<Rightarrow> int list" where
  "consumers_of g obj = (case mget (resources g) obj of Some pcs \<Rightarrow> consumers pcs | None \<Rightarrow> [])"

definition append_sync :: "int \<Rightarrow> int \<Rightarrow> RFGraph \<Rightarrow> RFGraph" where
  "append_sync src dst g =
     g\<lparr>syncAdjList := mput src (mget0 [] (syncAdjList g) src @ [dst]) (syncAdjList g)\<rparr>"

definition addEdge :: "int list \<Rightarrow> int \<Rightarrow> RFGraph \<Rightarrow> RFGraph" where
  "addEdge pts src g = fold (\<lambda>obj g. fold (append_sync src) (consumers_of g obj) g) pts g"

text \<open>The objects whose consumers a node informs.\<close>

definition informs :: "RFGraph \<Rightarrow> node \<Rightarrow> int list res" where
  "informs g n = (case typId n of
       NChannel \<Rightarrow> if isSender n then node_pts g (ch_ptr n) (cgnode n) else Ok []
     | NClose \<Rightarrow> node_pts g (ch_ptr n) (cgnode n)
     | NCancel \<Rightarrow> bindR (deref (ctx_p n)) (\<lambda>p. Ok [base_obj p])
     | NWGDone \<Rightarrow> Ok (wg_pts n)
     | NExit \<Rightarrow> Ok (if isWGDone n then wg_pts n else [])
     | NSignal \<Rightarrow> node_pts g (cond_ptr n) (cgnode n)
     | NBroadcast \<Rightarrow> node_pts g (cond_ptr n) (cgnode n)
     | _ \<Rightarrow> Ok [])"

definition add_sync_edges :: "RFGraph \<Rightarrow> int \<Rightarrow> RFGraph res" where
  "add_sync_edges g cur =
     bindR (node_at g cur) (\<lambda>n. bindR (informs g n) (\<lambda>pts. Ok (addEdge pts cur g)))"

definition enqueue :: "int list \<Rightarrow> (int, bool) gomap \<times> int list \<Rightarrow> (int, bool) gomap \<times> int list" where
  "enqueue neighbors = fold (\<lambda>nb (seen, queue).
     if mget0 False seen nb then (seen, queue) else (mput nb True seen, queue @ [nb])) neighbors"

fun hb_loop :: "nat \<Rightarrow> RFGraph \<Rightarrow> (int, bool) gomap \<Rightarrow> int list \<Rightarrow> RFGraph res" where
  "hb_loop 0 g seen queue = OutOfFuel"
| "hb_loop (Suc fuel) g seen [] = Ok g"
| "hb_loop (Suc fuel) g seen (cur # queue) =
     bindR (add_sync_edges g cur) (\<lambda>g.
       case enqueue (kids g cur) (seen, queue) of (seen, queue) \<Rightarrow> hb_loop fuel g seen queue)"

definition AddHappenBeforeEdges :: "RFGraph \<Rightarrow> RFGraph res" where
  "AddHappenBeforeEdges g =
     bindR (slice_get (roots g) 0) (\<lambda>root.
     bindR (hb_loop (Suc (length (id2node g))) g [(root, True)] [root]) (\<lambda>g.
       let p = rfgplus g;
           nodes = size_node p + int (length (syncAdjList g));
           edges = fold (\<lambda>(_, ks) n. n + int (length ks)) (syncAdjList g) (size_edge p)
       in Ok (g\<lparr>rfgplus := p\<lparr>size_node := nodes + edges, size_edge := edges\<rparr>\<rparr>)))"

section \<open>The search for a path\<close>

text \<open>
  \<open>DFSVisit\<close> and the body of its three loops; the result carries the map \<open>visited\<close>, which the
  recursion shares.
\<close>

definition case_ids :: "node \<Rightarrow> int list" where
  "case_ids n = concat (map (\<lambda>c. case c of None \<Rightarrow> [] | Some i \<Rightarrow> [i]) (sel_cases n))"

fun DFSVisit :: "nat \<Rightarrow> env \<Rightarrow> RFGraph \<Rightarrow> int \<Rightarrow> int \<Rightarrow> (int, bool) gomap \<Rightarrow>
    (bool \<times> (int, bool) gomap) res"
  and dfs_neighbors :: "nat \<Rightarrow> env \<Rightarrow> RFGraph \<Rightarrow> int list \<Rightarrow> int \<Rightarrow> (int, bool) gomap \<Rightarrow>
    (bool \<times> (int, bool) gomap) res" where
  "DFSVisit 0 E g src dest seen = OutOfFuel"
| "DFSVisit (Suc fuel) E g src dest seen =
     (if src = dest then Ok (True, seen)
      else bindR (if Plus E then dfs_neighbors fuel E g (mget0 [] (syncAdjList g) src) dest
                    (mput src True seen)
                  else Ok (False, mput src True seen)) (\<lambda>(found, seen).
        if found then Ok (True, seen)
        else bindR (node_at g src) (\<lambda>n.
             bindR (if typId n = NSelect then dfs_neighbors fuel E g (case_ids n) dest seen
                    else Ok (False, seen)) (\<lambda>(found, seen).
               if found then Ok (True, seen)
               else dfs_neighbors fuel E g (kids g src) dest seen))))"
| "dfs_neighbors fuel E g [] dest seen = Ok (False, seen)"
| "dfs_neighbors fuel E g (nb # nbs) dest seen =
     (if mget0 False seen nb then dfs_neighbors fuel E g nbs dest seen
      else bindR (DFSVisit fuel E g nb dest seen) (\<lambda>(found, seen).
        if found then Ok (True, seen) else dfs_neighbors fuel E g nbs dest seen))"

text \<open>\<open>CheckGoInLoops\<close> returns true when the goroutine of one access was spawned by a loop whose
  range of node ids contains the other.\<close>

definition in_spawn_loop :: "RFGraph \<Rightarrow> int \<Rightarrow> int \<Rightarrow> bool" where
  "in_spawn_loop g tid nid =
     (case mget (gid2nloop g) tid of None \<Rightarrow> False
      | Some nloop \<Rightarrow> list_ex (\<lambda>(l, r). l \<le> nid \<and> nid \<le> r) nloop)"

definition CheckGoInLoops :: "RFGraph \<Rightarrow> RWNode \<Rightarrow> RWNode \<Rightarrow> bool res" where
  "CheckGoInLoops g a b =
     bindR (node_at g (rw_n a)) (\<lambda>na. bindR (node_at g (rw_n b)) (\<lambda>nb.
       Ok (if in_spawn_loop g (gid na) (node_id nb) then True
           else in_spawn_loop g (gid nb) (node_id na))))"

definition node_key :: "int \<Rightarrow> int \<Rightarrow> string" where
  "node_key a b = (if a > b then pair_key b a else pair_key a b)"

definition put_cache :: "string \<Rightarrow> bool \<Rightarrow> RFGraph \<Rightarrow> RFGraph" where
  "put_cache key val g = g\<lparr>cache := mput key val (cache g)\<rparr>"

definition search :: "env \<Rightarrow> RFGraph \<Rightarrow> int \<Rightarrow> int \<Rightarrow> bool res" where
  "search E g src dest =
     bindR (DFSVisit (Suc (length (id2node g))) E g src dest []) (\<lambda>(found, _). Ok found)"

definition DFSCanReach :: "env \<Rightarrow> RFGraph \<Rightarrow> RWNode \<Rightarrow> RWNode \<Rightarrow> (bool \<times> RFGraph) res" where
  "DFSCanReach E g a b =
     bindR (node_at g (rw_n a)) (\<lambda>na. bindR (node_at g (rw_n b)) (\<lambda>nb.
       let key = node_key (node_id na) (node_id nb) in
       case mget (cache g) key of Some val \<Rightarrow> Ok (val, g)
       | None \<Rightarrow> bindR (CheckGoInLoops g a b) (\<lambda>in_loop.
           if in_loop then Ok (False, put_cache key False g)
           else bindR (search E g (rw_n a) (rw_n b)) (\<lambda>ret.
             if ret then Ok (ret, put_cache key ret g)
             else bindR (search E g (rw_n b) (rw_n a)) (\<lambda>ret.
               Ok (ret, put_cache key ret g))))))"

section \<open>Directed graphs\<close>

text \<open>The abstract relation that the searches are about.\<close>

definition reaches :: "('n \<Rightarrow> 'n list) \<Rightarrow> 'n \<Rightarrow> 'n \<Rightarrow> bool" where
  "reaches succ = (\<lambda>a b. b \<in> set (succ a))\<^sup>*\<^sup>*"

lemma reaches_refl [simp]: "reaches succ a a"
  by (simp add: reaches_def)

lemma reaches_step: "reaches succ a b \<Longrightarrow> c \<in> set (succ b) \<Longrightarrow> reaches succ a c"
  unfolding reaches_def by (rule rtranclp.rtrancl_into_rtrancl)

lemma reaches_first: "b \<in> set (succ a) \<Longrightarrow> reaches succ b c \<Longrightarrow> reaches succ a c"
  unfolding reaches_def by (rule converse_rtranclp_into_rtranclp)

lemma reaches_closed:
  assumes "reaches succ a b" and "a \<in> V" and "\<And>x. x \<in> V \<Longrightarrow> set (succ x) \<subseteq> V"
  shows "b \<in> V"
  using assms(1) unfolding reaches_def
  by (induction rule: rtranclp_induct) (use assms(2,3) in auto)

text \<open>
  What the builder of a graph provides: in a well-formed graph the successors of its nodes are among
  its finitely many nodes.
\<close>

locale digraph =
  fixes wf :: "'g \<Rightarrow> bool" and nodes :: "'g \<Rightarrow> 'n set" and succ :: "'g \<Rightarrow> 'n \<Rightarrow> 'n list"
  assumes finite_nodes: "wf g \<Longrightarrow> finite (nodes g)"
    and succ_nodes: "wf g \<Longrightarrow> x \<in> nodes g \<Longrightarrow> set (succ g x) \<subseteq> nodes g"

context digraph
begin

lemma reaches_nodes: "wf g \<Longrightarrow> a \<in> nodes g \<Longrightarrow> reaches (succ g) a b \<Longrightarrow> b \<in> nodes g"
  by (rule reaches_closed [where V = "nodes g"]) (use succ_nodes in auto)

text \<open>A set of visited nodes that is left by no edge contains everything that is reachable.\<close>

lemma visited_complete:
  assumes "a \<in> V" and "\<And>x. x \<in> V \<Longrightarrow> set (succ g x) \<subseteq> V" and "V \<subseteq> {b. reaches (succ g) a b}"
  shows "V = {b. reaches (succ g) a b}"
proof -
  have "b \<in> V" if "reaches (succ g) a b" for b using that assms(1,2) by (rule reaches_closed)
  with assms(3) show ?thesis by blast
qed

lemma unvisited_less:
  assumes "wf g" and "x \<in> nodes g" and "x \<notin> V" and "insert x V \<subseteq> V'"
  shows "card (nodes g - V') < card (nodes g - V)"
  by (rule psubset_card_mono) (use assms finite_nodes in auto)

end

definition node_ids :: "RFGraph \<Rightarrow> int set" where
  "node_ids g = fst ` set (id2node g)"

definition wf_nodes :: "RFGraph \<Rightarrow> bool" where
  "wf_nodes g \<longleftrightarrow> list_all (\<lambda>(i, n). node_id n = i) (id2node g)"

definition wf_flow :: "RFGraph \<Rightarrow> bool" where
  "wf_flow g \<longleftrightarrow> (\<forall>i \<in> node_ids g. set (kids g i) \<subseteq> node_ids g)"

text \<open>All successors \<open>DFSVisit\<close> follows, in its order.\<close>

definition hb_succs :: "env \<times> RFGraph \<Rightarrow> int \<Rightarrow> int list" where
  "hb_succs = (\<lambda>(E, g) i. (if Plus E then mget0 [] (syncAdjList g) i else []) @
     (case mget (id2node g) i of None \<Rightarrow> [] | Some n \<Rightarrow> if typId n = NSelect then case_ids n else []) @
     kids g i)"

definition wf_hb :: "env \<times> RFGraph \<Rightarrow> bool" where
  "wf_hb = (\<lambda>(E, g). \<forall>i \<in> node_ids g. set (hb_succs (E, g) i) \<subseteq> node_ids g)"

lemma finite_node_ids [simp]: "finite (node_ids g)"
  by (simp add: node_ids_def)

lemma node_ids_iff: "i \<in> node_ids g \<longleftrightarrow> (\<exists>n. mget (id2node g) i = Some n)"
  unfolding node_ids_def using map_of_eq_None_iff [of "id2node g" i] by auto

lemma node_at_ids: "i \<in> node_ids g \<Longrightarrow> \<exists>n. node_at g i = Ok n \<and> mget (id2node g) i = Some n"
  by (auto simp: node_ids_iff node_at_def)

interpretation flow: digraph wf_flow node_ids kids
  by unfold_locales (auto simp: wf_flow_def)

interpretation hb: digraph wf_hb "\<lambda>(E, g). node_ids g" hb_succs
  by unfold_locales (auto simp: wf_hb_def split: prod.splits)

section \<open>The depth-first search\<close>

lemma dfs_append:
  "dfs_neighbors fuel E g (xs @ ys) dest seen =
     bindR (dfs_neighbors fuel E g xs dest seen) (\<lambda>(found, seen).
       if found then Ok (True, seen) else dfs_neighbors fuel E g ys dest seen)"
proof (induction xs arbitrary: seen)
  case (Cons x xs)
  then show ?case
    by (cases "DFSVisit fuel E g x dest seen") (auto simp: case_prod_beta split: prod.splits)
qed simp

lemma DFSVisit_succs:
  assumes "src \<in> node_ids g"
  shows "DFSVisit (Suc fuel) E g src dest seen =
     (if src = dest then Ok (True, seen)
      else dfs_neighbors fuel E g (hb_succs (E, g) src) dest (mput src True seen))"
proof -
  obtain n where n: "node_at g src = Ok n" "mget (id2node g) src = Some n"
    using node_at_ids [OF assms] by blast
  then show ?thesis by (simp add: hb_succs_def dfs_append bindR_assoc case_prod_beta cong: if_cong)
qed

definition marked :: "(int, bool) gomap \<Rightarrow> int set" where
  "marked seen = {i. mget0 False seen i}"

lemma marked_mput [simp]: "marked (mput i True seen) = insert i (marked seen)"
  by (auto simp: marked_def)

lemma marked_Nil [simp]: "marked [] = {}"
  by (simp add: marked_def)

text \<open>
  What the search establishes from marked nodes \<open>V\<close> to \<open>V'\<close>: it found \<open>dest\<close> at the end of a path,
  or every newly marked node has only marked successors and \<open>dest\<close> was not met.
\<close>

definition searched :: "env \<times> RFGraph \<Rightarrow> int \<Rightarrow> int list \<Rightarrow> int set \<Rightarrow> bool \<Rightarrow> int set \<Rightarrow> bool" where
  "searched c dest starts V found V' \<longleftrightarrow> V \<subseteq> V' \<and>
     (if found then \<exists>s \<in> set starts. reaches (hb_succs c) s dest
      else set starts \<subseteq> V' \<and> dest \<notin> V' - V \<and> (\<forall>x \<in> V' - V. set (hb_succs c x) \<subseteq> V'))"

lemma searched_Nil: "searched c dest [] V False V"
  by (simp add: searched_def)

lemma searched_skip: "searched c dest xs V found V' \<Longrightarrow> x \<in> V \<Longrightarrow> searched c dest (x # xs) V found V'"
  by (auto simp: searched_def)

lemma searched_found: "searched c dest [x] V True V' \<Longrightarrow> searched c dest (x # xs) V True V'"
  by (simp add: searched_def)

lemma searched_next:
  assumes "searched c dest [x] V False V1" and "searched c dest xs V1 found V'"
  shows "searched c dest (x # xs) V found V'"
proof (cases found)
  case True
  with assms show ?thesis by (auto simp: searched_def)
next
  case False
  with assms have s: "V \<subseteq> V1" "V1 \<subseteq> V'" "x \<in> V1" "set xs \<subseteq> V'" "dest \<notin> V1 - V" "dest \<notin> V' - V1"
    and old: "\<forall>y \<in> V1 - V. set (hb_succs c y) \<subseteq> V1"
    and new: "\<forall>y \<in> V' - V1. set (hb_succs c y) \<subseteq> V'"
    by (simp_all add: searched_def)
  from old new s(2) have "\<forall>y \<in> V' - V. set (hb_succs c y) \<subseteq> V'" by blast
  with s False show ?thesis by (auto simp: searched_def)
qed

lemma searched_visit:
  assumes "src \<noteq> dest" and "searched c dest (hb_succs c src) (insert src V) found V'"
  shows "searched c dest [src] V found V'"
proof (cases found)
  case True
  with assms(2) obtain s where "s \<in> set (hb_succs c src)" "reaches (hb_succs c) s dest"
    by (auto simp: searched_def)
  then have "reaches (hb_succs c) src dest" by (rule reaches_first)
  with True assms(2) show ?thesis by (simp add: searched_def)
next
  case False
  with assms show ?thesis by (auto simp: searched_def)
qed

text \<open>The search with \<open>fuel\<close> to spare, from nodes of the graph.\<close>

definition visit_spec :: "nat \<Rightarrow> env \<Rightarrow> RFGraph \<Rightarrow> int \<Rightarrow> bool" where
  "visit_spec fuel E g dest \<longleftrightarrow> (\<forall>src seen. src \<in> node_ids g \<longrightarrow> src \<notin> marked seen \<longrightarrow>
     card (node_ids g - marked seen) \<le> fuel \<longrightarrow>
     (\<exists>found seen'. DFSVisit fuel E g src dest seen = Ok (found, seen') \<and>
        searched (E, g) dest [src] (marked seen) found (marked seen')))"

lemma neighbors_correct:
  assumes "visit_spec fuel E g dest"
  shows "set nbs \<subseteq> node_ids g \<Longrightarrow> card (node_ids g - marked seen) \<le> fuel \<Longrightarrow>
      \<exists>found seen'. dfs_neighbors fuel E g nbs dest seen = Ok (found, seen') \<and>
        searched (E, g) dest nbs (marked seen) found (marked seen')"
proof (induction nbs arbitrary: seen)
  case Nil
  show ?case by (intro exI [of _ False] exI [of _ seen]) (simp add: searched_Nil)
next
  case (Cons nb nbs)
  show ?case
  proof (cases "nb \<in> marked seen")
    case True
    from Cons.IH [OF _ Cons.prems(2)] Cons.prems(1) obtain found seen' where
      "dfs_neighbors fuel E g nbs dest seen = Ok (found, seen')"
      "searched (E, g) dest nbs (marked seen) found (marked seen')" by auto
    with True searched_skip show ?thesis by (auto simp: marked_def)
  next
    case False
    with assms Cons.prems obtain found seen1 where v: "DFSVisit fuel E g nb dest seen = Ok (found, seen1)"
      "searched (E, g) dest [nb] (marked seen) found (marked seen1)"
      unfolding visit_spec_def by (meson list.set_intros(1) subset_iff)
    show ?thesis
    proof (cases found)
      case True
      with v False searched_found show ?thesis by (auto simp: marked_def)
    next
      case nf: False
      have "card (node_ids g - marked seen1) \<le> card (node_ids g - marked seen)"
        using v(2) by (intro card_mono) (auto simp: searched_def)
      with Cons.IH [of seen1] Cons.prems obtain r seen' where
        "dfs_neighbors fuel E g nbs dest seen1 = Ok (r, seen')"
        "searched (E, g) dest nbs (marked seen1) r (marked seen')" by auto
      with v nf False searched_next show ?thesis by (auto simp: marked_def)
    qed
  qed
qed

lemma visit_correct:
  assumes wf: "wf_hb (E, g)"
  shows "visit_spec fuel E g dest"
proof (induction fuel)
  case 0
  have "\<not> card (node_ids g - V) \<le> 0" if "src \<in> node_ids g" "src \<notin> V" for src V
    using that by auto
  then show ?case by (auto simp: visit_spec_def)
next
  case (Suc fuel)
  show ?case unfolding visit_spec_def
  proof (intro allI impI)
    fix src seen
    assume a: "src \<in> node_ids g" "src \<notin> marked seen" "card (node_ids g - marked seen) \<le> Suc fuel"
    show "\<exists>found seen'. DFSVisit (Suc fuel) E g src dest seen = Ok (found, seen') \<and>
        searched (E, g) dest [src] (marked seen) found (marked seen')"
    proof (cases "src = dest")
      case True
      then show ?thesis by (intro exI [of _ True] exI [of _ seen]) (auto simp: searched_def)
    next
      case False
      have "card (node_ids g - marked (mput src True seen)) < card (node_ids g - marked seen)"
        using hb.unvisited_less [OF wf, of src "marked seen" "insert src (marked seen)"] a
        unfolding marked_mput by simp
      with a(3) have c: "card (node_ids g - marked (mput src True seen)) \<le> fuel" by linarith
      have "set (hb_succs (E, g) src) \<subseteq> node_ids g" using wf a(1) by (simp add: wf_hb_def)
      from neighbors_correct [OF Suc this c] obtain found seen' where
        "dfs_neighbors fuel E g (hb_succs (E, g) src) dest (mput src True seen) = Ok (found, seen')"
        "searched (E, g) dest (hb_succs (E, g) src) (insert src (marked seen)) found (marked seen')"
        by auto
      with False searched_visit [OF False] show ?thesis
        unfolding DFSVisit_succs [OF a(1)] by auto
    qed
  qed
qed

lemma search_reaches:
  assumes "wf_hb (E, g)" and "src \<in> node_ids g"
  shows "search E g src dest = Ok (reaches (hb_succs (E, g)) src dest)"
proof -
  have "card (node_ids g) \<le> length (id2node g)"
    unfolding node_ids_def using card_image_le [of "set (id2node g)" fst] card_length [of "id2node g"]
    by simp
  with visit_correct [OF assms(1), of "Suc (length (id2node g))" dest] assms(2)
  obtain found seen where v: "DFSVisit (Suc (length (id2node g))) E g src dest [] = Ok (found, seen)"
    "searched (E, g) dest [src] {} found (marked seen)"
    unfolding visit_spec_def by (metis Diff_empty empty_iff le_SucI marked_Nil)
  have "found \<longleftrightarrow> reaches (hb_succs (E, g)) src dest"
  proof
    assume "reaches (hb_succs (E, g)) src dest"
    then have "dest \<in> marked seen" if "\<not> found"
      by (rule reaches_closed) (use v(2) that in \<open>auto simp: searched_def\<close>)
    moreover have "dest \<notin> marked seen" if "\<not> found" using v(2) that by (simp add: searched_def)
    ultimately show found by blast
  qed (use v(2) in \<open>auto simp: searched_def\<close>)
  with v(1) show ?thesis by (simp add: search_def)
qed

section \<open>The cached answer\<close>

text \<open>
  The specification: two nodes are ordered when one reaches the other, unless one of them belongs to
  a goroutine that a loop spawned around the other.
\<close>

definition node_gid :: "RFGraph \<Rightarrow> int \<Rightarrow> int" where
  "node_gid g i = (case mget (id2node g) i of None \<Rightarrow> 0 | Some n \<Rightarrow> gid n)"

definition ordered_nodes :: "env \<Rightarrow> RFGraph \<Rightarrow> int \<Rightarrow> int \<Rightarrow> bool" where
  "ordered_nodes E g i j \<longleftrightarrow>
     \<not> in_spawn_loop g (node_gid g i) j \<and> \<not> in_spawn_loop g (node_gid g j) i \<and>
     (reaches (hb_succs (E, g)) i j \<or> reaches (hb_succs (E, g)) j i)"

definition cache_sound :: "env \<Rightarrow> RFGraph \<Rightarrow> bool" where
  "cache_sound E g \<longleftrightarrow> (\<forall>i \<in> node_ids g. \<forall>j \<in> node_ids g. \<forall>v.
     mget (cache g) (node_key i j) = Some v \<longrightarrow> v = ordered_nodes E g i j)"

lemma ordered_nodes_sym: "ordered_nodes E g i j = ordered_nodes E g j i"
  by (auto simp: ordered_nodes_def)

lemma node_key_inject: "node_key a b = node_key c d \<longleftrightarrow> (a = c \<and> b = d) \<or> (a = d \<and> b = c)"
  by (auto simp: node_key_def pair_key_inject)

lemma cache_graph [simp]:
  "node_ids (g\<lparr>cache := c\<rparr>) = node_ids g" "kids (g\<lparr>cache := c\<rparr>) = kids g"
  "node_gid (g\<lparr>cache := c\<rparr>) = node_gid g" "in_spawn_loop (g\<lparr>cache := c\<rparr>) = in_spawn_loop g"
  "wf_nodes (g\<lparr>cache := c\<rparr>) = wf_nodes g" "hb_succs (E, g\<lparr>cache := c\<rparr>) = hb_succs (E, g)"
  by (simp_all add: node_ids_def kids_def node_gid_def in_spawn_loop_def wf_nodes_def hb_succs_def
      fun_eq_iff cong: if_cong)

lemma cache_ordered [simp]:
  "ordered_nodes E (g\<lparr>cache := c\<rparr>) i j = ordered_nodes E g i j"
  "wf_hb (E, g\<lparr>cache := c\<rparr>) = wf_hb (E, g)"
  by (simp_all add: ordered_nodes_def wf_hb_def)

lemma cache_sound_put:
  assumes "cache_sound E g" and "v = ordered_nodes E g i j"
  shows "cache_sound E (put_cache (node_key i j) v g)"
  unfolding cache_sound_def
  using assms ordered_nodes_sym [of E g i j]
  by (auto simp: cache_sound_def node_key_inject put_cache_def)

lemma wf_nodes_id: "wf_nodes g \<Longrightarrow> mget (id2node g) i = Some n \<Longrightarrow> node_id n = i"
  by (auto simp: wf_nodes_def list_all_iff dest!: map_of_SomeD)

lemma can_reach_spec:
  assumes wf: "wf_hb (E, g)" "wf_nodes g" and c: "cache_sound E g"
    and ab: "rw_n a \<in> node_ids g" "rw_n b \<in> node_ids g"
  shows "\<exists>cc. DFSCanReach E g a b = Ok (ordered_nodes E g (rw_n a) (rw_n b), g\<lparr>cache := cc\<rparr>) \<and>
    cache_sound E (g\<lparr>cache := cc\<rparr>)"
proof -
  let ?i = "rw_n a" and ?j = "rw_n b"
  let ?k = "node_key ?i ?j"
  obtain na nb where n: "node_at g ?i = Ok na" "mget (id2node g) ?i = Some na"
    "node_at g ?j = Ok nb" "mget (id2node g) ?j = Some nb"
    using node_at_ids [OF ab(1)] node_at_ids [OF ab(2)] by blast
  have id: "node_id na = ?i" "node_id nb = ?j" using wf_nodes_id [OF wf(2)] n by auto
  have loops: "CheckGoInLoops g a b =
      Ok (in_spawn_loop g (node_gid g ?i) ?j \<or> in_spawn_loop g (node_gid g ?j) ?i)"
    using n id by (simp add: CheckGoInLoops_def node_gid_def)
  note s = search_reaches [OF wf(1) ab(1), of ?j] search_reaches [OF wf(1) ab(2), of ?i]
  have new: "DFSCanReach E g a b =
      Ok (ordered_nodes E g ?i ?j, put_cache ?k (ordered_nodes E g ?i ?j) g)"
    if "mget (cache g) ?k = None"
    using that n id loops s by (auto simp: DFSCanReach_def ordered_nodes_def Let_def)
  show ?thesis
  proof (cases "mget (cache g) ?k")
    case None
    with new cache_sound_put [OF c refl] show ?thesis
      by (intro exI [of _ "mput ?k (ordered_nodes E g ?i ?j) (cache g)"]) (simp add: put_cache_def)
  next
    case (Some v)
    with c ab have "v = ordered_nodes E g ?i ?j" by (auto simp: cache_sound_def)
    with Some n id c show ?thesis
      by (intro exI [of _ "cache g"]) (simp add: DFSCanReach_def Let_def)
  qed
qed

end
