(* ===== verification/GoStrings.thy ===== *)
theory GoStrings
  imports Main
begin

text \<open>
  The comparisons of package \<open>strings\<close> the sources use on statements, types and comments:
  \<open>strings.Contains\<close>, and \<open>strings.EqualFold\<close> for ASCII text.
\<close>

fun str_contains :: "string \<Rightarrow> string \<Rightarrow> bool" where
  "str_contains s sub =
     (take (length sub) s = sub \<or> (case s of [] \<Rightarrow> False | _ # s' \<Rightarrow> str_contains s' sub))"

declare str_contains.simps [simp del]

definition fold_char :: "char \<Rightarrow> char" where
  "fold_char c = (let n = of_char c :: nat in if 65 \<le> n \<and> n \<le> 90 then char_of (n + 32) else c)"

definition EqualFold :: "string \<Rightarrow> string \<Rightarrow> bool" where
  "EqualFold s t = (map fold_char s = map fold_char t)"

text \<open>Folding does not touch the characters below the letters.\<close>

lemma fold_char_eq:
  assumes "(of_char d :: nat) < 65"
  shows "fold_char c = d \<longleftrightarrow> c = d"
proof (cases "65 \<le> (of_char c :: nat) \<and> (of_char c :: nat) \<le> 90")
  case True
  then have "of_char (fold_char c) = (of_char c :: nat) + 32"
    by (simp add: fold_char_def Let_def)
  with True assms show ?thesis by auto
qed (auto simp: fold_char_def Let_def)

lemma str_contains_iff: "str_contains s sub \<longleftrightarrow> (\<exists>u v. s = u @ sub @ v)"
proof (induction s)
  case Nil
  show ?case by (subst str_contains.simps) auto
next
  case (Cons c s)
  have "(\<exists>u v. c # s = u @ sub @ v) \<longleftrightarrow> (\<exists>v. c # s = sub @ v) \<or> (\<exists>u v. s = u @ sub @ v)"
    by (metis append_Cons append_Nil list.exhaust list.inject)
  moreover have "take (length sub) (c # s) = sub \<longleftrightarrow> (\<exists>v. c # s = sub @ v)"
    by (metis append_eq_conv_conj append_take_drop_id)
  ultimately show ?case using Cons by (subst str_contains.simps) simp
qed

end
