(* ===== verification/RaceDetect.thy ===== *)
theory RaceDetect
  imports HappensBefore GoStrings
begin

text \<open>
  \<open>concurrency/rfgplus.go\<close>: the records of reads and writes per points-to set and per object, the
  detection of races from them, and the summary over several entries. Printing is left out.
\<close>

section \<open>Records of accesses\<close>

type_synonym 'k accesses = "('k, (int, RWNode) gomap) gomap"

definition record_access :: "'k \<Rightarrow> RWNode \<Rightarrow> 'k accesses \<Rightarrow> 'k accesses" where
  "record_access k n m = mput k (mput (rw_id n) n (mget0 [] m k)) m"

text \<open>\<open>delete(m[k], id)\<close>: deleting from a nil map does nothing.\<close>

definition forget_access :: "'k \<Rightarrow> RWNode \<Rightarrow> 'k accesses \<Rightarrow> 'k accesses" where
  "forget_access k n m = (case mget m k of None \<Rightarrow> m | Some ns \<Rightarrow> mput k (mdel (rw_id n) ns) m)"

definition UpdateRecords :: "int list \<Rightarrow> RWNode \<Rightarrow> RFGPlusGraph \<Rightarrow> RFGPlusGraph" where
  "UpdateRecords pts n g =
     (if pts = [] then g
      else let key = sprint_ints pts;
               g = (if rw_write n then g\<lparr>pts2WriteNode := record_access key n (pts2WriteNode g)\<rparr>
                    else g\<lparr>pts2ReadNode := record_access key n (pts2ReadNode g)\<rparr>)
           in fold (\<lambda>obj g.
                if rw_write n then g\<lparr>obj2WriteNode := record_access obj n (obj2WriteNode g)\<rparr>
                else g\<lparr>obj2ReadNode := record_access obj n (obj2ReadNode g)\<rparr>) pts g)"

definition ChangeRead2Write :: "env \<Rightarrow> RWNode \<Rightarrow> RFGPlusGraph \<Rightarrow> RFGPlusGraph" where
  "ChangeRead2Write E n g =
     (if \<not> MORE_WRITE E then g
      else let key = sprint_ints (rw_pts n);
               g = g\<lparr>pts2ReadNode := forget_access key n (pts2ReadNode g)\<rparr>;
               g = g\<lparr>pts2WriteNode := record_access key n (pts2WriteNode g)\<rparr>
           in fold (\<lambda>obj g.
                let g = g\<lparr>obj2ReadNode := forget_access obj n (obj2ReadNode g)\<rparr>
                in g\<lparr>obj2WriteNode := record_access obj n (obj2WriteNode g)\<rparr>) (rw_pts n) g)"

section \<open>Detection\<close>

definition Checked :: "RFGraph \<Rightarrow> RWNode \<Rightarrow> RWNode \<Rightarrow> bool res" where
  "Checked g a b =
     bindR (node_at g (rw_n a)) (\<lambda>na. bindR (node_at g (rw_n b)) (\<lambda>nb.
       Ok (mhas (checked (rfgplus g)) (node_key (node_id na) (node_id nb)))))"

definition race_key :: "env \<Rightarrow> RWNode \<Rightarrow> RWNode \<Rightarrow> string" where
  "race_key E a b =
     (if UNIQUE_RACE_LOC E then
        let p1 = inst_pos (rw_inst a); p2 = inst_pos (rw_inst b) in
        if p1 > p2 then pair_key p2 p1 else pair_key p1 p2
      else if rw_id a > rw_id b then pair_key (rw_id b) (rw_id a)
      else pair_key (rw_id a) (rw_id b))"

definition ignored_stmt :: "string \<Rightarrow> bool" where
  "ignored_stmt s = list_ex (str_contains s)
     [''err'', ''Err'', ''error'', ''Error'', ''logger'', ''plog.'', ''Info'', ''Warningf'', ''Panicf'']"

definition AddRace :: "env \<Rightarrow> source \<Rightarrow> RWNode \<Rightarrow> RWNode \<Rightarrow> RFGPlusGraph \<Rightarrow> RFGPlusGraph" where
  "AddRace E src a b g =
     (let p1 = inst_pos (rw_inst a); p2 = inst_pos (rw_inst b) in
      if p1 = NoPos \<or> p2 = NoPos then g
      else let key = race_key E a b in
      if mhas (races g) key then g
      else case src p1 of (la, sa) \<Rightarrow> case src p2 of (lb, sb) \<Rightarrow>
        if ignored_stmt sa \<or> ignored_stmt sb then g
        else if EqualFold sa sb \<and> str_contains sa '':='' then g
        else g\<lparr>races := mput key \<lparr>race_a = a, race_b = b, pos_a = p1, pos_b = p2, stmt_a = sa,
               stmt_b = sb, loc_a = la, loc_b = lb, race_entries = []\<rparr> (races g)\<rparr>)"

text \<open>The body of the two inner loops: is the pair a race?\<close>

definition check_pair :: "env \<Rightarrow> source \<Rightarrow> RWNode \<Rightarrow> RWNode \<Rightarrow> RFGraph \<Rightarrow> RFGraph res" where
  "check_pair E src write acc g =
     bindR (node_at g (rw_n write)) (\<lambda>nw. bindR (node_at g (rw_n acc)) (\<lambda>na.
     bindR (Checked g write acc) (\<lambda>done.
       if gid nw \<noteq> gid na \<and> \<not> done then
         if HasCommonIntArray (rw_lockset write) (rw_lockset acc) then Ok g
         else bindR (DFSCanReach E g write acc) (\<lambda>(hb, g).
           if hb then Ok g else Ok (g\<lparr>rfgplus := AddRace E src write acc (rfgplus g)\<rparr>))
       else Ok g)))"

text \<open>The loop over \<open>wnodes\<close> from an index on, for one object.\<close>

fun check_writes :: "env \<Rightarrow> source \<Rightarrow> RWNode list \<Rightarrow> RWNode list \<Rightarrow> RFGraph \<Rightarrow> RFGraph res" where
  "check_writes E src reads [] g = Ok g"
| "check_writes E src reads (w # ws) g =
     bindR (loopR (check_pair E src w) reads g) (\<lambda>g.
     bindR (loopR (check_pair E src w) ws g) (\<lambda>g. check_writes E src reads ws g))"

definition values_of :: "env \<Rightarrow> (int, RWNode) gomap \<Rightarrow> RWNode list" where
  "values_of E m =
     concat (map (\<lambda>k. case mget m k of None \<Rightarrow> [] | Some v \<Rightarrow> [v]) (range_keys (map_order E) m))"

definition DetectRace :: "env \<Rightarrow> source \<Rightarrow> RFGraph \<Rightarrow> RFGraph res" where
  "DetectRace E src g =
     (if USE_PTS_COMBINE E then
        loopR (\<lambda>obj g. check_writes E src (values_of E (mget0 [] (pts2ReadNode (rfgplus g)) obj))
                 (values_of E (mget0 [] (pts2WriteNode (rfgplus g)) obj)) g)
          (range_keys (str_order E) (pts2WriteNode (rfgplus g))) g
      else
        loopR (\<lambda>obj g. check_writes E src (values_of E (mget0 [] (obj2ReadNode (rfgplus g)) obj))
                 (values_of E (mget0 [] (obj2WriteNode (rfgplus g)) obj)) g)
          (range_keys (map_order E) (obj2WriteNode (rfgplus g))) g)"

section \<open>Summary\<close>

text \<open>The package variable \<open>summary\<close>: all races across different entries.\<close>

type_synonym summary = "(string, DataRace) gomap"

definition summarize_race :: "string \<Rightarrow> string \<Rightarrow> DataRace \<Rightarrow> summary \<Rightarrow> summary" where
  "summarize_race entry key race summary = (case mget summary key of
       Some r \<Rightarrow> mput key (r\<lparr>race_entries := mput entry entry (race_entries r)\<rparr>) summary
     | None \<Rightarrow> mput key (race\<lparr>race_entries := mput entry entry []\<rparr>) summary)"

definition SummarizeRaces ::
  "env \<Rightarrow> string \<Rightarrow> (string, DataRace) gomap \<Rightarrow> summary \<Rightarrow> summary" where
  "SummarizeRaces E entry rs summary =
     fold (\<lambda>key s. case mget rs key of None \<Rightarrow> s | Some race \<Rightarrow> summarize_race entry key race s)
       (range_keys (str_order E) rs) summary"

end
