(* ===== verification/HBEdges.thy ===== *)
theory HBEdges
  imports HappensBefore
begin

text \<open>
  What \<open>AddHappenBeforeEdges\<close> builds: breadth-first search visits exactly the nodes reachable from
  the main goroutine, and every visited node that informs others gets an edge to each consumer of
  its objects. The properties of the happens-before component.
\<close>

section \<open>Adding the edges of one node\<close>

definition sync_targets :: "RFGraph \<Rightarrow> int \<Rightarrow> int list" where
  "sync_targets g i = (case mget (id2node g) i of None \<Rightarrow> []
     | Some n \<Rightarrow> (case informs g n of Ok pts \<Rightarrow> concat (map (consumers_of g) pts) | _ \<Rightarrow> []))"

definition push_sync :: "int \<Rightarrow> int list \<Rightarrow> (int, int list) gomap \<Rightarrow> (int, int list) gomap" where
  "push_sync src dsts s = fold (\<lambda>dst s. mput src (mget0 [] s src @ [dst]) s) dsts s"

lemma mget0_push_sync:
  "mget0 [] (push_sync src dsts s) x = mget0 [] s x @ (if x = src then dsts else [])"
  by (induction dsts arbitrary: s) (auto simp: push_sync_def)

lemma fold_append_sync:
  "fold (append_sync src) dsts g = g\<lparr>syncAdjList := push_sync src dsts (syncAdjList g)\<rparr>"
  by (induction dsts arbitrary: g) (auto simp: push_sync_def append_sync_def)

lemma addEdge_eq:
  "addEdge pts src g =
     g\<lparr>syncAdjList := push_sync src (concat (map (consumers_of g) pts)) (syncAdjList g)\<rparr>"
proof -
  have "consumers_of (h\<lparr>syncAdjList := s\<rparr>) = consumers_of h" for h s
    by (simp add: consumers_of_def fun_eq_iff)
  then show ?thesis
    by (induction pts arbitrary: g) (auto simp: addEdge_def fold_append_sync push_sync_def)
qed

lemma sync_graph [simp]:
  "node_ids (g\<lparr>syncAdjList := s\<rparr>) = node_ids g" "kids (g\<lparr>syncAdjList := s\<rparr>) = kids g"
  "node_at (g\<lparr>syncAdjList := s\<rparr>) i = node_at g i" "informs (g\<lparr>syncAdjList := s\<rparr>) = informs g"
  "consumers_of (g\<lparr>syncAdjList := s\<rparr>) = consumers_of g"
  "wf_nodes (g\<lparr>syncAdjList := s\<rparr>) = wf_nodes g"
  by (auto simp: node_ids_def kids_def node_at_def informs_def consumers_of_def node_pts_def
      getPTS_def ptr_pts_def wf_nodes_def fun_eq_iff
      split: TypeOfNode.splits option.splits cong: if_cong)

definition informs_ok :: "RFGraph \<Rightarrow> int \<Rightarrow> bool" where
  "informs_ok g i \<longleftrightarrow> (case mget (id2node g) i of None \<Rightarrow> False | Some n \<Rightarrow> is_ok (informs g n))"

lemma add_sync_edges_Ok:
  assumes "informs_ok g i"
  shows "add_sync_edges (g\<lparr>syncAdjList := s\<rparr>) i = Ok (g\<lparr>syncAdjList := push_sync i (sync_targets g i) s\<rparr>)"
proof -
  from assms obtain n pts where "mget (id2node g) i = Some n" "informs g n = Ok pts"
    by (auto simp: informs_ok_def is_ok_iff split: option.splits)
  then show ?thesis
    by (simp add: add_sync_edges_def addEdge_eq sync_targets_def node_at_def)
qed

section \<open>The breadth-first loop\<close>

lemma enqueue_spec:
  assumes "enqueue ks (seen, queue) = (seen', queue')"
  shows "marked seen' = marked seen \<union> set ks \<and>
    (\<exists>new. queue' = queue @ new \<and> distinct new \<and> set new = set ks - marked seen)"
  using assms
proof (induction ks arbitrary: seen queue)
  case (Cons k ks)
  show ?case
  proof (cases "mget0 False seen k")
    case True
    with Cons show ?thesis by (auto simp: enqueue_def marked_def)
  next
    case False
    with Cons.prems have "enqueue ks (mput k True seen, queue @ [k]) = (seen', queue')"
      by (simp add: enqueue_def)
    from Cons.IH [OF this] obtain new where
      "marked seen' = insert k (marked seen) \<union> set ks" "queue' = queue @ k # new" "distinct new"
      "set new = set ks - insert k (marked seen)" by auto
    moreover have "k \<notin> marked seen" using False by (simp add: marked_def)
    ultimately show ?thesis by (auto intro!: exI [of _ "k # new"])
  qed
qed (simp add: enqueue_def)

text \<open>\<open>done\<close> nodes have left the queue.\<close>

definition bfs_inv :: "RFGraph \<Rightarrow> int \<Rightarrow> (int, int list) gomap \<Rightarrow> int set \<Rightarrow> int list \<Rightarrow> bool" where
  "bfs_inv g root s V queue \<longleftrightarrow> distinct queue \<and> set queue \<subseteq> V \<and> root \<in> V \<and>
     V \<subseteq> {i. reaches (kids g) root i} \<and> (\<forall>x \<in> V - set queue. set (kids g x) \<subseteq> V) \<and>
     (\<forall>x. mget0 [] s x =
        mget0 [] (syncAdjList g) x @ (if x \<in> V - set queue then sync_targets g x else []))"

lemma bfs_step:
  assumes "bfs_inv g root s V (cur # queue)"
    and "V' = V \<union> set (kids g cur)" and "distinct new" and "set new = set (kids g cur) - V"
  shows "bfs_inv g root (push_sync cur (sync_targets g cur) s) V' (queue @ new)"
proof -
  note i = assms(1) [unfolded bfs_inv_def]
  have cur: "cur \<in> V" "cur \<notin> set queue" "reaches (kids g) root cur" using i by auto
  have gone: "V' - set (queue @ new) = insert cur (V - set (cur # queue))"
    using i assms(2,4) cur by auto
  have "V' \<subseteq> {i. reaches (kids g) root i}"
    using i assms(2) reaches_step [OF cur(3)] by auto
  moreover have "\<forall>x \<in> V' - set (queue @ new). set (kids g x) \<subseteq> V'"
    unfolding gone using i assms(2) by auto
  moreover have "mget0 [] (push_sync cur (sync_targets g cur) s) x = mget0 [] (syncAdjList g) x @
      (if x \<in> V' - set (queue @ new) then sync_targets g x else [])" for x
    unfolding gone mget0_push_sync using i by simp
  moreover have "distinct (queue @ new)" "set (queue @ new) \<subseteq> V'" "root \<in> V'"
    using i assms(2-4) by auto
  ultimately show ?thesis unfolding bfs_inv_def by blast
qed

lemma hb_loop_Ok:
  assumes wf: "wf_flow g" and ok: "\<forall>i. reaches (kids g) root i \<longrightarrow> informs_ok g i"
    and r: "root \<in> node_ids g"
  shows "bfs_inv g root s (marked seen) queue \<Longrightarrow>
    length queue + card (node_ids g - marked seen) < fuel \<Longrightarrow>
    \<exists>s' V. hb_loop fuel (g\<lparr>syncAdjList := s\<rparr>) seen queue = Ok (g\<lparr>syncAdjList := s'\<rparr>) \<and>
      bfs_inv g root s' V []"
proof (induction fuel arbitrary: s seen queue)
  case (Suc fuel)
  show ?case
  proof (cases queue)
    case Nil
    with Suc.prems(1) show ?thesis by auto
  next
    case (Cons cur queue1)
    obtain seen' queue' where e: "enqueue (kids g cur) (seen, queue1) = (seen', queue')" by fastforce
    from enqueue_spec [OF e] obtain new where
      m: "marked seen' = marked seen \<union> set (kids g cur)" and
      q: "queue' = queue1 @ new" "distinct new" "set new = set (kids g cur) - marked seen" by blast
    have reach: "reaches (kids g) root cur"
      using Suc.prems(1) Cons by (auto simp: bfs_inv_def)
    have inv: "bfs_inv g root (push_sync cur (sync_targets g cur) s) (marked seen') queue'"
      using bfs_step [OF Suc.prems(1) [unfolded Cons] m q(2,3)] q(1) by simp
    have "cur \<in> node_ids g" using flow.reaches_nodes [OF wf r reach] .
    then have "set new \<subseteq> node_ids g - marked seen"
      using flow.succ_nodes [OF wf, of cur] q(3) by auto
    moreover have "node_ids g - marked seen' = (node_ids g - marked seen) - set new"
      using m q(3) by auto
    ultimately have "card (node_ids g - marked seen') = card (node_ids g - marked seen) - card (set new)"
      and "card (set new) \<le> card (node_ids g - marked seen)"
      by (auto intro: card_Diff_subset card_mono)
    moreover have "length queue' = length queue1 + card (set new)"
      using q(1) distinct_card [OF q(2)] by simp
    moreover have "length queue = Suc (length queue1)" using Cons by simp
    ultimately have "length queue' + card (node_ids g - marked seen') < fuel"
      using Suc.prems(2) by linarith
    from Suc.IH [OF inv this] Cons ok reach e show ?thesis
      by (simp add: add_sync_edges_Ok)
  qed
qed simp

lemma AddHappenBeforeEdges_Ok:
  assumes wf: "wf_flow g" and "roots g = root # rest" and r: "root \<in> node_ids g"
    and ok: "\<forall>i. reaches (kids g) root i \<longrightarrow> informs_ok g i"
  shows "\<exists>s a b. AddHappenBeforeEdges g =
      Ok (g\<lparr>syncAdjList := s, rfgplus := (rfgplus g)\<lparr>size_node := a, size_edge := b\<rparr>\<rparr>) \<and>
    (\<forall>x. mget0 [] s x = mget0 [] (syncAdjList g) x @
       (if reaches (kids g) root x then sync_targets g x else []))"
proof -
  have m: "marked [(root, True)] = {root}" by (auto simp: marked_def mget0_def)
  have inv: "bfs_inv g root (syncAdjList g) (marked [(root, True)]) [root]"
    by (simp add: bfs_inv_def m)
  have "card (node_ids g - {root}) < card (node_ids g)" using r by (intro psubset_card_mono) auto
  moreover have "card (node_ids g) \<le> length (id2node g)"
    unfolding node_ids_def using card_image_le [of "set (id2node g)" fst] card_length [of "id2node g"]
    by simp
  ultimately have "length [root] + card (node_ids g - marked [(root, True)]) < Suc (length (id2node g))"
    by (simp add: m)
  from hb_loop_Ok [OF wf ok r inv this] obtain s V where
    l: "hb_loop (Suc (length (id2node g))) g [(root, True)] [root] = Ok (g\<lparr>syncAdjList := s\<rparr>)"
    and i: "bfs_inv g root s V []" by auto
  have V: "V = {b. reaches (kids g) root b}"
    by (rule flow.visited_complete) (use i in \<open>auto simp: bfs_inv_def\<close>)
  have "mget0 [] s x = mget0 [] (syncAdjList g) x @
      (if reaches (kids g) root x then sync_targets g x else [])" for x
    using i by (simp add: bfs_inv_def V)
  moreover have "\<exists>a b. AddHappenBeforeEdges g =
      Ok (g\<lparr>syncAdjList := s, rfgplus := (rfgplus g)\<lparr>size_node := a, size_edge := b\<rparr>\<rparr>)"
    using assms(2) l
    by (simp add: AddHappenBeforeEdges_def slice_get_def in_range_def Let_def del: hb_loop.simps) blast
  ultimately show ?thesis by blast
qed


section \<open>From the edges to the order\<close>

text \<open>
  The graph \<open>DFSVisit\<close> searches is well formed: select cases and consumers are nodes, and the
  edges that were there lead to nodes.
\<close>

definition wf_sync :: "RFGraph \<Rightarrow> bool" where
  "wf_sync g \<longleftrightarrow> wf_flow g \<and>
     (\<forall>i \<in> node_ids g. set (mget0 [] (syncAdjList g) i) \<subseteq> node_ids g \<and> set (sync_targets g i) \<subseteq> node_ids g) \<and>
     (\<forall>i n. mget (id2node g) i = Some n \<longrightarrow> set (case_ids n) \<subseteq> node_ids g)"

lemma wf_hb_of_sync:
  assumes w: "wf_sync g"
    and s: "\<forall>x. mget0 [] s x = mget0 [] (syncAdjList g) x @
       (if reaches (kids g) root x then sync_targets g x else [])"
  shows "wf_hb (E, g\<lparr>syncAdjList := s, rfgplus := p\<rparr>)"
proof -
  let ?g = "g\<lparr>syncAdjList := s, rfgplus := p\<rparr>"
  have "set (hb_succs (E, ?g) i) \<subseteq> node_ids g" if i: "i \<in> node_ids g" for i
  proof -
    have "set (mget0 [] s i) \<subseteq> node_ids g" using w i by (auto simp: wf_sync_def s)
    moreover have "set (kids ?g i) \<subseteq> node_ids g"
      using w i by (simp add: wf_sync_def wf_flow_def kids_def)
    moreover obtain n where "mget (id2node g) i = Some n" "set (case_ids n) \<subseteq> node_ids g"
      using w i by (auto simp: wf_sync_def node_ids_iff)
    ultimately show ?thesis by (auto simp: hb_succs_def split: if_splits)
  qed
  then show ?thesis by (simp add: wf_hb_def node_ids_def)
qed

section \<open>Properties\<close>

text \<open>
  C21: On a graph whose edges lead to nodes and whose cancel nodes carry their context, \<open>AddHappenBeforeEdges\<close> terminates without a panic; it changes
  nothing but the synchronisation edges and the two size counters; exactly the nodes reachable from
  the main goroutine get new edges, one to each consumer of each object they inform, after the
  edges they had; and the result is well formed for the search of a path.
\<close>

theorem hb_edges_exact:
  assumes "wf_sync g" and "roots g = root # rest" and "root \<in> node_ids g"
    and "\<forall>i. reaches (kids g) root i \<longrightarrow> informs_ok g i"
  shows "\<exists>s a b. AddHappenBeforeEdges g =
      Ok (g\<lparr>syncAdjList := s, rfgplus := (rfgplus g)\<lparr>size_node := a, size_edge := b\<rparr>\<rparr>) \<and>
    (\<forall>x. mget0 [] s x = mget0 [] (syncAdjList g) x @
       (if reaches (kids g) root x then sync_targets g x else [])) \<and>
    wf_hb (E, g\<lparr>syncAdjList := s, rfgplus := (rfgplus g)\<lparr>size_node := a, size_edge := b\<rparr>\<rparr>)"
proof -
  have "wf_flow g" using assms(1) by (simp add: wf_sync_def)
  from AddHappenBeforeEdges_Ok [OF this assms(2-4)] show ?thesis
    using wf_hb_of_sync [OF assms(1)] by blast
qed

text \<open>
  The main goroutine writes (2) and sends (3); the goroutine it started (6) receives (4) and writes
  (5).
\<close>

definition hb_value :: ssa_value where
  "hb_value = \<lparr>val_id = 1, val_global = False, val_type = ''chan int'', val_str = ''c'', val_name = ''t0''\<rparr>"

definition hb_pta :: pta_result where
  "hb_pta = \<lparr>PointsTo = (\<lambda>v cg. [7]), GetGlobalVarID = (\<lambda>v. []), GetPTSByObjID = (\<lambda>i. [])\<rparr>"

definition hb_graph :: RFGraph where
  "hb_graph = (InitializeRFG hb_pta)\<lparr>roots := [1],
     adjList := [(Some 1, [6, 2]), (Some 2, [3]), (Some 6, [4]), (Some 4, [5])],
     id2node := [(1, zero_node\<lparr>node_id := 1, typId := NFunc\<rparr>),
       (2, zero_node\<lparr>node_id := 2, typId := NRW\<rparr>),
       (3, zero_node\<lparr>node_id := 3, typId := NChannel, isSender := True, ch_ptr := Some hb_value\<rparr>),
       (4, zero_node\<lparr>node_id := 4, typId := NChannel, gid := 1\<rparr>),
       (5, zero_node\<lparr>node_id := 5, typId := NRW, gid := 1\<rparr>),
       (6, zero_node\<lparr>node_id := 6, typId := NGoroutine, gid := 1\<rparr>)],
     resources := [(7, \<lparr>producers = [3], consumers = [4]\<rparr>)]\<rparr>"

lemmas hb_graph_simps = hb_graph_def InitializeRFG_def hb_pta_def zero_node_def mget0_def

lemma hb_graph_ids: "node_ids hb_graph = {1, 2, 3, 4, 5, 6}"
  by (auto simp: node_ids_def hb_graph_simps)

lemma hb_graph_kids [simp]:
  "kids hb_graph 1 = [6, 2]" "kids hb_graph 2 = [3]" "kids hb_graph 3 = []"
  "kids hb_graph 4 = [5]" "kids hb_graph 5 = []" "kids hb_graph 6 = [4]"
  by (simp_all add: hb_graph_simps kids_def)

lemma hb_graph_targets [simp]:
  "sync_targets hb_graph 1 = []" "sync_targets hb_graph 2 = []" "sync_targets hb_graph 3 = [4]"
  "sync_targets hb_graph 4 = []" "sync_targets hb_graph 5 = []" "sync_targets hb_graph 6 = []"
  "syncAdjList hb_graph = []"
  by (simp_all add: hb_graph_simps sync_targets_def informs_def node_pts_def getPTS_def ptr_pts_def
      hb_value_def consumers_of_def)

lemma hb_graph_wf: "wf_sync hb_graph \<and> wf_nodes hb_graph"
proof -
  have "set (case_ids n) \<subseteq> node_ids hb_graph" if "mget (id2node hb_graph) i = Some n" for i n
    using that by (auto simp: hb_graph_simps case_ids_def split: if_splits)
  then show ?thesis
    by (auto simp: wf_sync_def wf_flow_def hb_graph_ids) (simp add: wf_nodes_def hb_graph_simps)
qed

lemma hb_graph_informs:
  assumes "reaches (kids hb_graph) 1 i"
  shows "informs_ok hb_graph i"
proof -
  have "wf_flow hb_graph" "1 \<in> node_ids hb_graph" using hb_graph_wf hb_graph_ids by (auto simp: wf_sync_def)
  then have "i \<in> node_ids hb_graph" using assms by (rule flow.reaches_nodes)
  then show ?thesis unfolding hb_graph_ids
    by (auto simp: informs_ok_def informs_def hb_graph_simps node_pts_def hb_value_def)
qed

theorem hb_edges_exact_witness:
  "\<exists>s a b. AddHappenBeforeEdges hb_graph =
      Ok (hb_graph\<lparr>syncAdjList := s, rfgplus := (rfgplus hb_graph)\<lparr>size_node := a, size_edge := b\<rparr>\<rparr>) \<and>
    mget0 [] s 3 = [4] \<and> mget0 [] s 4 = []"
proof -
  have r: "roots hb_graph = 1 # []" "1 \<in> node_ids hb_graph"
    by (simp add: hb_graph_def) (simp add: hb_graph_ids)
  have reach: "reaches (kids hb_graph) 1 3"
    by (rule reaches_first [of 2], simp, rule reaches_first [of 3]) simp_all
  have w: "wf_sync hb_graph" using hb_graph_wf by simp
  from hb_edges_exact [OF w r, of default_env] hb_graph_informs obtain s a b where
    e: "AddHappenBeforeEdges hb_graph =
      Ok (hb_graph\<lparr>syncAdjList := s, rfgplus := (rfgplus hb_graph)\<lparr>size_node := a, size_edge := b\<rparr>\<rparr>)"
    and s: "\<forall>x. mget0 [] s x = mget0 [] (syncAdjList hb_graph) x @
       (if reaches (kids hb_graph) 1 x then sync_targets hb_graph x else [])" by blast
  have "mget0 [] s 3 = [4]" "mget0 [] s 4 = []" using s reach by simp_all
  with e show ?thesis by blast
qed

text \<open>
  C20: \<open>DFSCanReach\<close> decides the happens-before relation: with a cache that is
  sound, it terminates without a panic and answers true exactly when one of the two nodes reaches the
  other along control-flow, select-case and (with the flag \<open>Plus\<close>) synchronisation edges, and
  neither belongs to a goroutine spawned in a loop whose nodes include the other; the answer does not
  depend on the order of the arguments, only the cache changes, and it stays sound.
\<close>

theorem can_reach_decides:
  assumes "wf_hb (E, g)" and "wf_nodes g" and "cache_sound E g"
    and "rw_n a \<in> node_ids g" and "rw_n b \<in> node_ids g"
  shows "\<exists>c c'. DFSCanReach E g a b = Ok (ordered_nodes E g (rw_n a) (rw_n b), g\<lparr>cache := c\<rparr>) \<and>
    DFSCanReach E g b a = Ok (ordered_nodes E g (rw_n a) (rw_n b), g\<lparr>cache := c'\<rparr>) \<and>
    cache_sound E (g\<lparr>cache := c\<rparr>) \<and> cache_sound E (g\<lparr>cache := c'\<rparr>)"
  using can_reach_spec [OF assms] can_reach_spec [OF assms(1-3) assms(5,4)]
  unfolding ordered_nodes_sym [of E g "rw_n b"] by blast

definition hb_access :: "int \<Rightarrow> RWNode" where
  "hb_access i = \<lparr>rw_n = i, rw_id = i, rw_write = True,
     rw_inst = \<lparr>inst_id = 0, inst_pos = i, inst_str = [], inst_block = 0, inst_kind = KStore hb_value, inst_val = hb_value\<rparr>,
     rw_lockset = [], rw_pts = [9], rw_field = 0\<rparr>"

text \<open>The send orders the two writes when its edge is followed, and nothing does without it.\<close>

definition synced_graph :: RFGraph where
  "synced_graph = hb_graph\<lparr>syncAdjList := [(3, [4])]\<rparr>"

lemma synced_succs:
  "hb_succs (E, synced_graph) i = (if Plus E \<and> i = 3 then [4] else []) @ kids hb_graph i"
proof -
  have "case_ids n = []" if "mget (id2node hb_graph) i = Some n" for n
    using that by (auto simp: hb_graph_simps case_ids_def split: if_splits)
  then show ?thesis
    by (auto simp: hb_succs_def synced_graph_def kids_def mget0_def split: option.splits)
qed

lemma synced_wf: "wf_hb (E, synced_graph) \<and> wf_nodes synced_graph \<and> cache_sound E synced_graph"
proof (intro conjI)
  have ids: "node_ids synced_graph = {1, 2, 3, 4, 5, 6}" by (simp add: synced_graph_def hb_graph_ids)
  show "wf_hb (E, synced_graph)" unfolding wf_hb_def case_prod_conv synced_succs ids by auto
  show "wf_nodes synced_graph" using hb_graph_wf by (simp add: synced_graph_def)
  have "cache synced_graph = []" by (simp add: synced_graph_def hb_graph_def InitializeRFG_def)
  then show "cache_sound E synced_graph" by (simp add: cache_sound_def)
qed

lemma synced_ordered: "ordered_nodes E synced_graph 2 5 \<longleftrightarrow> Plus E"
proof -
  have loop: "\<not> in_spawn_loop synced_graph i j" for i j
    by (simp add: in_spawn_loop_def synced_graph_def hb_graph_def InitializeRFG_def)
  show ?thesis
  proof (cases "Plus E")
    case True
    then have "reaches (hb_succs (E, synced_graph)) 2 5"
      by (rule_tac reaches_first [of 3], simp add: synced_succs, rule_tac reaches_first [of 4],
          simp add: synced_succs, rule_tac reaches_first [of 5]) (simp_all add: synced_succs)
    with True show ?thesis by (simp add: ordered_nodes_def loop)
  next
    case False
    have "5 \<in> {2, 3 :: int}" if "reaches (hb_succs (E, synced_graph)) 2 5"
      using that by (rule reaches_closed) (auto simp: synced_succs False)
    moreover have "2 \<in> {5 :: int}" if "reaches (hb_succs (E, synced_graph)) 5 2"
      using that by (rule reaches_closed) (auto simp: synced_succs)
    ultimately show ?thesis using False by (auto simp: ordered_nodes_def)
  qed
qed

theorem can_reach_decides_witness:
  "\<forall>E. \<exists>c. DFSCanReach E synced_graph (hb_access 2) (hb_access 5) =
     Ok (Plus E, synced_graph\<lparr>cache := c\<rparr>)"
proof
  fix E
  have ids: "rw_n (hb_access 2) \<in> node_ids synced_graph" "rw_n (hb_access 5) \<in> node_ids synced_graph"
    by (simp_all add: hb_access_def synced_graph_def hb_graph_ids)
  have "rw_n (hb_access i) = i" for i by (simp add: hb_access_def)
  with can_reach_decides [OF _ _ _ ids, of E] synced_wf synced_ordered
  show "\<exists>c. DFSCanReach E synced_graph (hb_access 2) (hb_access 5) =
     Ok (Plus E, synced_graph\<lparr>cache := c\<rparr>)" by auto
qed

end
