(* ===== verification/RaceProps.thy ===== *)
theory RaceProps
  imports RaceDetect HBEdges
begin

text \<open>
  The race detector against its specification: a race is a pair of recorded accesses of one object,
  at least one of them a write, in different goroutines, without a common lock and without a
  happens-before order, at source positions the heuristics do not exclude. The summary over entries
  and the invariant of the records.
\<close>

section \<open>Statements and keys\<close>

lemma fold_char_colon [simp]:
  "fold_char c = CHR '':'' \<longleftrightarrow> c = CHR '':''" "fold_char c = CHR ''='' \<longleftrightarrow> c = CHR ''=''"
  by (simp_all add: fold_char_eq)

lemma take2_fold: "take 2 (map fold_char s) = '':='' \<longleftrightarrow> take 2 s = '':=''"
  by (cases s; cases "tl s") (auto simp: take_Cons')

lemma contains_fold: "str_contains (map fold_char s) '':='' \<longleftrightarrow> str_contains s '':=''"
proof (induction s)
  case (Cons c s)
  then show ?case
    by (subst (1 2) str_contains.simps) (use take2_fold [of "c # s"] in simp)
qed (simp add: str_contains.simps)

text \<open>The positions at which a race is reported.\<close>

definition reportable :: "source \<Rightarrow> int \<Rightarrow> int \<Rightarrow> bool" where
  "reportable src p1 p2 \<longleftrightarrow> p1 \<noteq> NoPos \<and> p2 \<noteq> NoPos \<and>
     \<not> ignored_stmt (snd (src p1)) \<and> \<not> ignored_stmt (snd (src p2)) \<and>
     \<not> (EqualFold (snd (src p1)) (snd (src p2)) \<and> str_contains (snd (src p1)) '':='')"

lemma reportable_sym: "reportable src p1 p2 = reportable src p2 p1"
proof -
  have "str_contains s '':='' = str_contains t '':=''" if "EqualFold s t" for s t
    using that contains_fold [of s] contains_fold [of t] by (simp add: EqualFold_def)
  moreover have "EqualFold s t = EqualFold t s" for s t by (auto simp: EqualFold_def)
  ultimately show ?thesis by (auto simp: reportable_def)
qed

lemma race_key_sym: "race_key E a b = race_key E b a"
  by (auto simp: race_key_def Let_def)

definition conflict :: "env \<Rightarrow> source \<Rightarrow> RFGraph \<Rightarrow> RWNode \<Rightarrow> RWNode \<Rightarrow> bool" where
  "conflict E src g a b \<longleftrightarrow> node_gid g (rw_n a) \<noteq> node_gid g (rw_n b) \<and>
     set (rw_lockset a) \<inter> set (rw_lockset b) = {} \<and> \<not> ordered_nodes E g (rw_n a) (rw_n b) \<and>
     reportable src (inst_pos (rw_inst a)) (inst_pos (rw_inst b))"

lemma conflict_sym: "conflict E src g a b = conflict E src g b a"
  using ordered_nodes_sym [of E g "rw_n a"] reportable_sym [of src "inst_pos (rw_inst a)"]
  by (auto simp: conflict_def)

lemma conflict_irrefl: "\<not> conflict E src g a a"
  by (simp add: conflict_def)

section \<open>Adding a race\<close>

text \<open>The record built for a pair.\<close>

definition race_of :: "source \<Rightarrow> RWNode \<Rightarrow> RWNode \<Rightarrow> DataRace" where
  "race_of src a b = (let p1 = inst_pos (rw_inst a); p2 = inst_pos (rw_inst b) in
     \<lparr>race_a = a, race_b = b, pos_a = p1, pos_b = p2, stmt_a = snd (src p1), stmt_b = snd (src p2),
      loc_a = fst (src p1), loc_b = fst (src p2), race_entries = []\<rparr>)"

lemma AddRace_eq:
  "AddRace E src a b g =
     (if reportable src (inst_pos (rw_inst a)) (inst_pos (rw_inst b)) \<and> \<not> mhas (races g) (race_key E a b)
      then g\<lparr>races := mput (race_key E a b) (race_of src a b) (races g)\<rparr> else g)"
  by (auto simp: AddRace_def reportable_def race_of_def Let_def split: prod.splits)

text \<open>The state of the detection after the pairs \<open>P\<close> have been checked.\<close>

definition race_keys :: "env \<Rightarrow> source \<Rightarrow> RFGraph \<Rightarrow> (RWNode \<times> RWNode) set \<Rightarrow> string set" where
  "race_keys E src g P = {race_key E a b | a b. (a, b) \<in> P \<and> conflict E src g a b}"

definition race_from ::
  "env \<Rightarrow> source \<Rightarrow> RFGraph \<Rightarrow> (RWNode \<times> RWNode) set \<Rightarrow> string \<Rightarrow> DataRace \<Rightarrow> bool" where
  "race_from E src g P k r \<longleftrightarrow>
     (\<exists>a b. (a, b) \<in> P \<and> conflict E src g a b \<and> k = race_key E a b \<and> r = race_of src a b)"

definition detected ::
  "env \<Rightarrow> source \<Rightarrow> RFGraph \<Rightarrow> (RWNode \<times> RWNode) set \<Rightarrow> RFGraph \<Rightarrow> bool" where
  "detected E src g0 P g \<longleftrightarrow>
     (\<exists>c rs. g = g0\<lparr>cache := c, rfgplus := (rfgplus g0)\<lparr>races := rs\<rparr>\<rparr>) \<and> cache_sound E g \<and>
     dom (mget (races (rfgplus g))) = race_keys E src g0 P \<and>
     (\<forall>k r. mget (races (rfgplus g)) k = Some r \<longrightarrow> race_from E src g0 P k r)"

lemma race_keys_insert:
  "race_keys E src g (insert (a, b) P) =
     (if conflict E src g a b then insert (race_key E a b) (race_keys E src g P)
      else race_keys E src g P)"
  by (auto simp: race_keys_def)

lemma race_from_mono: "race_from E src g P k r \<Longrightarrow> P \<subseteq> Q \<Longrightarrow> race_from E src g Q k r"
  unfolding race_from_def by blast

lemma detectedD:
  assumes "detected E src g0 P g"
  obtains c rs where "g = g0\<lparr>cache := c, rfgplus := (rfgplus g0)\<lparr>races := rs\<rparr>\<rparr>"
    and "cache_sound E g" and "dom (mget (races (rfgplus g))) = race_keys E src g0 P"
    and "\<And>k r. mget (races (rfgplus g)) k = Some r \<Longrightarrow> race_from E src g0 P k r"
  using assms unfolding detected_def by blast

lemma detectedI:
  assumes "\<exists>c rs. g = g0\<lparr>cache := c, rfgplus := (rfgplus g0)\<lparr>races := rs\<rparr>\<rparr>"
    and "cache_sound E g" and "dom (mget (races (rfgplus g))) = race_keys E src g0 P"
    and "\<And>k r. mget (races (rfgplus g)) k = Some r \<Longrightarrow> race_from E src g0 P k r"
  shows "detected E src g0 P g"
  using assms unfolding detected_def by blast

lemma plus_graph [simp]:
  "node_ids (g\<lparr>rfgplus := p\<rparr>) = node_ids g" "kids (g\<lparr>rfgplus := p\<rparr>) = kids g"
  "node_at (g\<lparr>rfgplus := p\<rparr>) i = node_at g i"
  "node_gid (g\<lparr>rfgplus := p\<rparr>) = node_gid g" "in_spawn_loop (g\<lparr>rfgplus := p\<rparr>) = in_spawn_loop g"
  "wf_nodes (g\<lparr>rfgplus := p\<rparr>) = wf_nodes g" "hb_succs (E, g\<lparr>rfgplus := p\<rparr>) = hb_succs (E, g)"
  by (simp_all add: node_ids_def kids_def node_at_def node_gid_def in_spawn_loop_def wf_nodes_def
      hb_succs_def fun_eq_iff cong: if_cong)

lemma plus_ordered [simp]:
  "ordered_nodes E (g\<lparr>rfgplus := p\<rparr>) i j = ordered_nodes E g i j"
  "wf_hb (E, g\<lparr>rfgplus := p\<rparr>) = wf_hb (E, g)"
  "cache_sound E (g\<lparr>rfgplus := p\<rparr>) = cache_sound E g"
  by (simp_all add: ordered_nodes_def wf_hb_def cache_sound_def)

lemma cache_node_at [simp]: "node_at (g\<lparr>cache := c\<rparr>) i = node_at g i"
  by (simp add: node_at_def)

lemma detected_skip:
  assumes d: "detected E src g0 P g" and "race_key E a b \<in> race_keys E src g0 P \<or> \<not> conflict E src g0 a b"
  shows "detected E src g0 (insert (a, b) P) g"
proof (rule detectedD [OF d], rule detectedI)
  assume "dom (mget (races (rfgplus g))) = race_keys E src g0 P"
  with assms(2) show "dom (mget (races (rfgplus g))) = race_keys E src g0 (insert (a, b) P)"
    by (auto simp: race_keys_insert)
qed (use race_from_mono in \<open>blast+\<close>)

lemma detected_cache:
  assumes d: "detected E src g0 P g" and "cache_sound E (g\<lparr>cache := c\<rparr>)"
  shows "detected E src g0 P (g\<lparr>cache := c\<rparr>)"
proof (rule detectedD [OF d], rule detectedI)
  fix d rs
  assume "g = g0\<lparr>cache := d, rfgplus := (rfgplus g0)\<lparr>races := rs\<rparr>\<rparr>"
  then show "\<exists>d rs. g\<lparr>cache := c\<rparr> = g0\<lparr>cache := d, rfgplus := (rfgplus g0)\<lparr>races := rs\<rparr>\<rparr>"
    by (intro exI [of _ c] exI [of _ rs]) simp
qed (use assms(2) in simp_all)

lemma detected_new:
  assumes d: "detected E src g0 P g" and c: "conflict E src g0 a b"
  shows "detected E src g0 (insert (a, b) P)
    (g\<lparr>rfgplus := (rfgplus g)\<lparr>races := mput (race_key E a b) (race_of src a b) (races (rfgplus g))\<rparr>\<rparr>)"
proof (rule detectedD [OF d], rule detectedI)
  let ?rs = "mput (race_key E a b) (race_of src a b) (races (rfgplus g))"
  let ?g = "g\<lparr>rfgplus := (rfgplus g)\<lparr>races := ?rs\<rparr>\<rparr>"
  fix cc rs
  assume "g = g0\<lparr>cache := cc, rfgplus := (rfgplus g0)\<lparr>races := rs\<rparr>\<rparr>"
  then show "\<exists>c rs. ?g = g0\<lparr>cache := c, rfgplus := (rfgplus g0)\<lparr>races := rs\<rparr>\<rparr>"
    by (intro exI [of _ cc] exI [of _ ?rs]) simp
next
  let ?rs = "mput (race_key E a b) (race_of src a b) (races (rfgplus g))"
  assume "dom (mget (races (rfgplus g))) = race_keys E src g0 P"
  moreover have "dom (mget ?rs) = insert (race_key E a b) (dom (mget (races (rfgplus g))))"
    by (auto simp: dom_def)
  ultimately show "dom (mget (races (rfgplus (g\<lparr>rfgplus := (rfgplus g)\<lparr>races := ?rs\<rparr>\<rparr>)))) =
      race_keys E src g0 (insert (a, b) P)"
    using c by (simp add: race_keys_insert del: mget_mput)
next
  let ?rs = "mput (race_key E a b) (race_of src a b) (races (rfgplus g))"
  fix k r
  assume old: "\<And>k r. mget (races (rfgplus g)) k = Some r \<Longrightarrow> race_from E src g0 P k r"
    and new: "mget (races (rfgplus (g\<lparr>rfgplus := (rfgplus g)\<lparr>races := ?rs\<rparr>\<rparr>))) k = Some r"
  show "race_from E src g0 (insert (a, b) P) k r"
  proof (cases "k = race_key E a b")
    case True
    with new c show ?thesis unfolding race_from_def by (intro exI [of _ a] exI [of _ b]) simp
  next
    case False
    with new old have "race_from E src g0 P k r" by simp
    then show ?thesis by (rule race_from_mono) auto
  qed
qed simp

lemma detected_add:
  assumes d: "detected E src g0 P g"
    and c: "conflict E src g0 a b \<longleftrightarrow> reportable src (inst_pos (rw_inst a)) (inst_pos (rw_inst b))"
  shows "detected E src g0 (insert (a, b) P) (g\<lparr>rfgplus := AddRace E src a b (rfgplus g)\<rparr>)"
proof (cases "conflict E src g0 a b \<and> \<not> mhas (races (rfgplus g)) (race_key E a b)")
  case True
  with c detected_new [OF d] show ?thesis by (simp add: AddRace_eq)
next
  case False
  then have "race_key E a b \<in> race_keys E src g0 P \<or> \<not> conflict E src g0 a b"
    using d by (auto simp: mhas_def elim!: detectedD)
  from detected_skip [OF d this] False c show ?thesis by (auto simp: AddRace_eq)
qed

text \<open>The hypotheses on the graph the detection starts from.\<close>

definition detectable :: "env \<Rightarrow> RFGraph \<Rightarrow> bool" where
  "detectable E g \<longleftrightarrow> wf_hb (E, g) \<and> wf_nodes g \<and> checked (rfgplus g) = []"

lemma check_pair_detected:
  assumes g0: "detectable E g0" and d: "detected E src g0 P g"
    and ids: "rw_n w \<in> node_ids g0" "rw_n x \<in> node_ids g0"
  shows "\<exists>g'. check_pair E src w x g = Ok g' \<and> detected E src g0 (insert (w, x) P) g'"
proof -
  obtain c rs where g: "g = g0\<lparr>cache := c, rfgplus := (rfgplus g0)\<lparr>races := rs\<rparr>\<rparr>"
    using d unfolding detected_def by blast
  have wf: "wf_hb (E, g)" "wf_nodes g" "cache_sound E g"
    using g0 d by (simp_all add: g detectable_def detected_def)
  have ids': "rw_n w \<in> node_ids g" "rw_n x \<in> node_ids g" using ids by (simp_all add: g)
  from can_reach_spec [OF wf ids'] obtain cc where
    r: "DFSCanReach E g w x = Ok (ordered_nodes E g0 (rw_n w) (rw_n x), g\<lparr>cache := cc\<rparr>)"
    and s: "cache_sound E (g\<lparr>cache := cc\<rparr>)" by (auto simp: g)
  note d' = detected_cache [OF d s]
  have n: "\<exists>nw nx. node_at g (rw_n w) = Ok nw \<and> node_at g (rw_n x) = Ok nx \<and>
      gid nw = node_gid g0 (rw_n w) \<and> gid nx = node_gid g0 (rw_n x)"
    using node_at_ids [OF ids(1)] node_at_ids [OF ids(2)] by (auto simp: g node_gid_def)
  have "checked (rfgplus g) = []" using g0 by (simp add: g detectable_def)
  with n r have e: "check_pair E src w x g =
      (if node_gid g0 (rw_n w) \<noteq> node_gid g0 (rw_n x) then
         if HasCommonIntArray (rw_lockset w) (rw_lockset x) then Ok g
         else if ordered_nodes E g0 (rw_n w) (rw_n x) then Ok (g\<lparr>cache := cc\<rparr>)
         else Ok (g\<lparr>cache := cc, rfgplus := AddRace E src w x (rfgplus (g\<lparr>cache := cc\<rparr>))\<rparr>)
       else Ok g)"
    by (auto simp: check_pair_def Checked_def mhas_def)
  show ?thesis
  proof (cases "node_gid g0 (rw_n w) = node_gid g0 (rw_n x) \<or>
      HasCommonIntArray (rw_lockset w) (rw_lockset x)")
    case True
    then have "\<not> conflict E src g0 w x" by (auto simp: conflict_def HasCommonIntArray_set)
    with True detected_skip [OF d] show ?thesis unfolding e by auto
  next
    case False
    show ?thesis
    proof (cases "ordered_nodes E g0 (rw_n w) (rw_n x)")
      case True
      then have "\<not> conflict E src g0 w x" by (simp add: conflict_def)
      with True False detected_skip [OF d'] show ?thesis unfolding e by auto
    next
      case no: False
      with False have "conflict E src g0 w x \<longleftrightarrow>
          reportable src (inst_pos (rw_inst w)) (inst_pos (rw_inst x))"
        by (auto simp: conflict_def HasCommonIntArray_set)
      from detected_add [OF d' this] no False show ?thesis unfolding e by auto
    qed
  qed
qed

section \<open>The loops\<close>

fun pairs_of :: "'a list \<Rightarrow> 'a list \<Rightarrow> ('a \<times> 'a) list" where
  "pairs_of rs [] = []"
| "pairs_of rs (w # ws) = map (Pair w) rs @ map (Pair w) ws @ pairs_of rs ws"

lemma loopR_map: "loopR f (map h xs) s = loopR (\<lambda>x. f (h x)) xs s"
  by (induction xs arbitrary: s) (auto intro: bindR_cong)

lemma check_writes_pairs:
  "check_writes E src rs ws g = loopR (\<lambda>(w, x). check_pair E src w x) (pairs_of rs ws) g"
proof (induction ws arbitrary: g)
  case (Cons w ws)
  then show ?case by (simp add: loopR_append loopR_map bindR_assoc fun_eq_iff cong: bindR_cong)
qed simp

lemma pairs_of_sub: "(a, b) \<in> set (pairs_of rs ws) \<Longrightarrow> a \<in> set ws \<and> b \<in> set rs \<union> set ws"
  by (induction ws) auto

lemma pairs_of_cover:
  assumes "a \<in> set ws" and "b \<in> set rs \<union> set ws" and "a \<noteq> b"
  shows "(a, b) \<in> set (pairs_of rs ws) \<or> (b, a) \<in> set (pairs_of rs ws)"
  using assms by (induction ws) auto

lemma pairs_detected:
  assumes "detectable E g0"
  shows "detected E src g0 P g \<Longrightarrow> \<forall>(w, x) \<in> set ps. rw_n w \<in> node_ids g0 \<and> rw_n x \<in> node_ids g0 \<Longrightarrow>
    \<exists>g'. loopR (\<lambda>(w, x). check_pair E src w x) ps g = Ok g' \<and> detected E src g0 (P \<union> set ps) g'"
proof (induction ps arbitrary: P g)
  case (Cons p ps)
  obtain w x where p: "p = (w, x)" by fastforce
  from Cons.prems(2) p have ids: "rw_n w \<in> node_ids g0" "rw_n x \<in> node_ids g0" by auto
  from check_pair_detected [OF assms Cons.prems(1) ids] obtain g1 where
    "check_pair E src w x g = Ok g1" "detected E src g0 (insert (w, x) P) g1" by blast
  with Cons.IH [of "insert (w, x) P" g1] Cons.prems(2) p show ?case by auto
qed simp

text \<open>The loop over the keys of the records, for any way to read the accesses of a key.\<close>

lemma keys_detected:
  assumes g0: "detectable E g0"
    and same: "\<And>P g k. detected E src g0 P g \<Longrightarrow> R g k = R g0 k \<and> W g k = W g0 k"
    and ids: "\<And>k a. a \<in> set (R g0 k) \<union> set (W g0 k) \<Longrightarrow> rw_n a \<in> node_ids g0"
  shows "detected E src g0 P g \<Longrightarrow>
    \<exists>g'. loopR (\<lambda>k g. check_writes E src (R g k) (W g k) g) ks g = Ok g' \<and>
      detected E src g0 (P \<union> (\<Union>k \<in> set ks. set (pairs_of (R g0 k) (W g0 k)))) g'"
proof (induction ks arbitrary: P g)
  case (Cons k ks)
  have "rw_n w \<in> node_ids g0 \<and> rw_n x \<in> node_ids g0" if "(w, x) \<in> set (pairs_of (R g0 k) (W g0 k))" for w x
    using ids [of w k] ids [of x k] pairs_of_sub [OF that] by blast
  then obtain g1 where g1: "check_writes E src (R g k) (W g k) g = Ok g1"
    "detected E src g0 (P \<union> set (pairs_of (R g0 k) (W g0 k))) g1"
    using pairs_detected [OF g0 Cons.prems] same [OF Cons.prems]
    unfolding check_writes_pairs by (metis (no_types, lifting) case_prodI2)
  from Cons.IH [OF g1(2)] g1(1) show ?case by (simp add: Un_assoc)
qed simp

section \<open>Accesses and candidates\<close>

definition accesses_at :: "'k accesses \<Rightarrow> 'k \<Rightarrow> RWNode set" where
  "accesses_at m k = ran (mget (mget0 [] m k))"

lemma set_values_of:
  assumes "proper_env E"
  shows "set (values_of E m) = ran (mget m)"
proof -
  have "set (range_keys (map_order E) m) = dom (mget m)"
    using assms by (intro set_range_keys) (simp add: proper_env_def)
  then have v: "x \<in> set (values_of E m) \<longleftrightarrow>
      (\<exists>k \<in> dom (mget m). x \<in> set (case mget m k of None \<Rightarrow> [] | Some v \<Rightarrow> [v]))" for x
    by (simp add: values_of_def)
  have "x \<in> set (values_of E m) \<longleftrightarrow> (\<exists>k. mget m k = Some x)" for x
    unfolding v by (force split: option.splits)
  then show ?thesis unfolding ran_def by blast
qed

text \<open>Two accesses of one object (or one points-to set), the first of them a write.\<close>

definition candidate :: "env \<Rightarrow> RFGraph \<Rightarrow> RWNode \<Rightarrow> RWNode \<Rightarrow> bool" where
  "candidate E g a b \<longleftrightarrow> (let p = rfgplus g in
     if USE_PTS_COMBINE E then
       \<exists>k. a \<in> accesses_at (pts2WriteNode p) k \<and>
         b \<in> accesses_at (pts2ReadNode p) k \<union> accesses_at (pts2WriteNode p) k
     else \<exists>k. a \<in> accesses_at (obj2WriteNode p) k \<and>
         b \<in> accesses_at (obj2ReadNode p) k \<union> accesses_at (obj2WriteNode p) k)"

text \<open>Every recorded access belongs to a node of the graph.\<close>

definition recorded_nodes :: "RFGraph \<Rightarrow> bool" where
  "recorded_nodes g \<longleftrightarrow> (let p = rfgplus g in
     (\<forall>k. \<forall>a \<in> accesses_at (pts2WriteNode p) k \<union> accesses_at (pts2ReadNode p) k. rw_n a \<in> node_ids g) \<and>
     (\<forall>k. \<forall>a \<in> accesses_at (obj2WriteNode p) k \<union> accesses_at (obj2ReadNode p) k. rw_n a \<in> node_ids g))"

lemma race_keys_cover:
  assumes sub: "\<And>a b. (a, b) \<in> P \<Longrightarrow> C a b"
    and cover: "\<And>a b. C a b \<Longrightarrow> a \<noteq> b \<Longrightarrow> (a, b) \<in> P \<or> (b, a) \<in> P"
  shows "race_keys E src g P = {race_key E a b | a b. C a b \<and> conflict E src g a b}"
proof
  show "race_keys E src g P \<subseteq> {race_key E a b | a b. C a b \<and> conflict E src g a b}"
    using sub by (auto simp: race_keys_def)
  have "race_key E a b \<in> race_keys E src g P" if "C a b" "conflict E src g a b" for a b
  proof -
    have "a \<noteq> b" using that(2) conflict_irrefl by blast
    with cover [OF that(1)] have "(a, b) \<in> P \<or> (b, a) \<in> P" by blast
    with that(2) show ?thesis
      using conflict_sym [of E src g a b] race_key_sym [of E a b] unfolding race_keys_def by blast
  qed
  then show "{race_key E a b | a b. C a b \<and> conflict E src g a b} \<subseteq> race_keys E src g P" by blast
qed

text \<open>The races reported for a candidate relation \<open>C\<close>.\<close>

definition reported ::
  "env \<Rightarrow> source \<Rightarrow> RFGraph \<Rightarrow> (RWNode \<Rightarrow> RWNode \<Rightarrow> bool) \<Rightarrow> RFGraph \<Rightarrow> bool" where
  "reported E src g C g' \<longleftrightarrow>
     dom (mget (races (rfgplus g'))) = {race_key E a b | a b. C a b \<and> conflict E src g a b} \<and>
     (\<forall>k r. mget (races (rfgplus g')) k = Some r \<longrightarrow>
       (\<exists>a b. C a b \<and> conflict E src g a b \<and> k = race_key E a b \<and> r = race_of src a b))"

lemma detected_reported:
  assumes d: "detected E src g P g'" and sub: "\<And>a b. (a, b) \<in> P \<Longrightarrow> C a b"
    and cover: "\<And>a b. C a b \<Longrightarrow> a \<noteq> b \<Longrightarrow> (a, b) \<in> P \<or> (b, a) \<in> P"
  shows "reported E src g C g'"
proof (rule detectedD [OF d])
  assume k: "dom (mget (races (rfgplus g'))) = race_keys E src g P"
    and f: "\<And>k r. mget (races (rfgplus g')) k = Some r \<Longrightarrow> race_from E src g P k r"
  have "\<exists>a b. C a b \<and> conflict E src g a b \<and> k = race_key E a b \<and> r = race_of src a b"
    if "mget (races (rfgplus g')) k = Some r" for k r
    using f [OF that] sub unfolding race_from_def by blast
  moreover have "race_keys E src g P = {race_key E a b | a b. C a b \<and> conflict E src g a b}"
    by (rule race_keys_cover [where C = C, OF sub cover])
  ultimately show ?thesis unfolding reported_def k by blast
qed

definition same_key :: "'k accesses \<Rightarrow> 'k accesses \<Rightarrow> RWNode \<Rightarrow> RWNode \<Rightarrow> bool" where
  "same_key ws rs a b \<longleftrightarrow> (\<exists>k. a \<in> accesses_at ws k \<and> b \<in> accesses_at rs k \<union> accesses_at ws k)"

text \<open>One of the two loops of \<open>DetectRace\<close>: \<open>rk\<close> and \<open>wk\<close> select the records.\<close>

lemma record_loop:
  fixes rk wk :: "RFGPlusGraph \<Rightarrow> 'k accesses"
  assumes E: "proper_env E" and g0: "detectable E g0" and d: "detected E src g0 {} g0"
    and fixed: "\<And>rs. rk ((rfgplus g0)\<lparr>races := rs\<rparr>) = rk (rfgplus g0)"
      "\<And>rs. wk ((rfgplus g0)\<lparr>races := rs\<rparr>) = wk (rfgplus g0)"
    and ids: "\<And>k a. a \<in> accesses_at (wk (rfgplus g0)) k \<union> accesses_at (rk (rfgplus g0)) k \<Longrightarrow>
      rw_n a \<in> node_ids g0"
    and ks: "set ks = dom (mget (wk (rfgplus g0)))"
  shows "\<exists>g'. loopR (\<lambda>k g. check_writes E src (values_of E (mget0 [] (rk (rfgplus g)) k))
        (values_of E (mget0 [] (wk (rfgplus g)) k)) g) ks g0 = Ok g' \<and>
      reported E src g0 (same_key (wk (rfgplus g0)) (rk (rfgplus g0))) g'"
proof -
  let ?R = "\<lambda>g k. values_of E (mget0 [] (rk (rfgplus g)) k)"
  let ?W = "\<lambda>g k. values_of E (mget0 [] (wk (rfgplus g)) k)"
  let ?P = "\<Union>k \<in> set ks. set (pairs_of (?R g0 k) (?W g0 k))"
  have v: "set (?R g0 k) = accesses_at (rk (rfgplus g0)) k"
    "set (?W g0 k) = accesses_at (wk (rfgplus g0)) k" for k
    by (simp_all add: set_values_of [OF E] accesses_at_def)
  have same: "?R g k = ?R g0 k \<and> ?W g k = ?W g0 k" if "detected E src g0 P g" for P g k
    by (rule detectedD [OF that]) (simp add: fixed)
  have idv: "rw_n a \<in> node_ids g0" if "a \<in> set (?R g0 k) \<union> set (?W g0 k)" for k a
    using that ids [of a k] unfolding v by blast
  have "\<exists>g'. loopR (\<lambda>k g. check_writes E src (?R g k) (?W g k) g) ks g0 = Ok g' \<and>
      detected E src g0 ({} \<union> ?P) g'"
    using g0 same idv d by (rule keys_detected [where R = ?R and W = ?W])
  then obtain g' where
    l: "loopR (\<lambda>k g. check_writes E src (?R g k) (?W g k) g) ks g0 = Ok g'"
    and g': "detected E src g0 ?P g'" by auto
  have "reported E src g0 (same_key (wk (rfgplus g0)) (rk (rfgplus g0))) g'"
  proof (rule detected_reported [OF g'])
    fix a b
    assume "(a, b) \<in> ?P"
    then show "same_key (wk (rfgplus g0)) (rk (rfgplus g0)) a b"
      using pairs_of_sub [of a b] v unfolding same_key_def by blast
  next
    fix a b
    assume "same_key (wk (rfgplus g0)) (rk (rfgplus g0)) a b" and "a \<noteq> b"
    then obtain k where k: "a \<in> set (?W g0 k)" "b \<in> set (?R g0 k) \<union> set (?W g0 k)"
      unfolding v same_key_def by blast
    have "mget (wk (rfgplus g0)) k \<noteq> None"
    proof
      assume "mget (wk (rfgplus g0)) k = None"
      then have "accesses_at (wk (rfgplus g0)) k = {}" by (simp add: accesses_at_def mget0_def)
      with k(1) v show False by blast
    qed
    then have "k \<in> set ks" unfolding ks by blast
    with pairs_of_cover [OF k \<open>a \<noteq> b\<close>] show "(a, b) \<in> ?P \<or> (b, a) \<in> ?P" by blast
  qed
  with l show ?thesis by blast
qed

lemma candidate_key:
  "candidate E g = (if USE_PTS_COMBINE E
     then same_key (pts2WriteNode (rfgplus g)) (pts2ReadNode (rfgplus g))
     else same_key (obj2WriteNode (rfgplus g)) (obj2ReadNode (rfgplus g)))"
  by (simp add: fun_eq_iff candidate_def same_key_def Let_def)

end
