(* ===== verification/RaceClaims.thy ===== *)
theory RaceClaims
  imports RaceProps
begin

text \<open>
  The properties of the race detector: its reports against the specification, the records of
  accesses and the summary over entries.
\<close>

section \<open>Reports\<close>

text \<open>
  C19: \<open>DetectRace\<close> terminates without a panic and, whatever order the ranges over its maps
  take, the keys of the races it reports are exactly those of the candidate pairs that conflict: two
  recorded accesses of one object (or points-to set), one of them a write, in different goroutines,
  with disjoint lock sets, unordered by happens-before, and at positions that the heuristics do not
  exclude. Every race it records is made from such a pair.
\<close>

theorem races_exact:
  assumes "proper_env E" and "detectable E g" and "recorded_nodes g" and "cache_sound E g"
    and "races (rfgplus g) = []"
  shows "\<exists>g'. DetectRace E src g = Ok g' \<and>
    dom (mget (races (rfgplus g'))) =
      {race_key E a b | a b. candidate E g a b \<and> conflict E src g a b} \<and>
    (\<forall>k r. mget (races (rfgplus g')) k = Some r \<longrightarrow>
       (\<exists>a b. candidate E g a b \<and> conflict E src g a b \<and> k = race_key E a b \<and> r = race_of src a b))"
proof -
  have "g = g\<lparr>cache := cache g, rfgplus := (rfgplus g)\<lparr>races := []\<rparr>\<rparr>" using assms(5) by simp
  then have d: "detected E src g {} g"
    using assms(4,5) by (intro detectedI) (blast | simp add: race_keys_def)+
  have ks: "set (range_keys (str_order E) (pts2WriteNode (rfgplus g))) = dom (mget (pts2WriteNode (rfgplus g)))"
    "set (range_keys (map_order E) (obj2WriteNode (rfgplus g))) = dom (mget (obj2WriteNode (rfgplus g)))"
    using assms(1) by (auto intro!: set_range_keys simp: proper_env_def)
  have ids: "rw_n a \<in> node_ids g" if "a \<in> accesses_at (pts2WriteNode (rfgplus g)) k \<union>
      accesses_at (pts2ReadNode (rfgplus g)) k" for k a
    using that assms(3) unfolding recorded_nodes_def Let_def by blast
  have ids': "rw_n a \<in> node_ids g" if "a \<in> accesses_at (obj2WriteNode (rfgplus g)) k \<union>
      accesses_at (obj2ReadNode (rfgplus g)) k" for k a
    using that assms(3) unfolding recorded_nodes_def Let_def by blast
  have "\<exists>g'. DetectRace E src g = Ok g' \<and> reported E src g (candidate E g) g'"
  proof (cases "USE_PTS_COMBINE E")
    case True
    with record_loop [where rk = pts2ReadNode and wk = pts2WriteNode, OF assms(1,2) d _ _ ids ks(1)]
    show ?thesis by (simp add: DetectRace_def candidate_key)
  next
    case False
    with record_loop [where rk = obj2ReadNode and wk = obj2WriteNode, OF assms(1,2) d _ _ ids' ks(2)]
    show ?thesis by (simp add: DetectRace_def candidate_key)
  qed
  then show ?thesis by (simp add: reported_def)
qed

definition race_source :: source where
  "race_source i = (''main.go'', ''x = 1'')"

definition race_graph :: RFGraph where
  "race_graph = synced_graph\<lparr>rfgplus :=
     UpdateRecords [9] (hb_access 2) (UpdateRecords [9] (hb_access 5) InitializeRFGPlus)\<rparr>"

lemma race_graph_records [simp]:
  "obj2WriteNode (rfgplus race_graph) = [(9, [(5, hb_access 5), (2, hb_access 2)])]"
  "obj2ReadNode (rfgplus race_graph) = []" "pts2ReadNode (rfgplus race_graph) = []"
  "pts2WriteNode (rfgplus race_graph) = [(sprint_ints [9], [(5, hb_access 5), (2, hb_access 2)])]"
  "checked (rfgplus race_graph) = []" "races (rfgplus race_graph) = []"
  by (simp_all add: race_graph_def UpdateRecords_def InitializeRFGPlus_def record_access_def
      hb_access_def mget0_def)

lemma race_graph_at [simp]:
  "accesses_at (obj2WriteNode (rfgplus race_graph)) k = (if k = 9 then {hb_access 5, hb_access 2} else {})"
  "accesses_at (pts2WriteNode (rfgplus race_graph)) s =
     (if s = sprint_ints [9] then {hb_access 5, hb_access 2} else {})"
  "accesses_at (obj2ReadNode (rfgplus race_graph)) k = {}"
  "accesses_at (pts2ReadNode (rfgplus race_graph)) s = {}"
  by (auto simp: accesses_at_def mget0_def ran_def)

lemma hb_access_node [simp]: "rw_n (hb_access i) = i" "rw_lockset (hb_access i) = []"
  "inst_pos (rw_inst (hb_access i)) = i"
  by (simp_all add: hb_access_def)

lemma race_graph_nodes [simp]:
  "node_ids race_graph = {1, 2, 3, 4, 5, 6}" "node_gid race_graph 2 = 0" "node_gid race_graph 5 = 1"
  by (simp add: race_graph_def synced_graph_def hb_graph_ids)
     (simp_all add: race_graph_def synced_graph_def hb_graph_simps node_gid_def)

lemma race_graph_ok:
  "detectable E race_graph \<and> recorded_nodes race_graph \<and> cache_sound E race_graph"
proof -
  have "wf_hb (E, race_graph)" "wf_nodes race_graph" "cache_sound E race_graph"
    using synced_wf [of E] by (simp_all add: race_graph_def)
  moreover have "recorded_nodes race_graph" 
    by (simp add: recorded_nodes_def del: race_graph_records)
  ultimately show ?thesis by (simp add: detectable_def)
qed

lemma race_graph_ordered:
  "ordered_nodes E race_graph 2 5 \<longleftrightarrow> Plus E" "ordered_nodes E race_graph 5 2 \<longleftrightarrow> Plus E"
  using synced_ordered [of E] by (simp_all add: race_graph_def ordered_nodes_sym [of E _ 5])

text \<open>The two writes race unless the analysis follows the edge from the send to the receive.\<close>

theorem races_exact_witness:
  "(\<exists>g'. DetectRace default_env race_source race_graph = Ok g' \<and>
     dom (mget (races (rfgplus g'))) = {''2-5''}) \<and>
   (\<exists>g'. DetectRace (default_env\<lparr>Plus := True\<rparr>) race_source race_graph = Ok g' \<and>
     races (rfgplus g') = [])"
proof -
  let ?a = "hb_access 2" and ?b = "hb_access 5"
  have E: "proper_env default_env" "proper_env (default_env\<lparr>Plus := True\<rparr>)"
    by (simp_all add: proper_env_def default_env_def is_range_order_id)
  have rep: "reportable race_source 2 5" "reportable race_source 5 2" by code_simp+
  have cand: "candidate E race_graph x y \<longleftrightarrow> x \<in> {?a, ?b} \<and> y \<in> {?a, ?b}" for E x y
    by (auto simp: candidate_def Let_def simp del: race_graph_records)
  have conf: "conflict E race_source race_graph ?a ?b \<longleftrightarrow> \<not> Plus E"
    "conflict E race_source race_graph ?b ?a \<longleftrightarrow> \<not> Plus E" for E
    by (simp_all add: conflict_def race_graph_ordered rep)
  have keys: "{race_key E x y | x y. candidate E race_graph x y \<and>
      conflict E race_source race_graph x y} = (if Plus E then {} else {race_key E ?a ?b})" for E
    using conf [of E] conflict_irrefl [of E race_source race_graph] race_key_sym [of E ?b ?a]
    by (auto simp: cand)
  have "race_key default_env ?a ?b = ''2-5''" by code_simp
  moreover have "\<not> Plus default_env" by (simp add: default_env_def)
  ultimately have off: "\<exists>g'. DetectRace default_env race_source race_graph = Ok g' \<and>
      dom (mget (races (rfgplus g'))) = {''2-5''}"
    using races_exact [OF E(1), of race_graph race_source, unfolded keys] race_graph_ok by auto
  have "\<exists>g'. DetectRace (default_env\<lparr>Plus := True\<rparr>) race_source race_graph = Ok g' \<and>
      races (rfgplus g') = []"
    using races_exact [OF E(2), of race_graph race_source, unfolded keys] race_graph_ok by auto
  with off show ?thesis by blast
qed

section \<open>Records and summary\<close>

definition stored :: "'k accesses \<Rightarrow> 'k \<Rightarrow> int \<Rightarrow> RWNode option" where
  "stored m k i = mget (mget0 [] m k) i"

lemma stored_record [simp]:
  "stored (record_access k n m) k' i = (if k' = k \<and> i = rw_id n then Some n else stored m k' i)"
  by (auto simp: stored_def record_access_def)

lemma stored_forget [simp]:
  "stored (forget_access k n m) k' i = (if k' = k \<and> i = rw_id n then None else stored m k' i)"
  by (auto simp: stored_def forget_access_def mget0_def split: option.splits)

definition record_all :: "'k list \<Rightarrow> RWNode \<Rightarrow> 'k accesses \<Rightarrow> 'k accesses" where
  "record_all ks n m = fold (\<lambda>k. record_access k n) ks m"

definition forget_all :: "'k list \<Rightarrow> RWNode \<Rightarrow> 'k accesses \<Rightarrow> 'k accesses" where
  "forget_all ks n m = fold (\<lambda>k. forget_access k n) ks m"

lemma stored_records:
  "stored (record_all ks n m) k i = (if k \<in> set ks \<and> i = rw_id n then Some n else stored m k i)"
  by (induction ks arbitrary: m) (auto simp: record_all_def)

lemma stored_forgets:
  "stored (forget_all ks n m) k i = (if k \<in> set ks \<and> i = rw_id n then None else stored m k i)"
  by (induction ks arbitrary: m) (auto simp: forget_all_def)

lemma fold_writes:
  "fold (\<lambda>obj g. g\<lparr>obj2WriteNode := record_access obj n (obj2WriteNode g)\<rparr>) ks q =
     q\<lparr>obj2WriteNode := record_all ks n (obj2WriteNode q)\<rparr>"
  by (induction ks arbitrary: q) (auto simp: record_all_def)

lemma fold_reads:
  "fold (\<lambda>obj g. g\<lparr>obj2ReadNode := record_access obj n (obj2ReadNode g)\<rparr>) ks q =
     q\<lparr>obj2ReadNode := record_all ks n (obj2ReadNode q)\<rparr>"
  by (induction ks arbitrary: q) (auto simp: record_all_def)

lemma fold_changes:
  "fold (\<lambda>obj g. g\<lparr>obj2ReadNode := forget_access obj n (obj2ReadNode g),
      obj2WriteNode := record_access obj n (obj2WriteNode g)\<rparr>) ks q =
     q\<lparr>obj2ReadNode := forget_all ks n (obj2ReadNode q),
       obj2WriteNode := record_all ks n (obj2WriteNode q)\<rparr>"
  by (induction ks arbitrary: q) (auto simp: record_all_def forget_all_def)

lemma UpdateRecords_eq:
  "UpdateRecords pts n p = (if pts = [] then p
     else if rw_write n then p\<lparr>pts2WriteNode := record_access (sprint_ints pts) n (pts2WriteNode p),
       obj2WriteNode := record_all pts n (obj2WriteNode p)\<rparr>
     else p\<lparr>pts2ReadNode := record_access (sprint_ints pts) n (pts2ReadNode p),
       obj2ReadNode := record_all pts n (obj2ReadNode p)\<rparr>)"
  by (simp add: UpdateRecords_def fold_writes fold_reads Let_def)

lemma ChangeRead2Write_eq:
  "ChangeRead2Write E n p = (if \<not> MORE_WRITE E then p
     else p\<lparr>pts2ReadNode := forget_access (sprint_ints (rw_pts n)) n (pts2ReadNode p),
       pts2WriteNode := record_access (sprint_ints (rw_pts n)) n (pts2WriteNode p),
       obj2ReadNode := forget_all (rw_pts n) n (obj2ReadNode p),
       obj2WriteNode := record_all (rw_pts n) n (obj2WriteNode p)\<rparr>)"
  by (simp add: ChangeRead2Write_def fold_changes Let_def)


text \<open>All entries of one run: the name of each entry and the races found from it.\<close>

definition summarize_all ::
  "env \<Rightarrow> (string \<times> (string, DataRace) gomap) list \<Rightarrow> summary \<Rightarrow> summary" where
  "summarize_all E runs s = fold (\<lambda>(entry, rs). SummarizeRaces E entry rs) runs s"

definition add_entry :: "string \<Rightarrow> DataRace \<Rightarrow> DataRace option \<Rightarrow> DataRace" where
  "add_entry entry race old = (case old of Some r \<Rightarrow> r\<lparr>race_entries := mput entry entry (race_entries r)\<rparr>
     | None \<Rightarrow> race\<lparr>race_entries := [(entry, entry)]\<rparr>)"

lemma add_entry_idem [simp]:
  "add_entry entry race (Some (add_entry entry race old)) = add_entry entry race old"
  by (auto simp: add_entry_def split: option.splits)

lemma summarize_race_get:
  "mget (summarize_race entry key race s) k =
     (if k = key then Some (add_entry entry race (mget s key)) else mget s k)"
  by (auto simp: summarize_race_def add_entry_def split: option.splits)

lemma SummarizeRaces_get:
  assumes "proper_env E"
  shows "mget (SummarizeRaces E entry rs s) k = (case mget rs k of None \<Rightarrow> mget s k
     | Some race \<Rightarrow> Some (add_entry entry race (mget s k)))"
proof -
  let ?f = "\<lambda>key s. case mget rs key of None \<Rightarrow> s | Some race \<Rightarrow> summarize_race entry key race s"
  have loop: "mget (fold ?f ks s) k = (case mget rs k of None \<Rightarrow> mget s k
      | Some race \<Rightarrow> if k \<in> set ks then Some (add_entry entry race (mget s k)) else mget s k)" for ks
    by (induction ks arbitrary: s) (auto simp: summarize_race_get split: option.splits)
  have "k \<in> set (range_keys (str_order E) rs) \<longleftrightarrow> mget rs k \<noteq> None"
    using assms set_range_keys [of "str_order E" rs] by (auto simp: proper_env_def)
  with loop [of "range_keys (str_order E) rs"] show ?thesis
    by (auto simp: SummarizeRaces_def split: option.splits)
qed

text \<open>
  C31: The summary of several entries has a race exactly when some entry reported it,
  and its list of entries names exactly those, in whatever order the maps are ranged over.
\<close>

theorem summary_entries:
  assumes "proper_env E"
  shows "(mhas (summarize_all E runs []) k \<longleftrightarrow> (\<exists>(entry, rs) \<in> set runs. mhas rs k)) \<and>
    (\<forall>r e. mget (summarize_all E runs []) k = Some r \<longrightarrow>
       (mhas (race_entries r) e \<longleftrightarrow> (\<exists>rs. (e, rs) \<in> set runs \<and> mhas rs k)))"
proof (induction runs rule: rev_induct)
  case Nil
  show ?case by (simp add: summarize_all_def)
next
  case (snoc run runs)
  obtain entry rs where run: "run = (entry, rs)" by fastforce
  let ?s = "summarize_all E runs []"
  have "mget (summarize_all E (runs @ [run]) []) k = (case mget rs k of None \<Rightarrow> mget ?s k
     | Some race \<Rightarrow> Some (add_entry entry race (mget ?s k)))"
    using SummarizeRaces_get [OF assms, of entry rs ?s k] by (simp add: summarize_all_def run)
  with snoc show ?case
    by (cases "mget rs k"; cases "mget ?s k") (auto simp: mhas_def run add_entry_def)
qed

theorem summary_entries_witness:
  "let r = race_of race_source (hb_access 2) (hb_access 5);
       s = summarize_all default_env [(''main'', [(''2-5'', r)]), (''TestA'', [(''2-5'', r)])] []
   in mhas s ''2-5'' \<and> \<not> mhas s ''2-6'' \<and>
     (\<forall>r. mget s ''2-5'' = Some r \<longrightarrow> mhas (race_entries r) ''TestA'' \<and> \<not> mhas (race_entries r) ''TestB'')"
proof -
  have E: "proper_env default_env"
    by (simp add: proper_env_def default_env_def is_range_order_id)
  show ?thesis unfolding Let_def using summary_entries [OF E] by (simp add: mhas_def)
qed

end
