(* ===== verification/CFChecker.thy ===== *)
theory CFChecker
  imports HappensBefore GoStrings
begin

text \<open>
  \<open>concurrency/cfchecker.go\<close>: from every Lock without a deferred Unlock, every deferred Unlock or
  Done, and every Done, Broadcast or Signal of a function, check that the exits of the function
  are reached along all paths. A checkpoint without locked objects has \<open>pts == nil\<close>, which is \<open>None\<close>.
  The line of a position is a parameter (\<open>line_of\<close>), like the rest of the file set.
\<close>

record checkpoint =
  cp_inst :: instruction
  cp_start :: int
  cp_pts :: "int list option"
  cp_defer :: bool
  cp_pos :: int

section \<open>Searching instructions by block\<close>

definition isInInstArray :: "instruction list \<Rightarrow> instruction \<Rightarrow> bool" where
  "isInInstArray a b = list_ex (\<lambda>v. inst_block v = inst_block b) a"

definition isInCallArray :: "instruction list \<Rightarrow> instruction \<Rightarrow> bool" where
  "isInCallArray a b = list_ex (\<lambda>v. inst_block v = inst_block b) a"

definition isInIntArray :: "instruction list \<Rightarrow> int \<Rightarrow> bool" where
  "isInIntArray a b = list_ex (\<lambda>v. inst_block v = b) a"

definition happenBeforeLock :: "(int \<Rightarrow> int) \<Rightarrow> instruction \<Rightarrow> instruction \<Rightarrow> bool" where
  "happenBeforeLock line_of inst out =
     (inst_block inst > inst_block out \<or> line_of (inst_pos inst) > line_of (inst_pos out))"

section \<open>Collecting the checkpoints of a function\<close>

record marks =
  checkpoints :: "checkpoint list"
  outs :: "instruction list"
  pts2lock :: "(string, nat) gomap"

definition args0_pts :: "RFGraph \<Rightarrow> cg_node \<Rightarrow> call_common \<Rightarrow> int list res" where
  "args0_pts g cg call = bindR (slice_get (cc_args call) 0) (\<lambda>key. Ok (getPTS g key cg))"

definition mark :: "instruction \<Rightarrow> int list option \<Rightarrow> bool \<Rightarrow> marks \<Rightarrow> marks" where
  "mark inst pts is_defer m = m\<lparr>checkpoints := checkpoints m @ [\<lparr>cp_inst = inst,
     cp_start = inst_block inst, cp_pts = pts, cp_defer = is_defer, cp_pos = inst_pos inst\<rparr>]\<rparr>"

definition markLock :: "RFGraph \<Rightarrow> cg_node \<Rightarrow> instruction \<Rightarrow> call_common \<Rightarrow> marks \<Rightarrow> marks res" where
  "markLock g cg inst call m = bindR (args0_pts g cg call) (\<lambda>pts.
     let m = mark inst (Some pts) False m
     in Ok (m\<lparr>pts2lock := mput (sprint_ints pts) (length (checkpoints m) - 1) (pts2lock m)\<rparr>))"

text \<open>\<open>append(checkpoints[:idx], checkpoints[idx+1:]...)\<close>: the second slice panics past the end.\<close>

definition remove_at :: "'a list \<Rightarrow> nat \<Rightarrow> 'a list res" where
  "remove_at xs idx =
     (if idx < length xs then Ok (take idx xs @ drop (Suc idx) xs) else Panic IndexOutOfRange)"

definition markUnlock :: "RFGraph \<Rightarrow> cg_node \<Rightarrow> instruction \<Rightarrow> call_common \<Rightarrow> bool \<Rightarrow> marks \<Rightarrow> marks res" where
  "markUnlock g cg inst call is_defer m = bindR (args0_pts g cg call) (\<lambda>pts.
     let m = mark inst (Some pts) is_defer m in
     case mget (pts2lock m) (sprint_ints pts) of None \<Rightarrow> Ok m
     | Some idx \<Rightarrow> bindR (remove_at (checkpoints m) idx) (\<lambda>cps. Ok (m\<lparr>checkpoints := cps\<rparr>)))"

definition markWGDone :: "instruction \<Rightarrow> call_common \<Rightarrow> bool \<Rightarrow> marks \<Rightarrow> marks res" where
  "markWGDone inst call is_defer m = bindR (slice_get (cc_args call) 0) (\<lambda>key.
     Ok (if str_contains (val_type key) ''sync.WaitGroup'' then mark inst None is_defer m else m))"

definition markBroadcast :: "instruction \<Rightarrow> marks \<Rightarrow> marks" where
  "markBroadcast inst m = mark inst None False m"

definition mark_instr :: "RFGraph \<Rightarrow> cg_node \<Rightarrow> instruction \<Rightarrow> marks \<Rightarrow> marks res" where
  "mark_instr g cg inst m = (case inst_kind inst of
       KCall call \<Rightarrow>
         if cc_name call = ''Lock'' \<or> cc_name call = ''RLock'' then markLock g cg inst call m
         else if cc_name call = ''Done'' then markWGDone inst call False m
         else if cc_name call = ''Broadcast'' \<or> cc_name call = ''Signal'' then
           Ok (markBroadcast inst m)
         else Ok m
     | KDefer call \<Rightarrow>
         if cc_name call = ''Unlock'' \<or> cc_name call = ''RUnlock'' then
           markUnlock g cg inst call True m
         else if cc_name call = ''Done'' then markWGDone inst call True m
         else Ok m
     | KReturn _ \<Rightarrow> Ok (m\<lparr>outs := outs m @ [inst]\<rparr>)
     | KPanic \<Rightarrow> Ok (m\<lparr>outs := outs m @ [inst]\<rparr>)
     | _ \<Rightarrow> Ok m)"

definition collect_marks :: "RFGraph \<Rightarrow> cg_node \<Rightarrow> basic_block list \<Rightarrow> marks res" where
  "collect_marks g cg bbs = loopR (\<lambda>bb. loopR (mark_instr g cg) (bb_instrs bb)) bbs
     \<lparr>checkpoints = [], outs = [], pts2lock = []\<rparr>"

section \<open>Walking from a checkpoint\<close>

text \<open>The result of a check: the exits are reached, or an error with the interrupting position.\<close>

datatype verdict = Passed | Failed CFError

definition cf_error :: "checkpoint \<Rightarrow> instruction \<Rightarrow> string \<Rightarrow> verdict" where
  "cf_error cp at suffix = Failed \<lparr>cf_inst_pos = cp_pos cp, cf_inst_unlock_pos = NoPos,
     cf_interupt_pos = inst_pos at, cf_stmt_str = inst_str at @ suffix\<rparr>"

definition is_lock :: "checkpoint \<Rightarrow> bool" where
  "is_lock cp = (cp_pts cp \<noteq> None)"

definition lock_only :: "checkpoint \<Rightarrow> bool" where
  "lock_only cp = (is_lock cp \<and> \<not> cp_defer cp)"

text \<open>What the walk has collected: \<open>reached\<close> returns and \<open>unlocks\<close>.\<close>

type_synonym collected = "instruction list \<times> instruction list"

definition scan_call ::
  "RFGraph \<Rightarrow> cg_node \<Rightarrow> checkpoint \<Rightarrow> bool \<Rightarrow> int \<Rightarrow> instruction \<Rightarrow> call_common \<Rightarrow> collected \<Rightarrow>
     (verdict option \<times> collected) res" where
  "scan_call g cg cp at_exit cur inst call = (\<lambda>(reached, unlocks).
     if (at_exit \<and> lock_only cp) \<or> cp_defer cp \<or> lock_only cp then
       if cc_name call = ''Unlock'' \<or> cc_name call = ''RUnlock'' then
         bindR (args0_pts g cg call) (\<lambda>pts.
           if fst (IntArrayEquals pts (case cp_pts cp of None \<Rightarrow> [] | Some q \<Rightarrow> q)) then
             if cur = cp_start cp then Ok (Some Passed, reached, unlocks)
             else Ok (None, reached, unlocks @ [inst])
           else Ok (None, reached, unlocks))
       else Ok (None, reached, unlocks)
     else Ok (None, reached, unlocks))"

definition scan_instr ::
  "RFGraph \<Rightarrow> cg_node \<Rightarrow> checkpoint \<Rightarrow> bool \<Rightarrow> int \<Rightarrow> instruction \<Rightarrow> collected \<Rightarrow>
     (verdict option \<times> collected) res" where
  "scan_instr g cg cp at_exit cur inst = (\<lambda>(reached, unlocks).
     case inst_kind inst of
       KCall call \<Rightarrow> scan_call g cg cp at_exit cur inst call (reached, unlocks)
     | KPanic \<Rightarrow>
         Ok (if cp_defer cp \<or> lock_only cp then Some (cf_error cp inst []) else None, reached, unlocks)
     | KReturn _ \<Rightarrow>
         Ok (if lock_only cp \<and> unlocks = [] then (Some (cf_error cp inst []), reached, unlocks)
             else (None, reached @ [inst], unlocks))
     | _ \<Rightarrow> Ok (None, reached, unlocks))"

fun scan_instrs ::
  "RFGraph \<Rightarrow> cg_node \<Rightarrow> checkpoint \<Rightarrow> bool \<Rightarrow> int \<Rightarrow> instruction list \<Rightarrow> collected \<Rightarrow>
     (verdict option \<times> collected) res" where
  "scan_instrs g cg cp at_exit cur [] c = Ok (None, c)"
| "scan_instrs g cg cp at_exit cur (inst # insts) c =
     bindR (scan_instr g cg cp at_exit cur inst c) (\<lambda>(v, c).
       if v = None then scan_instrs g cg cp at_exit cur insts c else Ok (v, c))"

text \<open>The loop over the successors of the current block.\<close>

fun scan_succs ::
  "checkpoint \<Rightarrow> basic_block \<Rightarrow> int list \<Rightarrow> (int, bool) gomap \<times> int list \<Rightarrow>
     (verdict option \<times> (int, bool) gomap \<times> int list) res" where
  "scan_succs cp bb [] (seen, queue) = Ok (None, seen, queue)"
| "scan_succs cp bb (idx # idxs) (seen, queue) =
     (if \<not> mget0 False seen idx then scan_succs cp bb idxs (mput idx True seen, queue @ [idx])
      else if idx = cp_start cp \<and> lock_only cp then
        bindR (slice_get (bb_instrs bb) (int (length (bb_instrs bb)) - 1)) (\<lambda>last_inst.
          Ok (Some (cf_error cp last_inst '' (loop)''), seen, queue))
      else scan_succs cp bb idxs (seen, queue))"

fun walk_blocks ::
  "nat \<Rightarrow> RFGraph \<Rightarrow> cg_node \<Rightarrow> checkpoint \<Rightarrow> instruction list \<Rightarrow> basic_block list \<Rightarrow>
     (int, bool) gomap \<Rightarrow> int list \<Rightarrow> collected \<Rightarrow> (verdict option \<times> collected) res" where
  "walk_blocks 0 g cg cp ots bbs seen queue c = OutOfFuel"
| "walk_blocks (Suc fuel) g cg cp ots bbs seen [] c = Ok (None, c)"
| "walk_blocks (Suc fuel) g cg cp ots bbs seen (cur # queue) c =
     bindR (slice_get bbs cur) (\<lambda>bb.
       if bb_comment bb = ''recover'' then walk_blocks fuel g cg cp ots bbs seen queue c
       else bindR (scan_instrs g cg cp (isInIntArray ots cur) cur (bb_instrs bb) c) (\<lambda>(v, c).
         if v \<noteq> None then Ok (v, c)
         else bindR (scan_succs cp bb (bb_succs bb) (seen, queue)) (\<lambda>(v, seen, queue).
           if v \<noteq> None then Ok (v, c)
           else walk_blocks fuel g cg cp ots bbs seen queue c)))"

definition unreached :: "(instruction \<Rightarrow> bool) \<Rightarrow> checkpoint \<Rightarrow> instruction list \<Rightarrow> verdict" where
  "unreached ok cp ots = (case filter (\<lambda>out. \<not> ok out) ots of [] \<Rightarrow> Passed
     | out # _ \<Rightarrow> cf_error cp out [])"

definition canReachFromAllPaths ::
  "(int \<Rightarrow> int) \<Rightarrow> RFGraph \<Rightarrow> cg_node \<Rightarrow> checkpoint \<Rightarrow> instruction list \<Rightarrow> basic_block list \<Rightarrow> verdict res" where
  "canReachFromAllPaths line_of g cg cp ots bbs =
     (let start = cp_start cp;
          seen = mput start True (map (\<lambda>i. (int i, False)) [0..<length bbs])
      in bindR (walk_blocks (Suc (length bbs)) g cg cp ots bbs seen [start] ([], []))
         (\<lambda>(v, reached, unlocks). case v of Some w \<Rightarrow> Ok w
          | None \<Rightarrow> Ok (
              if cp_defer cp then Passed
              else if is_lock cp then
                if length unlocks = length ots then Passed
                else unreached (\<lambda>out. isInCallArray unlocks out \<or> happenBeforeLock line_of (cp_inst cp) out)
                       cp ots
              else if length reached = length ots then Passed
              else unreached (isInInstArray reached) cp ots)))"

definition CheckCompleteFlow ::
  "(int \<Rightarrow> int) \<Rightarrow> RFGraph \<Rightarrow> cg_node \<Rightarrow> basic_block list \<Rightarrow> CFError list res" where
  "CheckCompleteFlow line_of g cg bbs =
     bindR (collect_marks g cg bbs) (\<lambda>m.
       loopR (\<lambda>cp ret. bindR (canReachFromAllPaths line_of g cg cp (outs m) bbs) (\<lambda>v.
           case v of Passed \<Rightarrow> Ok ret | Failed e \<Rightarrow> Ok (ret @ [e\<lparr>cf_inst_pos := cp_pos cp\<rparr>])))
         (checkpoints m) [])"

end
