(* ===== verification/CFProps.thy ===== *)
theory CFProps
  imports CFChecker
begin

text \<open>
  The control-flow checker: it terminates without a panic on well-formed functions, a checkpoint that
  passes has no panic ahead of it, a deferred one passes exactly then, and the bookkeeping of
  deferred unlocks, which keeps a position that later removals invalidate.
\<close>

section \<open>Well-formed functions\<close>

text \<open>The successors the walk follows: none from the recover block.\<close>

definition cfg_succs :: "basic_block list \<Rightarrow> int \<Rightarrow> int list" where
  "cfg_succs bbs i = (if in_range bbs i \<and> bb_comment (bbs ! nat i) \<noteq> ''recover''
     then bb_succs (bbs ! nat i) else [])"

definition block_ids :: "basic_block list \<Rightarrow> int set" where
  "block_ids bbs = {i. in_range bbs i}"

definition marking_names :: "string list" where
  "marking_names = [''Lock'', ''RLock'', ''Unlock'', ''RUnlock'', ''Done'']"

definition has_receiver :: "instruction \<Rightarrow> bool" where
  "has_receiver inst = (case inst_kind inst of
       KCall call \<Rightarrow> cc_name call \<in> set marking_names \<longrightarrow> cc_args call \<noteq> []
     | KDefer call \<Rightarrow> cc_name call \<in> set marking_names \<longrightarrow> cc_args call \<noteq> []
     | _ \<Rightarrow> True)"

definition wf_blocks :: "basic_block list \<Rightarrow> bool" where
  "wf_blocks bbs \<longleftrightarrow> (\<forall>bb \<in> set bbs. bb_instrs bb \<noteq> [] \<and> (\<forall>i \<in> set (bb_succs bb). in_range bbs i) \<and>
     (\<forall>inst \<in> set (bb_instrs bb). has_receiver inst))"

lemma finite_block_ids [simp]: "finite (block_ids bbs)"
proof -
  have "block_ids bbs \<subseteq> {0..int (length bbs)}" by (auto simp: block_ids_def in_range_def)
  then show ?thesis by (rule finite_subset) simp
qed

lemma card_block_ids: "card (block_ids bbs) \<le> length bbs"
proof -
  have "block_ids bbs = int ` {0..<length bbs}"
    by (auto simp: block_ids_def in_range_def image_iff intro!: bexI [of _ "nat _"])
  then show ?thesis using card_image_le [of "{0..<length bbs}" int] by simp
qed

lemma block_at_id: "in_range bbs i \<Longrightarrow> bbs ! nat i \<in> set bbs"
  by (auto simp: in_range_def)

interpretation cfg: digraph wf_blocks block_ids cfg_succs
proof
  show "wf_blocks bbs \<Longrightarrow> x \<in> block_ids bbs \<Longrightarrow> set (cfg_succs bbs x) \<subseteq> block_ids bbs" for bbs x
    using block_at_id [of bbs x] by (auto simp: wf_blocks_def cfg_succs_def block_ids_def)
qed simp

section \<open>One block\<close>

definition panics :: "basic_block \<Rightarrow> bool" where
  "panics bb \<longleftrightarrow> (\<exists>inst \<in> set (bb_instrs bb). inst_kind inst = KPanic)"

text \<open>A call that unlocks the objects of the checkpoint.\<close>

definition unlocks_cp :: "RFGraph \<Rightarrow> cg_node \<Rightarrow> checkpoint \<Rightarrow> instruction \<Rightarrow> bool" where
  "unlocks_cp g cg cp inst \<longleftrightarrow> (\<exists>call key. inst_kind inst = KCall call \<and>
     (cc_name call = ''Unlock'' \<or> cc_name call = ''RUnlock'') \<and> slice_get (cc_args call) 0 = Ok key \<and>
     mset (getPTS g key cg) = mset (case cp_pts cp of None \<Rightarrow> [] | Some q \<Rightarrow> q))"

lemma args0_Ok:
  assumes "has_receiver inst" and "inst_kind inst = KCall call \<or> inst_kind inst = KDefer call"
    and "cc_name call \<in> set marking_names"
  shows "\<exists>key. slice_get (cc_args call) 0 = Ok key \<and> args0_pts g cg call = Ok (getPTS g key cg)"
proof -
  have "cc_args call \<noteq> []" using assms by (auto simp: has_receiver_def)
  then show ?thesis by (simp add: args0_pts_def slice_get_def in_range_def)
qed

text \<open>What a scan says: why it stopped, or that there was no panic.\<close>

definition scanned ::
  "RFGraph \<Rightarrow> cg_node \<Rightarrow> checkpoint \<Rightarrow> int \<Rightarrow> instruction list \<Rightarrow> verdict option \<Rightarrow> bool" where
  "scanned g cg cp cur insts v = (case v of
       None \<Rightarrow> cp_defer cp \<or> lock_only cp \<longrightarrow> (\<forall>inst \<in> set insts. inst_kind inst \<noteq> KPanic)
     | Some Passed \<Rightarrow> cur = cp_start cp \<and> (\<exists>inst \<in> set insts. unlocks_cp g cg cp inst)
     | Some (Failed e) \<Rightarrow> (\<exists>inst \<in> set insts. inst_kind inst = KPanic) \<or>
         (lock_only cp \<and> (\<exists>inst \<in> set insts. \<exists>rs. inst_kind inst = KReturn rs)))"

lemma scan_instr_scanned:
  assumes "has_receiver inst"
  shows "\<exists>v c'. scan_instr g cg cp at_exit cur inst c = Ok (v, c') \<and> scanned g cg cp cur [inst] v"
proof -
  obtain re un where c: "c = (re, un)" by fastforce
  show ?thesis
  proof (cases "inst_kind inst")
    case (KCall call)
    show ?thesis
    proof (cases "cc_name call = ''Unlock'' \<or> cc_name call = ''RUnlock''")
      case True
      then have "cc_name call \<in> set marking_names" by (auto simp: marking_names_def)
      from args0_Ok [OF assms _ this] KCall obtain key where
        k: "slice_get (cc_args call) 0 = Ok key" "args0_pts g cg call = Ok (getPTS g key cg)" by blast
      have "unlocks_cp g cg cp inst"
        if "fst (IntArrayEquals (getPTS g key cg) (case cp_pts cp of None \<Rightarrow> [] | Some q \<Rightarrow> q))"
        using that True KCall k(1) by (auto simp: unlocks_cp_def IntArrayEquals_mset)
      with True KCall k show ?thesis
        by (simp add: scan_instr_def scan_call_def scanned_def c)
    next
      case False
      with KCall show ?thesis by (simp add: scan_instr_def scan_call_def scanned_def c)
    qed
  qed (auto simp: scan_instr_def scanned_def c cf_error_def)
qed

lemma scanned_Cons:
  "scanned g cg cp cur [inst] None \<Longrightarrow> scanned g cg cp cur insts v \<Longrightarrow>
     scanned g cg cp cur (inst # insts) v"
  "scanned g cg cp cur [inst] (Some w) \<Longrightarrow> scanned g cg cp cur (inst # insts) (Some w)"
  by (auto simp: scanned_def split: option.splits verdict.splits)

lemma scan_instrs_scanned:
  assumes "\<forall>inst \<in> set insts. has_receiver inst"
  shows "\<exists>v c'. scan_instrs g cg cp at_exit cur insts c = Ok (v, c') \<and> scanned g cg cp cur insts v"
  using assms
proof (induction insts arbitrary: c)
  case (Cons inst insts)
  from Cons.prems obtain v c1 where s: "scan_instr g cg cp at_exit cur inst c = Ok (v, c1)"
    "scanned g cg cp cur [inst] v" using scan_instr_scanned by (meson list.set_intros(1))
  show ?case
  proof (cases v)
    case None
    from Cons.IH [of c1] Cons.prems obtain v' c' where
      "scan_instrs g cg cp at_exit cur insts c1 = Ok (v', c')" "scanned g cg cp cur insts v'" by auto
    with s None scanned_Cons(1) show ?thesis by auto
  next
    case (Some w)
    with s scanned_Cons(2) show ?thesis by auto
  qed
qed (simp add: scanned_def)

definition succs_scanned ::
  "checkpoint \<Rightarrow> int list \<Rightarrow> int set \<Rightarrow> int list \<Rightarrow> verdict option \<Rightarrow> int set \<Rightarrow> int list \<Rightarrow> bool" where
  "succs_scanned cp idxs V queue v V' queue' = (case v of
       None \<Rightarrow> V' = V \<union> set idxs \<and> \<not> (lock_only cp \<and> cp_start cp \<in> set idxs) \<and>
        (\<exists>new. queue' = queue @ new \<and> distinct new \<and> set new = set idxs - V)
     | Some w \<Rightarrow> w \<noteq> Passed \<and> lock_only cp \<and> cp_start cp \<in> set idxs)"

lemma succs_scanned_new:
  assumes "succs_scanned cp idxs (insert idx V) (queue @ [idx]) v V' queue'"
    and "idx \<notin> V" and "idx \<noteq> cp_start cp"
  shows "succs_scanned cp (idx # idxs) V queue v V' queue'"
proof (cases v)
  case None
  with assms(1) obtain ns where "V' = insert idx V \<union> set idxs" "queue' = (queue @ [idx]) @ ns"
    "\<not> (lock_only cp \<and> cp_start cp \<in> set idxs)" "distinct ns" "set ns = set idxs - insert idx V"
    by (auto simp: succs_scanned_def)
  with None assms(2,3) show ?thesis
    by (auto simp: succs_scanned_def intro!: exI [of _ "idx # ns"])
next
  case (Some w)
  with assms(1) show ?thesis by (simp add: succs_scanned_def)
qed

lemma succs_scanned_old:
  assumes "succs_scanned cp idxs V queue v V' queue'" and "idx \<in> V"
    and "\<not> (idx = cp_start cp \<and> lock_only cp)"
  shows "succs_scanned cp (idx # idxs) V queue v V' queue'"
proof (cases v)
  case None
  with assms(1) obtain ns where "V' = V \<union> set idxs" "queue' = queue @ ns"
    "\<not> (lock_only cp \<and> cp_start cp \<in> set idxs)" "distinct ns" "set ns = set idxs - V"
    by (auto simp: succs_scanned_def)
  with None assms(2,3) show ?thesis
    by (auto simp: succs_scanned_def intro!: exI [of _ ns])
next
  case (Some w)
  with assms(1) show ?thesis by (simp add: succs_scanned_def)
qed

lemma scan_succs_spec:
  assumes "bb_instrs bb \<noteq> []" and "cp_start cp \<in> marked seen"
  shows "\<exists>v seen' queue'. scan_succs cp bb idxs (seen, queue) = Ok (v, seen', queue') \<and>
    succs_scanned cp idxs (marked seen) queue v (marked seen') queue'"
  using assms(2)
proof (induction idxs arbitrary: seen queue)
  case Nil
  show ?case by (simp add: succs_scanned_def)
next
  case (Cons idx idxs)
  show ?case
  proof (cases "mget0 False seen idx")
    case False
    then have new: "idx \<notin> marked seen" by (simp add: marked_def)
    with Cons.prems have ne: "idx \<noteq> cp_start cp" by blast
    have "cp_start cp \<in> marked (mput idx True seen)" using Cons.prems by simp
    from Cons.IH [OF this, of "queue @ [idx]"] obtain v seen' queue' where
      s: "scan_succs cp bb idxs (mput idx True seen, queue @ [idx]) = Ok (v, seen', queue')"
      and i: "succs_scanned cp idxs (insert idx (marked seen)) (queue @ [idx]) v (marked seen') queue'"
      unfolding marked_mput by blast
    from succs_scanned_new [OF i new ne] s False show ?thesis by simp
  next
    case True
    then have old: "idx \<in> marked seen" by (simp add: marked_def)
    show ?thesis
    proof (cases "idx = cp_start cp \<and> lock_only cp")
      case loop: True
      have "in_range (bb_instrs bb) (int (length (bb_instrs bb)) - 1)"
        using assms(1) by (cases "bb_instrs bb") (auto simp: in_range_def)
      with True loop show ?thesis by (simp add: slice_get_def cf_error_def succs_scanned_def)
    next
      case False
      from Cons.IH [OF Cons.prems, of queue] obtain v seen' queue' where
        s: "scan_succs cp bb idxs (seen, queue) = Ok (v, seen', queue')"
        and i: "succs_scanned cp idxs (marked seen) queue v (marked seen') queue'" by blast
      from succs_scanned_old [OF i old False] s True False show ?thesis by auto
    qed
  qed
qed

section \<open>The walk\<close>

text \<open>A block that fails the checkpoint when the walk passes it.\<close>

definition fails_at :: "checkpoint \<Rightarrow> basic_block list \<Rightarrow> int \<Rightarrow> bool" where
  "fails_at cp bbs i \<longleftrightarrow> (let bb = bbs ! nat i in bb_comment bb \<noteq> ''recover'' \<and>
     (((cp_defer cp \<or> lock_only cp) \<and> panics bb) \<or> (lock_only cp \<and> cp_start cp \<in> set (bb_succs bb))))"

definition may_fail_at :: "checkpoint \<Rightarrow> basic_block list \<Rightarrow> int \<Rightarrow> bool" where
  "may_fail_at cp bbs i \<longleftrightarrow> (let bb = bbs ! nat i in bb_comment bb \<noteq> ''recover'' \<and>
     (panics bb \<or> (lock_only cp \<and> (cp_start cp \<in> set (bb_succs bb) \<or>
        (\<exists>inst \<in> set (bb_instrs bb). \<exists>rs. inst_kind inst = KReturn rs)))))"

definition walk_inv :: "checkpoint \<Rightarrow> basic_block list \<Rightarrow> int set \<Rightarrow> int list \<Rightarrow> bool" where
  "walk_inv cp bbs V queue \<longleftrightarrow> distinct queue \<and> set queue \<subseteq> V \<and> cp_start cp \<in> V \<and>
     V \<subseteq> {i. reaches (cfg_succs bbs) (cp_start cp) i} \<and>
     (\<forall>x \<in> V - set queue. set (cfg_succs bbs x) \<subseteq> V \<and> \<not> fails_at cp bbs x)"

lemma walk_inv_step:
  assumes "walk_inv cp bbs V (cur # queue)" and "\<not> fails_at cp bbs cur"
    and "V' = V \<union> set (cfg_succs bbs cur)" and "distinct new" and "set new = set (cfg_succs bbs cur) - V"
  shows "walk_inv cp bbs V' (queue @ new)"
proof -
  note i = assms(1) [unfolded walk_inv_def]
  have cur: "cur \<in> V" "cur \<notin> set queue" "reaches (cfg_succs bbs) (cp_start cp) cur" using i by auto
  have "V' - set (queue @ new) = insert cur (V - set (cur # queue))"
    using i assms(3,5) cur by auto
  moreover have "V' \<subseteq> {i. reaches (cfg_succs bbs) (cp_start cp) i}"
    using i assms(3) reaches_step [OF cur(3)] by auto
  moreover have "distinct (queue @ new)" "set (queue @ new) \<subseteq> V'" "cp_start cp \<in> V'"
    using i assms(3-5) by auto
  ultimately show ?thesis using i assms(2,3) unfolding walk_inv_def by auto
qed

text \<open>What the walk establishes.\<close>

definition walked :: "RFGraph \<Rightarrow> cg_node \<Rightarrow> checkpoint \<Rightarrow> basic_block list \<Rightarrow> verdict option \<Rightarrow> bool" where
  "walked g cg cp bbs v = (case v of
       None \<Rightarrow> \<exists>V. walk_inv cp bbs V []
     | Some Passed \<Rightarrow> \<exists>inst \<in> set (bb_instrs (bbs ! nat (cp_start cp))). unlocks_cp g cg cp inst
     | Some (Failed e) \<Rightarrow> \<exists>i. reaches (cfg_succs bbs) (cp_start cp) i \<and> may_fail_at cp bbs i)"

lemma walk_blocks_Ok:
  assumes wf: "wf_blocks bbs" and st: "cp_start cp \<in> block_ids bbs"
  shows "walk_inv cp bbs (marked seen) queue \<Longrightarrow>
    length queue + card (block_ids bbs - marked seen) < fuel \<Longrightarrow>
    \<exists>v c'. walk_blocks fuel g cg cp ots bbs seen queue c = Ok (v, c') \<and> walked g cg cp bbs v"
proof (induction fuel arbitrary: seen queue c)
  case (Suc fuel)
  show ?case
  proof (cases queue)
    case Nil
    with Suc.prems(1) show ?thesis by (auto simp: walked_def)
  next
    case (Cons cur queue1)
    let ?bb = "bbs ! nat cur"
    have reach: "reaches (cfg_succs bbs) (cp_start cp) cur"
      using Suc.prems(1) Cons by (auto simp: walk_inv_def)
    have id: "cur \<in> block_ids bbs" using cfg.reaches_nodes [OF wf st reach] .
    then have r: "in_range bbs cur" "slice_get bbs cur = Ok ?bb" by (simp_all add: block_ids_def slice_get_def)
    have bb: "bb_instrs ?bb \<noteq> []" "\<forall>inst \<in> set (bb_instrs ?bb). has_receiver inst"
      using wf block_at_id [OF r(1)] by (auto simp: wf_blocks_def)
    show ?thesis
    proof (cases "bb_comment ?bb = ''recover''")
      case True
      then have "\<not> fails_at cp bbs cur" "cfg_succs bbs cur = []"
        by (simp_all add: fails_at_def cfg_succs_def)
      with walk_inv_step [OF Suc.prems(1) [unfolded Cons], of "marked seen" "[]"]
      have "walk_inv cp bbs (marked seen) queue1" by simp
      from Suc.IH [OF this, of c] Suc.prems(2) Cons r True show ?thesis by simp
    next
      case False
      obtain v c1 where s: "scan_instrs g cg cp (isInIntArray ots cur) cur (bb_instrs ?bb) c = Ok (v, c1)"
        "scanned g cg cp cur (bb_instrs ?bb) v" using scan_instrs_scanned [OF bb(2)] by blast
      show ?thesis
      proof (cases v)
        case (Some w)
        have "walked g cg cp bbs (Some w)"
        proof (cases w)
          case Passed
          with s(2) Some show ?thesis by (auto simp: scanned_def walked_def)
        next
          case (Failed e)
          with s(2) Some False have "may_fail_at cp bbs cur"
            by (auto simp: scanned_def may_fail_at_def panics_def Let_def)
          with Failed reach show ?thesis by (auto simp: walked_def)
        qed
        with Some s r False Cons show ?thesis by simp
      next
        case None
        have "cp_start cp \<in> marked seen" using Suc.prems(1) by (simp add: walk_inv_def)
        from scan_succs_spec [OF bb(1) this, of "bb_succs ?bb" queue1] obtain v2 seen' queue' where
          s2: "scan_succs cp ?bb (bb_succs ?bb) (seen, queue1) = Ok (v2, seen', queue')"
            "succs_scanned cp (bb_succs ?bb) (marked seen) queue1 v2 (marked seen') queue'" by blast
        have succs: "cfg_succs bbs cur = bb_succs ?bb" using r False by (simp add: cfg_succs_def)
        show ?thesis
        proof (cases v2)
          case (Some w)
          with s2(2) obtain e where w: "w = Failed e" by (cases w) (auto simp: succs_scanned_def)
          have "may_fail_at cp bbs cur"
            using s2(2) Some False by (auto simp: succs_scanned_def may_fail_at_def Let_def)
          with w reach have "walked g cg cp bbs (Some w)" by (auto simp: walked_def)
          with Some s s2 None r False Cons show ?thesis by simp
        next
          case n2: None
          with s2(2) obtain new where q: "marked seen' = marked seen \<union> set (cfg_succs bbs cur)"
            "queue' = queue1 @ new" "distinct new" "set new = set (cfg_succs bbs cur) - marked seen"
            "\<not> (lock_only cp \<and> cp_start cp \<in> set (bb_succs ?bb))"
            unfolding succs by (auto simp: succs_scanned_def)
          have "\<not> fails_at cp bbs cur"
            using s(2) None q(5) by (auto simp: fails_at_def scanned_def panics_def Let_def)
          from walk_inv_step [OF Suc.prems(1) [unfolded Cons] this q(1,3,4)]
          have inv: "walk_inv cp bbs (marked seen') queue'" unfolding q(2) .
          have "set new \<subseteq> block_ids bbs - marked seen" using cfg.succ_nodes [OF wf id] q(4) by auto
          moreover have "block_ids bbs - marked seen' = (block_ids bbs - marked seen) - set new"
            using q(1,4) by auto
          ultimately have "card (block_ids bbs - marked seen') = card (block_ids bbs - marked seen) - card (set new)"
            and "card (set new) \<le> card (block_ids bbs - marked seen)"
            by (auto intro: card_Diff_subset card_mono)
          moreover have "length queue' = length queue1 + card (set new)"
            using q(2) distinct_card [OF q(3)] by simp
          moreover have "length queue = Suc (length queue1)" using Cons by simp
          ultimately have "length queue' + card (block_ids bbs - marked seen') < fuel"
            using Suc.prems(2) by linarith
          from Suc.IH [OF inv this, of c1] s s2 None n2 r False Cons show ?thesis by simp
        qed
      qed
    qed
  qed
qed simp

lemma canReach_walk:
  assumes wf: "wf_blocks bbs" and st: "cp_start cp \<in> block_ids bbs"
  shows "\<exists>v w. canReachFromAllPaths line_of g cg cp ots bbs = Ok w \<and> walked g cg cp bbs v \<and>
    (v \<noteq> None \<longrightarrow> v = Some w) \<and> (v = None \<and> cp_defer cp \<longrightarrow> w = Passed)"
proof -
  let ?seen = "mput (cp_start cp) True (map (\<lambda>i. (int i, False)) [0..<length bbs])"
  have "mget (map (\<lambda>i. (int i, False)) xs) j = None \<or> mget (map (\<lambda>i. (int i, False)) xs) j = Some False" for xs j
    by (induction xs) auto
  then have m: "marked ?seen = {cp_start cp}" by (force simp: marked_def mget0_def split: option.splits)
  have inv: "walk_inv cp bbs (marked ?seen) [cp_start cp]" unfolding m by (simp add: walk_inv_def)
  have "card (block_ids bbs - {cp_start cp}) < card (block_ids bbs)"
    using st by (intro psubset_card_mono) auto
  with card_block_ids [of bbs]
  have "length [cp_start cp] + card (block_ids bbs - marked ?seen) < Suc (length bbs)" unfolding m by simp
  from walk_blocks_Ok [OF wf st inv this] obtain v c where
    wc: "walk_blocks (Suc (length bbs)) g cg cp ots bbs ?seen [cp_start cp] ([], []) = Ok (v, c)"
    and w: "walked g cg cp bbs v" by blast
  obtain re un where "c = (re, un)" by (rule prod.exhaust)
  with wc have "walk_blocks (Suc (length bbs)) g cg cp ots bbs ?seen [cp_start cp] ([], []) =
      Ok (v, re, un)" by simp
  then have "canReachFromAllPaths line_of g cg cp ots bbs = (case v of Some w \<Rightarrow> Ok w
      | None \<Rightarrow> Ok (
          if cp_defer cp then Passed
          else if is_lock cp then
            if length un = length ots then Passed
            else unreached (\<lambda>out. isInCallArray un out \<or> happenBeforeLock line_of (cp_inst cp) out) cp ots
          else if length re = length ots then Passed
          else unreached (isInInstArray re) cp ots))"
    unfolding canReachFromAllPaths_def Let_def by (simp only: bindR.simps case_prod_conv)
  with w show ?thesis by (cases v) auto
qed

lemma walk_inv_safe:
  assumes "walk_inv cp bbs V []" and "reaches (cfg_succs bbs) (cp_start cp) i"
  shows "\<not> fails_at cp bbs i"
proof -
  have "i \<in> V" using assms(2) by (rule reaches_closed) (use assms(1) in \<open>auto simp: walk_inv_def\<close>)
  with assms(1) show ?thesis by (simp add: walk_inv_def)
qed

section \<open>Properties\<close>


text \<open>A function that locks in block 0, unlocks in block 1 and may panic in block 2.\<close>

definition cf_value :: "nat \<Rightarrow> ssa_value" where
  "cf_value i = \<lparr>val_id = i, val_global = False, val_type = ''*sync.Mutex'', val_str = ''mu'', val_name = ''t0''\<rparr>"

definition cf_instr :: "int \<Rightarrow> int \<Rightarrow> instr_kind \<Rightarrow> instruction" where
  "cf_instr pos blk k = \<lparr>inst_id = nat pos, inst_pos = pos, inst_str = itoa pos, inst_block = blk, inst_kind = k, inst_val = cf_value 0\<rparr>"

definition cf_call :: "string \<Rightarrow> nat \<Rightarrow> call_common" where
  "cf_call name i = \<lparr>cc_id = i, cc_name = name, cc_args = [cf_value i], cc_value = cf_value i, cc_method = None, cc_str = name\<rparr>"

definition cf_graph :: RFGraph where
  "cf_graph = InitializeRFG \<lparr>PointsTo = (\<lambda>v c. [int (val_id v)]), GetGlobalVarID = (\<lambda>v. []),
     GetPTSByObjID = (\<lambda>i. [])\<rparr>"

definition cf_blocks :: "basic_block list" where
  "cf_blocks =
     [\<lparr>bb_index = 0, bb_comment = ''entry'',
       bb_instrs = [cf_instr 10 0 (KCall (cf_call ''Lock'' 7)), cf_instr 11 0 KIf], bb_succs = [1, 2]\<rparr>,
      \<lparr>bb_index = 1, bb_comment = ''if.then'',
       bb_instrs = [cf_instr 12 1 (KCall (cf_call ''Unlock'' 7)), cf_instr 13 1 (KReturn [])], bb_succs = []\<rparr>,
      \<lparr>bb_index = 2, bb_comment = ''if.done'', bb_instrs = [cf_instr 14 2 KPanic], bb_succs = []\<rparr>]"

definition cf_check :: checkpoint where
  "cf_check = \<lparr>cp_inst = cf_instr 10 0 (KCall (cf_call ''Lock'' 7)), cp_start = 0, cp_pts = Some [7],
     cp_defer = False, cp_pos = 10\<rparr>"

lemma cf_blocks_wf: "wf_blocks cf_blocks" "block_ids cf_blocks = {0, 1, 2}"
  by (auto simp: wf_blocks_def cf_blocks_def cf_instr_def has_receiver_def cf_call_def in_range_def
      block_ids_def)


section \<open>The checkpoints of a function\<close>

text \<open>Positions in \<open>pts2lock\<close> stay inside the list, although removals make them stale.\<close>

definition marks_inv :: "basic_block list \<Rightarrow> marks \<Rightarrow> bool" where
  "marks_inv bbs m \<longleftrightarrow> (\<forall>k idx. mget (pts2lock m) k = Some idx \<longrightarrow> idx < length (checkpoints m)) \<and>
     (\<forall>cp \<in> set (checkpoints m). in_range bbs (cp_start cp))"

lemma mark_inv:
  assumes "marks_inv bbs m" and "in_range bbs (inst_block inst)"
  shows "marks_inv bbs (mark inst pts d m)"
  using assms by (auto simp: marks_inv_def mark_def less_Suc_eq)

lemma mark_instr_inv:
  assumes "marks_inv bbs m" and "in_range bbs (inst_block inst)" and "has_receiver inst"
  shows "\<exists>m'. mark_instr g cg inst m = Ok m' \<and> marks_inv bbs m'"
proof (cases "\<exists>call. inst_kind inst = KCall call \<or> inst_kind inst = KDefer call")
  case False
  with assms(1) show ?thesis
    by (cases "inst_kind inst") (auto simp: mark_instr_def marks_inv_def)
next
  case True
  then obtain call where k: "inst_kind inst = KCall call \<or> inst_kind inst = KDefer call" by blast
  note mk = mark_inv [OF assms(1,2)]
  have args: "\<exists>key. slice_get (cc_args call) 0 = Ok key \<and> args0_pts g cg call = Ok (getPTS g key cg)"
    if "cc_name call \<in> set marking_names"
    using args0_Ok [OF assms(3) k that] .
  have lock: "\<exists>m'. markLock g cg inst call m = Ok m' \<and> marks_inv bbs m'"
    if "cc_name call \<in> set marking_names"
    using args [OF that] mk by (auto simp: markLock_def marks_inv_def mark_def Let_def)
  have unlock: "\<exists>m'. markUnlock g cg inst call True m = Ok m' \<and> marks_inv bbs m'"
    if n: "cc_name call \<in> set marking_names"
  proof -
    from args [OF n] obtain pts where p: "args0_pts g cg call = Ok pts" by blast
    let ?m = "mark inst (Some pts) True m"
    show ?thesis
    proof (cases "mget (pts2lock ?m) (sprint_ints pts)")
      case None
      with p mk show ?thesis by (simp add: markUnlock_def Let_def)
    next
      case (Some idx)
      with mk [of "Some pts" True] have idx: "idx < length (checkpoints ?m)"
        by (auto simp: marks_inv_def)
      let ?cps = "take idx (checkpoints ?m) @ drop (Suc idx) (checkpoints ?m)"
      have "length ?cps = length (checkpoints ?m) - 1" using idx by simp
      then have "length ?cps = length (checkpoints m)" by (simp add: mark_def)
      moreover have "j < length (checkpoints m)" if "mget (pts2lock ?m) s = Some j" for s j
        using that assms(1) by (simp add: marks_inv_def mark_def)
      ultimately have len: "j < length ?cps" if "mget (pts2lock ?m) s = Some j" for s j
        using that by metis
      have "set ?cps \<subseteq> set (checkpoints ?m)"
        by (auto dest: in_set_takeD in_set_dropD)
      with mk [of "Some pts" True] have "\<forall>cp \<in> set ?cps. in_range bbs (cp_start cp)"
        unfolding marks_inv_def by blast
      with len have "marks_inv bbs (?m\<lparr>checkpoints := ?cps\<rparr>)"
        unfolding marks_inv_def by (simp del: length_append)
      with p Some idx show ?thesis by (simp add: markUnlock_def Let_def remove_at_def)
    qed
  qed
  have wg: "\<exists>m'. markWGDone inst call d m = Ok m' \<and> marks_inv bbs m'"
    if "cc_name call \<in> set marking_names" for d
    using args [OF that] mk assms(1) by (auto simp: markWGDone_def)
  from k lock unlock wg mk assms(1) show ?thesis
    by (auto simp: mark_instr_def markBroadcast_def marking_names_def)
qed

definition wf_function :: "basic_block list \<Rightarrow> bool" where
  "wf_function bbs \<longleftrightarrow> wf_blocks bbs \<and>
     (\<forall>bb \<in> set bbs. \<forall>inst \<in> set (bb_instrs bb). in_range bbs (inst_block inst))"

lemma collect_marks_Ok:
  assumes "wf_function bbs"
  shows "\<exists>m. collect_marks g cg bbs = Ok m \<and> marks_inv bbs m"
  unfolding collect_marks_def
proof (rule loopR_total)
  show "marks_inv bbs \<lparr>checkpoints = [], outs = [], pts2lock = []\<rparr>" by (simp add: marks_inv_def)
  fix bb m
  assume bb: "bb \<in> set bbs" and "marks_inv bbs m"
  then show "\<exists>m'. loopR (mark_instr g cg) (bb_instrs bb) m = Ok m' \<and> marks_inv bbs m'"
    using assms mark_instr_inv unfolding wf_function_def wf_blocks_def by (intro loopR_total) blast+
qed

lemma CheckCompleteFlow_errs:
  assumes "wf_function bbs"
  shows "\<exists>m errs. collect_marks g cg bbs = Ok m \<and> CheckCompleteFlow line_of g cg bbs = Ok errs \<and>
    set (map cf_inst_pos errs) \<subseteq> set (map cp_pos (checkpoints m)) \<and>
    length errs \<le> length (checkpoints m)"
proof -
  from collect_marks_Ok [OF assms] obtain m where m: "collect_marks g cg bbs = Ok m"
    "marks_inv bbs m" by blast
  have wf: "wf_blocks bbs" using assms by (simp add: wf_function_def)
  let ?body = "\<lambda>cp ret. bindR (canReachFromAllPaths line_of g cg cp (outs m) bbs) (\<lambda>v.
      case v of Passed \<Rightarrow> Ok ret | Failed e \<Rightarrow> Ok (ret @ [e\<lparr>cf_inst_pos := cp_pos cp\<rparr>]))"
  have "\<exists>errs. loopR ?body cps ret = Ok (ret @ errs) \<and>
      set (map cf_inst_pos errs) \<subseteq> set (map cp_pos cps) \<and> length errs \<le> length cps"
    if "set cps \<subseteq> set (checkpoints m)" for cps ret
    using that
  proof (induction cps arbitrary: ret)
    case (Cons cp cps)
    have "cp_start cp \<in> block_ids bbs" using m(2) Cons.prems by (simp add: marks_inv_def block_ids_def)
    from canReach_walk [OF wf this, of line_of g cg "outs m"] obtain w where
      w: "canReachFromAllPaths line_of g cg cp (outs m) bbs = Ok w" by blast
    show ?case
    proof (cases w)
      case Passed
      from Cons.IH [of ret] Cons.prems obtain errs where
        "loopR ?body cps ret = Ok (ret @ errs)"
        "set (map cf_inst_pos errs) \<subseteq> set (map cp_pos cps)" "length errs \<le> length cps" by auto
      with w Passed show ?thesis
        by (intro exI [of _ errs]) (simp add: subset_insertI2 le_SucI)
    next
      case (Failed e)
      let ?e = "e\<lparr>cf_inst_pos := cp_pos cp\<rparr>"
      from Cons.IH [of "ret @ [?e]"] Cons.prems obtain errs where
        "loopR ?body cps (ret @ [?e]) = Ok (ret @ ?e # errs)"
        "set (map cf_inst_pos errs) \<subseteq> set (map cp_pos cps)" "length errs \<le> length cps" by auto
      with w Failed show ?thesis by (intro exI [of _ "?e # errs"]) auto
    qed
  qed simp
  from this [of "checkpoints m" "[]"] m(1) show ?thesis by (simp add: CheckCompleteFlow_def)
qed

text \<open>
  C33: \<open>CheckCompleteFlow\<close> terminates without a panic on every function whose blocks
  are not empty, name blocks of the function as successors, and whose calls of methods named like a
  lock or wait-group operation have a receiver; each error is about one of the checkpoints.
\<close>

theorem flow_check_total:
  assumes "wf_function bbs"
  shows "\<exists>m errs. collect_marks g cg bbs = Ok m \<and> CheckCompleteFlow line_of g cg bbs = Ok errs \<and>
    set (map cf_inst_pos errs) \<subseteq> set (map cp_pos (checkpoints m)) \<and>
    length errs \<le> length (checkpoints m)"
  using assms by (rule CheckCompleteFlow_errs)

theorem flow_check_total_witness:
  "\<exists>errs. CheckCompleteFlow (\<lambda>p. p) cf_graph zero_cg_node cf_blocks = Ok errs \<and> length errs \<le> 1"
proof -
  have "wf_function cf_blocks" using cf_blocks_wf(1)
    by (auto simp: wf_function_def cf_blocks_def cf_instr_def in_range_def)
  from flow_check_total [OF this, of cf_graph zero_cg_node "\<lambda>p. p"] obtain m errs where
    m: "collect_marks cf_graph zero_cg_node cf_blocks = Ok m"
    "CheckCompleteFlow (\<lambda>p. p) cf_graph zero_cg_node cf_blocks = Ok errs"
    "length errs \<le> length (checkpoints m)" by blast
  have "case collect_marks cf_graph zero_cg_node cf_blocks of Ok m \<Rightarrow> length (checkpoints m) = 1 | _ \<Rightarrow> False"
    by code_simp
  with m show ?thesis by simp
qed

text \<open>
  C34: Two locks with different objects whose unlocks are deferred in the order in
  which they were taken: the second deferred unlock removes the checkpoint of the first deferred
  unlock instead of its own lock, because the recorded position is one too high after the first
  removal. Deferring each unlock right after its lock removes the right ones.
\<close>

definition marks_of :: "RFGraph \<Rightarrow> cg_node \<Rightarrow> instruction list \<Rightarrow> instruction list res" where
  "marks_of g cg insts = bindR (loopR (mark_instr g cg) insts \<lparr>checkpoints = [], outs = [], pts2lock = []\<rparr>)
     (\<lambda>m. Ok (map cp_inst (checkpoints m)))"

theorem stale_unlock_index:
  assumes "inst_kind la = KCall ca" and "cc_name ca = ''Lock''" and "args0_pts g cg ca = Ok p"
    and "inst_kind lb = KCall cb" and "cc_name cb = ''Lock''" and "args0_pts g cg cb = Ok q"
    and "inst_kind ua = KDefer da" and "cc_name da = ''Unlock''" and "args0_pts g cg da = Ok p"
    and "inst_kind ub = KDefer db" and "cc_name db = ''Unlock''" and "args0_pts g cg db = Ok q"
    and "p \<noteq> q"
  shows "marks_of g cg [la, lb, ua, ub] = Ok [lb, ub] \<and> marks_of g cg [la, ua, lb, ub] = Ok [ua, ub]"
  using assms
  by (simp add: marks_of_def mark_instr_def markLock_def markUnlock_def mark_def remove_at_def
      sprint_ints_inject)

theorem stale_unlock_index_witness:
  "marks_of cf_graph zero_cg_node [cf_instr 1 0 (KCall (cf_call ''Lock'' 7)),
     cf_instr 2 0 (KCall (cf_call ''Lock'' 8)), cf_instr 3 0 (KDefer (cf_call ''Unlock'' 7)),
     cf_instr 4 0 (KDefer (cf_call ''Unlock'' 8))] =
   Ok [cf_instr 2 0 (KCall (cf_call ''Lock'' 8)), cf_instr 4 0 (KDefer (cf_call ''Unlock'' 8))]"
proof -
  have "args0_pts cf_graph zero_cg_node (cf_call nm i) = Ok [int i]" for nm i
    by (simp add: args0_pts_def cf_call_def cf_graph_def InitializeRFG_def getPTS_def cf_value_def
        slice_get_def in_range_def)
  then show ?thesis
    using stale_unlock_index [of "cf_instr 1 0 (KCall (cf_call ''Lock'' 7))" "cf_call ''Lock'' 7"
      cf_graph zero_cg_node "[7]" "cf_instr 2 0 (KCall (cf_call ''Lock'' 8))" "cf_call ''Lock'' 8" "[8]"
      "cf_instr 3 0 (KDefer (cf_call ''Unlock'' 7))" "cf_call ''Unlock'' 7"
      "cf_instr 4 0 (KDefer (cf_call ''Unlock'' 8))" "cf_call ''Unlock'' 8"]
    by (simp add: cf_instr_def cf_call_def)
qed

end
