(* ===== verification/RFGBuild.thy ===== *)
theory RFGBuild
  imports HBEdges GoStrings
begin

text \<open>
  The bookkeeping of the construction of the graph in \<open>concurrency/rfg.go\<close>: registering nodes and
  edges, the producers and consumers of objects, the locks held while race detection is on, copies
  of deferred nodes, the signatures that bound how often a callee is visited, and the statistics.
  The walk over SSA instructions that calls these operations follows in \<open>RFGWalk\<close>.
\<close>

section \<open>Nodes and edges\<close>

text \<open>The counter \<open>ID\<close> is the field \<open>next_ID\<close>; a nil \<open>prev_node\<close> is the key \<open>None\<close>.\<close>

definition updateNodes :: "int option \<Rightarrow> node \<Rightarrow> bool \<Rightarrow> RFGraph \<Rightarrow> RFGraph" where
  "updateNodes prev cur skip_append g =
     (let g = g\<lparr>id2node := mput (next_ID g) cur (id2node g), next_ID := next_ID g + 1\<rparr>
      in if skip_append then g
         else g\<lparr>adjList := mput prev (mget0 [] (adjList g) prev @ [node_id cur]) (adjList g)\<rparr>)"

section \<open>Resources\<close>

definition is_producer :: "node \<Rightarrow> bool" where
  "is_producer n \<longleftrightarrow> isSender n \<or> is_cancel n \<or>
     typId n \<in> set [NUnlock, NRUnlock, NClose, NExit, NWGDone, NSignal, NBroadcast]"

definition UpdateResourcesInner :: "int \<Rightarrow> node \<Rightarrow> RFGraph \<Rightarrow> RFGraph" where
  "UpdateResourcesInner obj n g =
     (let pcs = (case mget (resources g) obj of Some pcs \<Rightarrow> pcs | None \<Rightarrow> \<lparr>producers = [], consumers = []\<rparr>);
          pcs = (if is_producer n then pcs\<lparr>producers := producers pcs @ [node_id n]\<rparr>
                 else pcs\<lparr>consumers := consumers pcs @ [node_id n]\<rparr>)
      in g\<lparr>resources := mput obj pcs (resources g)\<rparr>)"

section \<open>Locks held\<close>

type_synonym held = "(int, (int, bool) gomap) gomap"

text \<open>The two halves of the switch, on the map of exclusive or of read locks.\<close>

definition hold :: "int \<Rightarrow> int list \<Rightarrow> held \<Rightarrow> held" where
  "hold tid pts h =
     (let h = (if mhas h tid then h else mput tid [] h)
      in fold (\<lambda>obj h. mput tid (mput obj True (mget0 [] h tid)) h) pts h)"

definition unhold :: "int \<Rightarrow> int list \<Rightarrow> held \<Rightarrow> held" where
  "unhold tid pts h =
     (if mhas h tid then
        fold (\<lambda>obj h. if mget (mget0 [] h tid) obj = Some True
                then mput tid (mput obj False (mget0 [] h tid)) h else h) pts h
      else h)"

definition UpdateLockset :: "node \<Rightarrow> RFGraph \<Rightarrow> RFGraph" where
  "UpdateLockset n g = (if lock_ptr n = None then g
     else let pts = ptr_pts g (lock_ptr n) (cgnode n) in
       (case typId n of
          NLock \<Rightarrow> g\<lparr>holding_locks := hold (gid n) pts (holding_locks g)\<rparr>
        | NRLock \<Rightarrow> g\<lparr>holding_rlocks := hold (gid n) pts (holding_rlocks g)\<rparr>
        | NUnlock \<Rightarrow> g\<lparr>holding_locks := unhold (gid n) pts (holding_locks g)\<rparr>
        | NRUnlock \<Rightarrow> g\<lparr>holding_rlocks := unhold (gid n) pts (holding_rlocks g)\<rparr>
        | _ \<Rightarrow> g))"

definition held_objs :: "env \<Rightarrow> int \<Rightarrow> held \<Rightarrow> int list" where
  "held_objs E tid h = (let m = mget0 [] h tid in
     filter (\<lambda>obj. mget0 False m obj) (range_keys (map_order E) m))"

definition computeLockset :: "env \<Rightarrow> int \<Rightarrow> RFGraph \<Rightarrow> int list" where
  "computeLockset E tid g = held_objs E tid (holding_locks g) @ held_objs E tid (holding_rlocks g)"

definition UpdateResources :: "env \<Rightarrow> ssa_value option \<Rightarrow> cg_node \<Rightarrow> node \<Rightarrow> RFGraph \<Rightarrow> RFGraph" where
  "UpdateResources E key cg n g =
     (let g = fold (\<lambda>obj g. case mget (rfg_alias g) obj of
                Some base \<Rightarrow> UpdateResourcesInner base n g
              | None \<Rightarrow> UpdateResourcesInner obj n g) (ptr_pts g key cg) g
      in if DoRace E \<and> \<not> from_defer n then UpdateLockset n g else g)"

definition updateChannelPTS :: "ssa_value \<Rightarrow> cg_node \<Rightarrow> RFGraph \<Rightarrow> RFGraph" where
  "updateChannelPTS ch cg g =
     fold (\<lambda>obj g. case GetPTSByObjID (pa g) obj of [] \<Rightarrow> g
            | base # _ \<Rightarrow> g\<lparr>rfg_alias := mput obj base (rfg_alias g)\<rparr>) (getPTS g ch cg) g"

section \<open>Copies of deferred nodes\<close>

definition copied :: "node \<Rightarrow> int \<Rightarrow> node" where
  "copied n new_id = zero_node\<lparr>node_id := new_id, typId := typId n, cgnode := cgnode n,
     parent_id := parent_id n, gid := gid n, from_defer := from_defer n, is_copy := True\<rparr>"

definition Copy_node :: "env \<Rightarrow> node \<Rightarrow> RFGraph \<Rightarrow> node \<times> RFGraph" where
  "Copy_node E n g =
     (let cop = copied n (next_ID g) in
      if typId n = NUnlock \<or> typId n = NRUnlock then
        let cop = cop\<lparr>unlock_inst := unlock_inst n, lock_ptr := lock_ptr n\<rparr>;
            g = updateNodes None cop False g
        in (cop, UpdateResources E (lock_ptr cop) (cgnode cop) cop g)
      else if typId n = NClose then
        let cop = cop\<lparr>ch_name := ch_name n, ch_close_inst := ch_close_inst n, ch_ptr := ch_ptr n\<rparr>;
            g = updateNodes None cop True g
        in (cop, UpdateResources E (ch_ptr cop) (cgnode cop) cop g)
      else (cop, g))"

fun copyDeferNodes :: "env \<Rightarrow> node list \<Rightarrow> RFGraph \<Rightarrow> node list \<times> RFGraph" where
  "copyDeferNodes E [] g = ([], g)"
| "copyDeferNodes E (d # ds) g =
     (case Copy_node E d g of (c, g) \<Rightarrow>
        (case copyDeferNodes E ds g of (cs, g) \<Rightarrow> (c # cs, g)))"

section \<open>Visiting callees\<close>

definition onlyDeferReturn :: "basic_block \<Rightarrow> bool" where
  "onlyDeferReturn bb = (case bb_instrs bb of
     [i, j] \<Rightarrow> inst_kind i = KRunDefers \<and> (case inst_kind j of KReturn _ \<Rightarrow> True | _ \<Rightarrow> False) | _ \<Rightarrow> False)"

text \<open>
  A call site: none for main, an \<open>ssa.Call\<close> or an \<open>ssa.Go\<close> with its text, or another instruction.
  \<open>ctx\<close> is the rendering of the callee's context.
\<close>

datatype call_site = NoSite | CallSite string | GoSite string | OtherSite string

definition getSig :: "call_site \<Rightarrow> string \<Rightarrow> string \<Rightarrow> string res" where
  "getSig site fn ctx = (case site of
       NoSite \<Rightarrow> Ok fn
     | CallSite s \<Rightarrow> Ok (s @ CHR ''@'' # fn @ CHR ''@'' # ctx)
     | GoSite s \<Rightarrow> Ok (s @ CHR ''@'' # fn @ CHR ''@'' # ctx)
     | OtherSite s \<Rightarrow> Panic (ExplicitPanic (''should not handle other site type: '' @ s)))"

definition considerFns :: "string list" where
  "considerFns = [''io.ReadFull'', ''io.ReadAtLeast'', ''context.WithCancel$1'']"

text \<open>\<open>pkg\<close> is the package of the function, as a string, if it has one.\<close>

definition inScopePkg :: "string list \<Rightarrow> string \<Rightarrow> (string \<Rightarrow> string option) \<Rightarrow> string \<Rightarrow> bool" where
  "inScopePkg ExcludedPkgs scopePkg pkg fn =
     (if fn \<in> set considerFns then True
      else if list_ex (str_contains fn) ExcludedPkgs then False
      else (case pkg fn of None \<Rightarrow> False | Some p \<Rightarrow> str_contains p scopePkg))"

definition limit :: int where
  "limit = 3"

text \<open>\<open>callee\<close> is its function and context, or none; \<open>h\<close> is the current tid of the helper, or nil.\<close>

definition doVisit ::
  "(string \<Rightarrow> bool) \<Rightarrow> RFGraph \<Rightarrow> call_site \<Rightarrow> (string \<times> string) option \<Rightarrow> int option \<Rightarrow> bool res" where
  "doVisit in_scope g site callee h = (case callee of None \<Rightarrow> Ok False
     | Some (fn, ctx) \<Rightarrow> if in_scope fn
         then bindR (deref h) (\<lambda>tid. bindR (getSig site fn ctx) (\<lambda>sig.
           Ok (mget0 0 (g_visited g) sig < limit)))
         else Ok False)"

section \<open>Statistics\<close>

definition count_node :: "node \<Rightarrow> (int, int) gomap \<Rightarrow> (int, int) gomap" where
  "count_node n nums =
     (let inc = (\<lambda>k m. mput k (mget0 0 m k + 1) m) in
      case typId n of
        NChannel \<Rightarrow> inc 0 nums | NCase \<Rightarrow> inc 0 nums | NCaseDone \<Rightarrow> inc 0 nums
      | NLock \<Rightarrow> inc 1 nums | NRLock \<Rightarrow> inc 1 nums
      | NCancel \<Rightarrow> inc 2 nums
      | NWGWait \<Rightarrow> inc 3 nums
      | NSignal \<Rightarrow> inc 4 nums | NBroadcast \<Rightarrow> inc 4 nums
      | NROC \<Rightarrow> inc 5 nums
      | NSelect \<Rightarrow> inc 6 nums
      | NRW \<Rightarrow> fold (\<lambda>rwn. if rw_write rwn then inc 10 else inc 9) (rws n) (inc 11 nums)
      | _ \<Rightarrow> nums)"

definition Statistics :: "env \<Rightarrow> RFGraph \<Rightarrow> (int, int) gomap" where
  "Statistics E g =
     (let nums = fold (\<lambda>(_, n). count_node n) (id2node g) [];
          nums = mput 8 (int (length (roots g))) (mput 7 (int (length (states g))) nums);
          p = rfgplus g
      in if DoRace E then
           let nums = mput 12 (int (length (races p))) nums;
               nums = (if Plus E then mput 14 (size_node p) (mput 13 (size_edge p) nums) else nums)
           in mput 18 (int (length (pts2ReadNode p))) (mput 17 (int (length (pts2WriteNode p)))
                (mput 16 (int (length (obj2ReadNode p))) (mput 15 (int (length (obj2WriteNode p))) nums)))
         else nums)"

end
