(* ===== verification/BuildProps.thy ===== *)
theory BuildProps
  imports RFGBuild
begin

text \<open>
  The bookkeeping of the graph construction: every pointer it stores leads to a registered node, and
  the maps of held locks implement a pair of lock sets per goroutine.
\<close>

section \<open>Registered nodes\<close>

definition wf_build :: "RFGraph \<Rightarrow> bool" where
  "wf_build g \<longleftrightarrow> wf_nodes g \<and> (\<forall>i \<in> node_ids g. i < next_ID g) \<and>
     (\<forall>prev. set (mget0 [] (adjList g) prev) \<subseteq> node_ids g) \<and>
     (\<forall>obj pcs. mget (resources g) obj = Some pcs \<longrightarrow>
        set (producers pcs) \<union> set (consumers pcs) \<subseteq> node_ids g)"

lemma node_ids_updateNodes: "node_ids (updateNodes prev n skip g) = insert (next_ID g) (node_ids g)"
proof -
  have "i \<in> node_ids (updateNodes prev n skip g) \<longleftrightarrow> i \<in> insert (next_ID g) (node_ids g)" for i
    by (simp add: node_ids_iff updateNodes_def Let_def)
  then show ?thesis by blast
qed

lemma set_mput: "set (mput k v m) \<subseteq> insert (k, v) (set m)"
  by (induction m) auto

lemma wf_nodes_mput:
  assumes "wf_nodes g" and "node_id n = k" and "id2node g' = mput k n (id2node g)"
  shows "wf_nodes g'"
  using assms set_mput [of k n "id2node g"] unfolding wf_nodes_def list_all_iff by auto

lemma updateNodes_wf:
  assumes "wf_build g" and "node_id n = next_ID g"
  shows "wf_build (updateNodes prev n skip g)"
  unfolding wf_build_def node_ids_updateNodes
proof (intro conjI allI impI ballI)
  have w: "wf_nodes g" "\<forall>i \<in> node_ids g. i < next_ID g" "\<forall>prev. set (mget0 [] (adjList g) prev) \<subseteq> node_ids g"
    "\<forall>obj pcs. mget (resources g) obj = Some pcs \<longrightarrow>
        set (producers pcs) \<union> set (consumers pcs) \<subseteq> node_ids g"
    using assms(1) unfolding wf_build_def by blast+
  show "wf_nodes (updateNodes prev n skip g)"
    using w(1) assms(2) by (rule wf_nodes_mput) (simp add: updateNodes_def Let_def)
  have id: "next_ID (updateNodes prev n skip g) = next_ID g + 1" by (simp add: updateNodes_def Let_def)
  show "i < next_ID (updateNodes prev n skip g)" if "i \<in> insert (next_ID g) (node_ids g)" for i
    using that w(2) unfolding id by fastforce
  show "set (mget0 [] (adjList (updateNodes prev n skip g)) p) \<subseteq> insert (next_ID g) (node_ids g)" for p
    using w(3) assms(2) by (auto simp: updateNodes_def Let_def)
  show "set (producers pcs) \<union> set (consumers pcs) \<subseteq> insert (next_ID g) (node_ids g)"
    if "mget (resources (updateNodes prev n skip g)) obj = Some pcs" for obj pcs
  proof -
    have "mget (resources g) obj = Some pcs"
      using that by (cases skip) (simp_all add: updateNodes_def Let_def)
    with w(4) show ?thesis by blast
  qed
qed

lemma resources_ids [simp]: "node_ids (g\<lparr>resources := r\<rparr>) = node_ids g"
  "wf_nodes (g\<lparr>resources := r\<rparr>) = wf_nodes g"
  by (simp_all add: node_ids_def wf_nodes_def)

lemma UpdateResourcesInner_wf:
  assumes "wf_build g" and "node_id n \<in> node_ids g"
  shows "wf_build (UpdateResourcesInner obj n g) \<and> node_ids (UpdateResourcesInner obj n g) = node_ids g"
  using assms
  by (auto simp: wf_build_def UpdateResourcesInner_def Let_def split: option.splits)

lemma locks_wf [simp]:
  "wf_build (g\<lparr>holding_locks := h\<rparr>) = wf_build g" "node_ids (g\<lparr>holding_locks := h\<rparr>) = node_ids g"
  "wf_build (g\<lparr>holding_rlocks := h\<rparr>) = wf_build g" "node_ids (g\<lparr>holding_rlocks := h\<rparr>) = node_ids g"
  by (simp_all add: wf_build_def node_ids_def wf_nodes_def)

lemma UpdateLockset_wf [simp]:
  "wf_build (UpdateLockset n g) = wf_build g" "node_ids (UpdateLockset n g) = node_ids g"
  by (auto simp: UpdateLockset_def Let_def split: TypeOfNode.splits)

lemma UpdateResources_wf:
  assumes "wf_build g" and "node_id n \<in> node_ids g"
  shows "wf_build (UpdateResources E key cg n g) \<and> node_ids (UpdateResources E key cg n g) = node_ids g"
proof -
  let ?f = "\<lambda>obj g. case mget (rfg_alias g) obj of
      Some base \<Rightarrow> UpdateResourcesInner base n g | None \<Rightarrow> UpdateResourcesInner obj n g"
  have "wf_build (fold ?f pts g) \<and> node_ids (fold ?f pts g) = node_ids g" for pts
    using assms
  proof (induction pts arbitrary: g)
    case (Cons obj pts)
    have "wf_build (?f obj g) \<and> node_ids (?f obj g) = node_ids g"
      using UpdateResourcesInner_wf [OF Cons.prems] by (simp split: option.splits)
    with Cons.IH [of "?f obj g"] Cons.prems(2) show ?case by simp
  qed simp
  then show ?thesis by (simp add: UpdateResources_def Let_def)
qed

lemma Copy_node_wf:
  assumes "wf_build g"
  shows "wf_build (snd (Copy_node E n g))"
proof -
  have reg: "wf_build (UpdateResources E key cg c (updateNodes p c skip g))"
    if "node_id c = next_ID g" for key cg c p skip
    using UpdateResources_wf [OF updateNodes_wf [OF assms that]] that
    by (simp add: node_ids_updateNodes)
  show ?thesis using assms by (auto simp: Copy_node_def Let_def copied_def intro!: reg)
qed

lemma copyDeferNodes_wf: "wf_build g \<Longrightarrow> wf_build (snd (copyDeferNodes E ds g))"
proof (induction ds arbitrary: g)
  case (Cons d ds)
  obtain c g1 where c: "Copy_node E d g = (c, g1)" by fastforce
  with Copy_node_wf [OF Cons.prems, of E d] Cons.IH [of g1] show ?case
    by (simp add: case_prod_beta)
qed simp

section \<open>Held locks\<close>

text \<open>The specification: per goroutine, the objects held exclusively and for reading.\<close>

type_synonym lock_sets = "int \<Rightarrow> int set \<times> int set"

definition spec_lockset :: "node \<Rightarrow> int set \<Rightarrow> lock_sets \<Rightarrow> lock_sets" where
  "spec_lockset n objs s = (case s (gid n) of (ex, rd) \<Rightarrow>
     (case typId n of
        NLock \<Rightarrow> s(gid n := (ex \<union> objs, rd))
      | NRLock \<Rightarrow> s(gid n := (ex, rd \<union> objs))
      | NUnlock \<Rightarrow> s(gid n := (ex - objs, rd))
      | NRUnlock \<Rightarrow> s(gid n := (ex, rd - objs))
      | _ \<Rightarrow> s))"

definition holds :: "held \<Rightarrow> int \<Rightarrow> int set" where
  "holds h tid = {obj. mget0 False (mget0 [] h tid) obj}"

definition abs_locks :: "RFGraph \<Rightarrow> lock_sets" where
  "abs_locks g = (\<lambda>tid. (holds (holding_locks g) tid, holds (holding_rlocks g) tid))"

lemma holds_put: "holds (mput tid m h) t = (if t = tid then {obj. mget0 False m obj} else holds h t)"
  by (simp add: holds_def)

lemma holds_hold: "holds (hold tid pts h) t = (if t = tid then holds h tid \<union> set pts else holds h t)"
proof -
  have loop: "holds (fold (\<lambda>obj h. mput tid (mput obj True (mget0 [] h tid)) h) pts h) t =
      (if t = tid then holds h tid \<union> set pts else holds h t)" for h
    by (induction pts arbitrary: h) (auto simp: holds_put, auto simp: holds_def)
  have "holds (if mhas h tid then h else mput tid [] h) u = holds h u" for u
    by (auto simp: holds_put mhas_def) (auto simp: holds_def mget0_def)
  with loop show ?thesis by (simp add: hold_def Let_def)
qed

lemma holds_unhold: "holds (unhold tid pts h) t = (if t = tid then holds h tid - set pts else holds h t)"
proof (cases "mhas h tid")
  case True
  have "holds (fold (\<lambda>obj h. if mget (mget0 [] h tid) obj = Some True
        then mput tid (mput obj False (mget0 [] h tid)) h else h) pts h) t =
      (if t = tid then holds h tid - set pts else holds h t)"
  proof (induction pts arbitrary: h)
    case (Cons obj pts)
    let ?h = "if mget (mget0 [] h tid) obj = Some True
        then mput tid (mput obj False (mget0 [] h tid)) h else h"
    have m: "mget m x = Some True \<longleftrightarrow> mget0 False m x" for m :: "(int, bool) gomap" and x
      by (auto simp: mget0_def split: option.splits)
    have "holds ?h u = (if u = tid then holds h tid - {obj} else holds h u)" for u
      by (auto simp: m holds_put) (auto simp: holds_def split: if_splits)
    with Cons show ?case by auto
  qed simp
  with True show ?thesis by (simp add: unhold_def)
next
  case False
  then have "holds h tid = {}" by (simp add: holds_def mhas_def mget0_def)
  with False show ?thesis by (simp add: unhold_def)
qed

lemma set_held_objs:
  assumes "proper_env E"
  shows "set (held_objs E tid h) = holds h tid"
proof -
  have "set (range_keys (map_order E) m) = dom (mget m)" for m :: "(int, bool) gomap"
    using assms by (intro set_range_keys) (simp add: proper_env_def)
  then show ?thesis by (auto simp: held_objs_def holds_def mget0_def Let_def split: option.splits)
qed

section \<open>Properties\<close>

text \<open>
  The construction only stores pointers to registered nodes: registering a node
  under the next id, recording a registered node as producer or consumer, and copying deferred nodes
  keep that every edge and every producer or consumer leads to a registered node, that nodes are
  registered under their id, and that all ids are below the counter. It is what the walks of the
  happens-before component need of the control-flow edges and of the consumers.
\<close>

lemma build_registered:
  assumes "wf_build g" and "node_id n = next_ID g" and "node_id r \<in> node_ids g"
  shows "wf_build (updateNodes prev n skip g) \<and>
    node_ids (updateNodes prev n skip g) = insert (next_ID g) (node_ids g) \<and>
    wf_build (UpdateResources E key cg r g) \<and> node_ids (UpdateResources E key cg r g) = node_ids g \<and>
    wf_build (snd (copyDeferNodes E ds g)) \<and>
    wf_flow g \<and> wf_nodes g \<and> (\<forall>i. set (sync_targets g i) \<subseteq> node_ids g)"
proof -
  have "set (kids g i) \<subseteq> node_ids g" for i using assms(1) by (simp add: wf_build_def kids_def)
  moreover have "set (consumers_of g obj) \<subseteq> node_ids g" for obj
    using assms(1) by (cases "mget (resources g) obj") (auto simp: wf_build_def consumers_of_def)
  then have "set (sync_targets g i) \<subseteq> node_ids g" for i
    by (fastforce simp: sync_targets_def split: option.splits res.splits)
  ultimately show ?thesis
    using updateNodes_wf [OF assms(1,2)] UpdateResources_wf [OF assms(1,3)]
      copyDeferNodes_wf [OF assms(1)] assms(1)
    by (simp add: node_ids_updateNodes wf_flow_def) (simp add: wf_build_def)
qed

text \<open>Building two nodes: a lock and the copy of its deferred unlock.\<close>

definition build_pta :: pta_result where
  "build_pta = \<lparr>PointsTo = (\<lambda>v c. [7]), GetGlobalVarID = (\<lambda>v. []), GetPTSByObjID = (\<lambda>i. [])\<rparr>"

definition build_lock :: "int \<Rightarrow> TypeOfNode \<Rightarrow> node" where
  "build_lock i k = zero_node\<lparr>node_id := i, typId := k, lock_ptr := Some hb_value\<rparr>"

definition built :: RFGraph where
  "built = updateNodes None (build_lock 0 NLock) False (InitializeRFG build_pta)"

lemma build_registered_example:
  "wf_build built \<and> wf_build (snd (copyDeferNodes default_env [build_lock 5 NUnlock] built)) \<and>
   node_ids (updateNodes (Some 0) (build_lock 1 NUnlock) False built) = {0, 1}"
proof -
  have e: "wf_build (InitializeRFG build_pta)" "next_ID (InitializeRFG build_pta) = 0"
    "node_ids (InitializeRFG build_pta) = {}"
    by (simp_all add: wf_build_def InitializeRFG_def wf_nodes_def node_ids_def)
  have l: "node_id (build_lock i k) = i" for i k by (simp add: build_lock_def)
  from updateNodes_wf [OF e(1), of "build_lock 0 NLock"] have w: "wf_build built"
    by (simp add: built_def l e)
  have n: "node_ids built = {0}" "next_ID built = 1"
    by (simp_all add: built_def node_ids_updateNodes e) (simp add: updateNodes_def e)
  have "node_id (build_lock 1 NUnlock) = next_ID built" "node_id (build_lock 0 NLock) \<in> node_ids built"
    by (simp_all add: l n)
  from build_registered [OF w this] w n show ?thesis by (simp add: insert_commute del: copyDeferNodes.simps)
qed

text \<open>
  C35: While race detection is on, the maps of held locks implement one pair of lock
  sets per goroutine: a lock or read lock adds the objects it may point to, an unlock or read unlock
  takes them away, for the goroutine of the node only, other nodes change nothing; and the lock set
  computed for an access is the union of the two sets, in any order of the map ranges.
\<close>

theorem lockset_refines:
  assumes "proper_env E"
  shows "abs_locks (UpdateLockset n g) =
      spec_lockset n (set (ptr_pts g (lock_ptr n) (cgnode n))) (abs_locks g) \<and>
    set (computeLockset E t g) = fst (abs_locks g t) \<union> snd (abs_locks g t)"
proof
  show "set (computeLockset E t g) = fst (abs_locks g t) \<union> snd (abs_locks g t)"
    by (simp add: computeLockset_def set_held_objs [OF assms] abs_locks_def)
  show "abs_locks (UpdateLockset n g) =
      spec_lockset n (set (ptr_pts g (lock_ptr n) (cgnode n))) (abs_locks g)"
  proof (cases "lock_ptr n")
    case None
    then show ?thesis
      by (auto simp: UpdateLockset_def spec_lockset_def ptr_pts_def abs_locks_def fun_eq_iff
          split: TypeOfNode.splits)
  next
    case (Some key)
    then show ?thesis
      by (auto simp: UpdateLockset_def spec_lockset_def abs_locks_def fun_eq_iff holds_hold
          holds_unhold Let_def split: TypeOfNode.splits)
  qed
qed

theorem lockset_refines_witness:
  "set (computeLockset default_env 0 (UpdateLockset (build_lock 1 NLock) built)) = {7} \<and>
   set (computeLockset default_env 0 (UpdateLockset (build_lock 2 NUnlock)
     (UpdateLockset (build_lock 1 NLock) built))) = {}"
proof -
  have E: "proper_env default_env" by (simp add: proper_env_def default_env_def is_range_order_id)
  have pts: "ptr_pts (UpdateLockset m g) (lock_ptr (build_lock i k)) c = ptr_pts g (lock_ptr (build_lock i k)) c" for i k c m g
    by (auto simp: UpdateLockset_def ptr_pts_def getPTS_def build_lock_def Let_def
        split: TypeOfNode.splits option.splits)
  have b: "ptr_pts built (lock_ptr (build_lock i k)) c = [7]" for i k c
    by (simp add: ptr_pts_def getPTS_def build_lock_def built_def updateNodes_def Let_def
        InitializeRFG_def build_pta_def hb_value_def)
  have a: "abs_locks built 0 = ({}, {})"
    by (simp add: abs_locks_def holds_def built_def updateNodes_def InitializeRFG_def)
  have g: "gid (build_lock i k) = 0" "typId (build_lock i k) = k" for i k
    by (simp_all add: build_lock_def zero_node_def)
  show ?thesis
    using lockset_refines [OF E] a
    by (simp add: pts b spec_lockset_def g)
qed

end
