(* ===== verification/RFGBlocks.thy ===== *)
theory RFGBlocks
  imports RFGBuild
begin

text \<open>
  \<open>concurrency/rfg.go\<close>: what the construction of the graph reads of the program (\<open>program\<close>), the helper
  of the traversal of one function (\<open>creatorHelper\<close>), and the search for the blocks of a loop and of
  the cases of a select.

  A block is named by its index in the function. \<open>has_lock\<close>, \<open>has_wg\<close> and the loops whose exploration
  nothing reads are left out of the helper. The call graph and the queries of the pointer analysis
  that only the construction makes are fields of \<open>program\<close>.
\<close>

section \<open>The program\<close>

datatype value_kind =
    VUnOp | VExtract | VCall instruction | VParameter | VPhi
  | VFieldAddr ssa_value | VIndexAddr ssa_value | VOther

record cg_edge =
  edge_site :: "instruction option"
  edge_callee :: cg_node

record program =
  fn_blocks :: "cg_node \<Rightarrow> basic_block list"   \<comment> \<open>\<open>GetFunc().Blocks\<close>\<close>
  cg_out :: "cg_node \<Rightarrow> cg_edge list"          \<comment> \<open>\<open>Out\<close>\<close>
  cg_text :: "cg_node \<Rightarrow> string"               \<comment> \<open>\<open>String()\<close>\<close>
  cg_ctx :: "cg_node \<Rightarrow> string"                \<comment> \<open>\<open>GetContext()\<close> as printed by \<open>%v\<close>\<close>
  GetCalleeByID :: "int \<Rightarrow> cg_node option"
  GetPTSByPtrID :: "int \<Rightarrow> int list"
  in_scope :: "string \<Rightarrow> bool"
  val_kind :: "ssa_value \<Rightarrow> value_kind"
  Referrers :: "ssa_value \<Rightarrow> instruction list"
  val_instr :: "ssa_value \<Rightarrow> instruction option"  \<comment> \<open>the value as an instruction\<close>
  line_of :: "int \<Rightarrow> int"

definition common_of :: "instruction \<Rightarrow> call_common option" where
  "common_of i = (case inst_kind i of KCall c \<Rightarrow> Some c | KDefer c \<Rightarrow> Some c | KGo c \<Rightarrow> Some c | _ \<Rightarrow> None)"

definition GetCalleeByCommon :: "program \<Rightarrow> cg_node \<Rightarrow> call_common \<Rightarrow> cg_node list res" where
  "GetCalleeByCommon P n site_in = loopR (\<lambda>e ret. bindR (deref (edge_site e)) (\<lambda>site.
     Ok (if map_option cc_id (common_of site) = Some (cc_id site_in) then ret @ [edge_callee e] else ret)))
     (cg_out P n) []"

text \<open>The name a call is recognised by, and the site of a callee; no site is a nil \<open>*ssa.Call\<close>.\<close>

definition call_name :: "call_common \<Rightarrow> string" where
  "call_name c = (case cc_method c of None \<Rightarrow> cc_name c | Some (name, _) \<Rightarrow> name)"

definition site_of :: "instruction option \<Rightarrow> call_site" where
  "site_of inst = (case inst of None \<Rightarrow> NoSite
     | Some i \<Rightarrow> (case inst_kind i of KCall _ \<Rightarrow> CallSite (inst_str i) | KGo _ \<Rightarrow> GoSite (inst_str i)
         | _ \<Rightarrow> OtherSite (inst_str i)))"

definition has_prefix :: "string \<Rightarrow> string \<Rightarrow> bool" where
  "has_prefix s pre \<longleftrightarrow> take (length pre) s = pre"

section \<open>The helper\<close>

record creatorHelper =
  cur_cgnode :: cg_node
  skips :: "(int, bool) gomap"
  h_in_for_loop :: bool
  h_for_loop_name :: string
  h_in_roc :: bool
  h_roc_name :: string
  h_in_loop :: bool
  h_loop_name :: string
  cur_tid :: int
  h_select_node_id :: int
  gid1st :: "int list"
  defer_unlocks :: "int list"
  defer_closes :: "int list"
  defer_calls :: "call_common list"

definition new_helper :: "cg_node \<Rightarrow> int \<Rightarrow> creatorHelper" where
  "new_helper n tid = \<lparr>cur_cgnode = n, skips = [], h_in_for_loop = False, h_for_loop_name = [],
     h_in_roc = False, h_roc_name = [], h_in_loop = False, h_loop_name = [], cur_tid = tid,
     h_select_node_id = 0, gid1st = [], defer_unlocks = [], defer_closes = [], defer_calls = []\<rparr>"

section \<open>The blocks of a loop\<close>

text \<open>\<open>body.Comment[:5] == "range" && body.Comment[len-5:] == ".body"\<close>: slicing may panic.\<close>

definition is_range_body :: "string \<Rightarrow> bool res" where
  "is_range_body c = (if length c < 5 then Panic IndexOutOfRange
     else Ok (take 5 c = ''range'' \<and> drop (length c - 5) c = ''.body''))"

fun loop_succs :: "nat \<Rightarrow> basic_block list \<Rightarrow> basic_block \<Rightarrow> int list \<Rightarrow> (int, bool) gomap \<times> int list \<Rightarrow> int list res" where
  "loop_succs 0 bbs start succs s = OutOfFuel"
| "loop_succs (Suc fuel) bbs start [] (seen, ret) = Ok ret"
| "loop_succs (Suc fuel) bbs start (i # succs) (seen, ret) = bindR (slice_get bbs i) (\<lambda>succ.
     if bb_comment succ = ''recover'' \<or> bb_comment succ = ''for.done'' then
       loop_succs fuel bbs start succs (seen, ret)
     else if bb_index succ > bb_index start \<and> \<not> mget0 False seen i then
       loop_succs fuel bbs start (succs @ bb_succs succ) (mput i True seen, ret @ [i])
     else loop_succs fuel bbs start succs (seen, ret))"

text \<open>Every block is entered into the queue by its predecessors at most once each.\<close>

definition succ_bound :: "basic_block list \<Rightarrow> nat" where
  "succ_bound bbs = Suc (sum_list (map (length \<circ> bb_succs) bbs))"

definition getLoopBBs :: "basic_block list \<Rightarrow> basic_block \<Rightarrow> creatorHelper \<Rightarrow> int list res" where
  "getLoopBBs bbs start h =
     bindR (slice_get (bb_succs start) 0) (\<lambda>i. bindR (slice_get bbs i) (\<lambda>body.
     bindR (if bb_comment start \<noteq> ''for.body'' then
              bindR (is_range_body (bb_comment body)) (\<lambda>r. if r then Ok i else slice_get (bb_succs start) 1)
            else Ok i) (\<lambda>i. bindR (slice_get bbs i) (\<lambda>body.
       loop_succs (succ_bound bbs + length (bb_succs body)) bbs start (bb_succs body)
         (mput i True (skips h),
          (if bb_comment start = ''for.body'' then [bb_index start] else []) @ [i])))))"

section \<open>The blocks of the cases of a select\<close>

definition select_next :: "string \<Rightarrow> bool" where
  "select_next c \<longleftrightarrow> c = ''select.next'' \<or> c = ''select.done''"

definition last_kind :: "basic_block \<Rightarrow> instr_kind res" where
  "last_kind s = bindR (slice_get (bb_instrs s) (int (length (bb_instrs s)) - 1)) (\<lambda>i. Ok (inst_kind i))"

text \<open>
  What the last \<open>select.next\<close> block of the chain is: a panic block, a block that tests for the next
  case, or the default case.
\<close>

datatype chain_block = BlockingPanic | NextTest | DefaultCase | PlainBlock

definition chain_kind :: "bool \<Rightarrow> basic_block \<Rightarrow> chain_block res" where
  "chain_kind is_blocking s =
     (if select_next (bb_comment s) then bindR (last_kind s) (\<lambda>k.
        Ok (if k = KPanic \<and> length (bb_instrs s) = 2 then BlockingPanic
            else if k = KIf \<and> length (bb_instrs s) = 2 then NextTest
            else if \<not> is_blocking then DefaultCase else PlainBlock))
      else Ok PlainBlock)"

text \<open>The body of the case that block \<open>s\<close> tests for, and the next block of the chain.\<close>

definition case_body :: "basic_block list \<Rightarrow> basic_block \<Rightarrow> (int option list \<times> int list) res" where
  "case_body bbs s = (case bb_succs s of [] \<Rightarrow> Ok ([], [])
     | i # rest \<Rightarrow> bindR (slice_get bbs i) (\<lambda>body.
         let b = (if bb_comment body = ''select.body'' then Some i else None) in
         (case rest of [] \<Rightarrow> Ok ([b], [])
          | j # _ \<Rightarrow> bindR (slice_get bbs j) (\<lambda>next.
              Ok ([b], if select_next (bb_comment next) then [j] else [])))))"

fun case_chain ::
  "nat \<Rightarrow> basic_block list \<Rightarrow> int \<Rightarrow> bool \<Rightarrow> int list \<Rightarrow> (int, bool) gomap \<times> int option list \<Rightarrow>
     ((int, bool) gomap \<times> int option list) res" where
  "case_chain 0 bbs sel is_blocking stack s = OutOfFuel"
| "case_chain (Suc fuel) bbs sel is_blocking [] s = Ok s"
| "case_chain (Suc fuel) bbs sel is_blocking (i # stack) (seen, bodies) = bindR (slice_get bbs i) (\<lambda>s.
     let seen = mput i True seen in
     bindR (chain_kind is_blocking s) (\<lambda>k.
       if k = BlockingPanic then case_chain fuel bbs sel is_blocking stack (seen, bodies)
       else let bodies = (if k = DefaultCase then bodies @ [Some i] else bodies) in
         if k = DefaultCase \<and> sel \<noteq> i then case_chain fuel bbs sel is_blocking stack (seen, bodies)
         else bindR (case_body bbs s) (\<lambda>(b, next).
           case_chain fuel bbs sel is_blocking (stack @ next) (seen, bodies @ b))))"

fun case_succs ::
  "nat \<Rightarrow> basic_block list \<Rightarrow> basic_block \<Rightarrow> int list \<Rightarrow> (int, bool) gomap \<times> int list \<Rightarrow>
     ((int, bool) gomap \<times> int list) res" where
  "case_succs 0 bbs sel succs s = OutOfFuel"
| "case_succs (Suc fuel) bbs sel [] s = Ok s"
| "case_succs (Suc fuel) bbs sel (i # succs) (seen, tmp) = bindR (slice_get bbs i) (\<lambda>succ.
     if bb_index succ > bb_index sel \<and> \<not> mget0 False seen i then
       case_succs fuel bbs sel (if bb_comment succ = ''select.done'' then succs else succs @ bb_succs succ)
         (mput i True seen, tmp @ [i])
     else case_succs fuel bbs sel succs (seen, tmp))"

fun collect_cases ::
  "basic_block list \<Rightarrow> basic_block \<Rightarrow> int option list \<Rightarrow> (int, bool) gomap \<Rightarrow> int list option list res" where
  "collect_cases bbs sel [] seen = Ok []"
| "collect_cases bbs sel (None # bodies) seen =
     bindR (collect_cases bbs sel bodies seen) (\<lambda>cs. Ok (None # cs))"
| "collect_cases bbs sel (Some i # bodies) seen = bindR (slice_get bbs i) (\<lambda>body.
     if bb_comment body = ''select.next'' then
       bindR (collect_cases bbs sel bodies seen) (\<lambda>cs. Ok (Some [i] # cs))
     else bindR (case_succs (succ_bound bbs + length (bb_succs body)) bbs sel (bb_succs body) (seen, [i]))
       (\<lambda>(seen, tmp). bindR (collect_cases bbs sel bodies seen) (\<lambda>cs. Ok (Some tmp # cs))))"

text \<open>\<open>case_bodies\<close>, whose keys are 0, 1, \<dots>: a list, with \<open>None\<close> for the nil slice.\<close>

definition getCaseBBs :: "basic_block list \<Rightarrow> basic_block \<Rightarrow> creatorHelper \<Rightarrow> bool \<Rightarrow> int list option list res" where
  "getCaseBBs bbs sel h is_blocking =
     bindR (case_chain (Suc (length bbs)) bbs (bb_index sel) is_blocking [bb_index sel] (skips h, []))
       (\<lambda>(seen, bodies). collect_cases bbs sel bodies seen)"

end
