(* ===== verification/RFGAccess.thy ===== *)
theory RFGAccess
  imports RFGBlocks RaceDetect
begin

text \<open>
  \<open>concurrency/rfg.go\<close>: the state of the construction of the graph, and \<open>VisitRWNode\<close>, which records
  the reads and writes of an instruction while race detection is on.

  A \<open>builder\<close> is the graph with the package variable \<open>ID_RW\<close> and the map \<open>inst2rwnode\<close>, whose keys are
  the identities of instructions. Nodes are mutated through their pointers: \<open>modify_node\<close>. An
  \<open>RWNode\<close> is shared by \<open>inst2rwnode\<close>, the list of its node and the records of \<open>rfgplus\<close>, so turning
  it into a write (\<open>set_write\<close>) changes all of these.
\<close>

section \<open>The state\<close>

record builder =
  bg :: RFGraph
  next_RW :: int
  inst2rwnode :: "(nat, RWNode) gomap"

text \<open>The variables of one run of \<open>DFSBB\<close>: \<open>prev_node\<close>, \<open>cur_node\<close>, the helper and the graph.\<close>

record walk =
  prev_node :: int
  cur_node :: int
  helper :: creatorHelper
  build :: builder

abbreviation graph :: "walk \<Rightarrow> RFGraph" where
  "graph w \<equiv> bg (build w)"

abbreviation here :: "walk \<Rightarrow> cg_node" where
  "here w \<equiv> cur_cgnode (helper w)"

definition on_graph :: "(RFGraph \<Rightarrow> RFGraph) \<Rightarrow> walk \<Rightarrow> walk" where
  "on_graph f w = w\<lparr>build := (build w)\<lparr>bg := f (graph w)\<rparr>\<rparr>"

definition on_helper :: "(creatorHelper \<Rightarrow> creatorHelper) \<Rightarrow> walk \<Rightarrow> walk" where
  "on_helper f w = w\<lparr>helper := f (helper w)\<rparr>"

text \<open>The fields that every node created by \<open>DFSBB\<close> and \<open>DFS\<close> starts with.\<close>

definition new_node :: "RFGraph \<Rightarrow> creatorHelper \<Rightarrow> int \<Rightarrow> TypeOfNode \<Rightarrow> node" where
  "new_node g h parent typ' = zero_node\<lparr>node_id := next_ID g, typId := typ', cgnode := cur_cgnode h,
     parent_id := parent, gid := cur_tid h\<rparr>"

definition fresh :: "walk \<Rightarrow> int \<Rightarrow> TypeOfNode \<Rightarrow> node" where
  "fresh w parent typ' = new_node (graph w) (helper w) parent typ'"

definition modify_node :: "int \<Rightarrow> (node \<Rightarrow> node) \<Rightarrow> RFGraph \<Rightarrow> RFGraph" where
  "modify_node i f g = (case mget (id2node g) i of None \<Rightarrow> g
     | Some n \<Rightarrow> g\<lparr>id2node := mput i (f n) (id2node g)\<rparr>)"

section \<open>Turning a read into a write\<close>

definition retag :: "int \<Rightarrow> RWNode \<Rightarrow> RWNode" where
  "retag i r = (if rw_id r = i then r\<lparr>rw_write := True\<rparr> else r)"

definition retag_all :: "int \<Rightarrow> ('k, (int, RWNode) gomap) gomap \<Rightarrow> ('k, (int, RWNode) gomap) gomap" where
  "retag_all i = map (\<lambda>(k, m). (k, map (\<lambda>(j, r). (j, retag i r)) m))"

definition retag_records :: "int \<Rightarrow> RFGPlusGraph \<Rightarrow> RFGPlusGraph" where
  "retag_records i p = p\<lparr>pts2WriteNode := retag_all i (pts2WriteNode p),
     pts2ReadNode := retag_all i (pts2ReadNode p), obj2WriteNode := retag_all i (obj2WriteNode p),
     obj2ReadNode := retag_all i (obj2ReadNode p)\<rparr>"

definition set_write :: "int \<Rightarrow> builder \<Rightarrow> builder" where
  "set_write i b = b\<lparr>inst2rwnode := map (\<lambda>(k, r). (k, retag i r)) (inst2rwnode b),
     bg := (bg b)\<lparr>id2node := map (\<lambda>(k, n). (k, n\<lparr>rws := map (retag i) (rws n)\<rparr>)) (id2node (bg b)),
                  rfgplus := retag_records i (rfgplus (bg b))\<rparr>\<rparr>"

text \<open>The loop over the referrers of an address.\<close>

definition write_referrer :: "env \<Rightarrow> instruction \<Rightarrow> builder \<Rightarrow> builder" where
  "write_referrer E inst b = (case mget (inst2rwnode b) (inst_id inst) of None \<Rightarrow> b
     | Some rwnode \<Rightarrow>
         let b = set_write (rw_id rwnode) b
         in b\<lparr>bg := (bg b)\<lparr>rfgplus := ChangeRead2Write E (retag (rw_id rwnode) rwnode) (rfgplus (bg b))\<rparr>\<rparr>)"

text \<open>
  The recursion follows a chain of address operands; the SSA form defines operands first, so the chain
  ends, and the budget bounds its length.
\<close>

fun recursiveFindFieldAddr :: "nat \<Rightarrow> program \<Rightarrow> env \<Rightarrow> ssa_value \<Rightarrow> builder \<Rightarrow> builder res" where
  "recursiveFindFieldAddr 0 P E v b = OutOfFuel"
| "recursiveFindFieldAddr (Suc fuel) P E v b = (case val_kind P v of
     VFieldAddr f \<Rightarrow> (case val_kind P f of
       VFieldAddr _ \<Rightarrow> recursiveFindFieldAddr fuel P E f (fold (write_referrer E) (Referrers P f) b)
     | _ \<Rightarrow> Ok b)
   | _ \<Rightarrow> Ok b)"

section \<open>Accesses\<close>

definition atomic_writes :: "string list" where
  "atomic_writes = [''delete'', ''AddUint32'', ''AddUint64'', ''AddInt32'', ''AddInt64'']"

text \<open>What an instruction accesses: whether it writes, the pointer, and the field.\<close>

definition rw_access :: "instruction \<Rightarrow> (bool \<times> ssa_value \<times> int) option res" where
  "rw_access inst = (case inst_kind inst of
       KStore addr \<Rightarrow> Ok (Some (True, addr, 0))
     | KUnOp MUL x \<Rightarrow> Ok (Some (False, x, 0))
     | KUnOp XOR x \<Rightarrow> Ok (Some (True, x, 0))
     | KUnOp SUB x \<Rightarrow> Ok (Some (True, x, 0))
     | KUnOp NOT x \<Rightarrow> Ok (Some (True, x, 0))
     | KMapUpdate m \<Rightarrow> Ok (Some (True, m, 0))
     | KSlice x \<Rightarrow> Ok (Some (True, x, 0))
     | KCall c \<Rightarrow> if call_name c \<in> set atomic_writes
         then bindR (slice_get (cc_args c) 0) (\<lambda>a. Ok (Some (True, a, 0)))
         else Ok (Some (False, inst_val inst, 0))
     | KField x f \<Rightarrow> Ok (Some (False, x, f))
     | KFieldAddr x f \<Rightarrow> Ok (Some (False, x, f))
     | KLookup x \<Rightarrow> Ok (Some (False, x, 0))
     | KIndex x \<Rightarrow> Ok (Some (False, x, 0))
     | KIndexAddr x \<Rightarrow> Ok (Some (False, x, 0))
     | _ \<Rightarrow> Ok None)"

text \<open>Which accesses also turn the accesses through enclosing addresses into writes.\<close>

definition marks_enclosing :: "instruction \<Rightarrow> bool" where
  "marks_enclosing inst = (case inst_kind inst of
       KCall c \<Rightarrow> call_name c \<in> set atomic_writes
     | KFieldAddr _ _ \<Rightarrow> True
     | _ \<Rightarrow> False)"

definition new_access ::
  "env \<Rightarrow> builder \<Rightarrow> creatorHelper \<Rightarrow> instruction \<Rightarrow> bool \<times> ssa_value \<times> int \<Rightarrow> RWNode" where
  "new_access E b h inst = (\<lambda>(write, ptr, field).
     \<lparr>rw_n = 0, rw_id = next_RW b, rw_write = write, rw_inst = inst,
      rw_lockset = computeLockset E (cur_tid h) (bg b), rw_pts = getPTS (bg b) ptr (cur_cgnode h),
      rw_field = field\<rparr>)"

text \<open>The access joins the node before it if that has accesses already, and gets a new node otherwise.\<close>

definition add_access ::
  "int \<Rightarrow> int \<Rightarrow> creatorHelper \<Rightarrow> instruction \<Rightarrow> RWNode \<Rightarrow> builder \<Rightarrow> (int option \<times> builder) res" where
  "add_access prev parent h inst rwn b = bindR (node_at (bg b) prev) (\<lambda>p.
     let (cur, g) = (if rws p = [] then
            let c = new_node (bg b) h parent NRW in (node_id c, updateNodes (Some prev) c False (bg b))
          else (prev, bg b));
         rwn = rwn\<lparr>rw_n := cur\<rparr>;
         g = modify_node cur (\<lambda>n. n\<lparr>rws := rws n @ [rwn]\<rparr>) g;
         g = g\<lparr>rfgplus := UpdateRecords (rw_pts rwn) rwn (rfgplus g)\<rparr>
     in Ok (Some cur, b\<lparr>bg := g, inst2rwnode := mput (inst_id inst) rwn (inst2rwnode b),
                        next_RW := next_RW b + 1\<rparr>))"

definition visit_access ::
  "nat \<Rightarrow> program \<Rightarrow> env \<Rightarrow> instruction \<Rightarrow> int \<Rightarrow> int \<Rightarrow> creatorHelper \<Rightarrow> builder \<Rightarrow>
     (int option \<times> builder) res" where
  "visit_access fuel P E inst prev parent h b = bindR (rw_access inst) (\<lambda>a. case a of
       None \<Rightarrow> Ok (None, b)
     | Some (write, ptr, field) \<Rightarrow>
         let rwn = new_access E b h inst (write, ptr, field) in
         bindR (if marks_enclosing inst then recursiveFindFieldAddr fuel P E ptr b else Ok b)
           (add_access prev parent h inst rwn))"

text \<open>A return visits the results that are instructions, and gives no node itself.\<close>

definition VisitRWNode ::
  "nat \<Rightarrow> program \<Rightarrow> env \<Rightarrow> instruction \<Rightarrow> int \<Rightarrow> int \<Rightarrow> creatorHelper \<Rightarrow> builder \<Rightarrow>
     (int option \<times> builder) res" where
  "VisitRWNode fuel P E inst prev parent h b = (case inst_kind inst of
       KReturn results \<Rightarrow>
         bindR (loopR (\<lambda>ret b. case val_instr P ret of None \<Rightarrow> Ok b
             | Some rinst \<Rightarrow> bindR (visit_access fuel P E rinst prev parent h b) (\<lambda>(_, b). Ok b)) results b)
           (\<lambda>b. Ok (None, b))
     | _ \<Rightarrow> visit_access fuel P E inst prev parent h b)"

end
