(* ===== verification/RFGConstruct.thy ===== *)
theory RFGConstruct
  imports RFGAccess CFChecker
begin

text \<open>
  \<open>concurrency/rfg.go\<close>: the walk over the SSA instructions that creates the graph. \<open>DFSBB\<close> walks a basic
  block and \<open>DFS\<close> a function; they call each other through the operations on one instruction, which
  take the two as arguments (\<open>dfs_fn\<close>, \<open>bb_fn\<close>). One unit of fuel is one nesting level; theory
  \<open>ConstructProps\<close> says how much is enough. Debug output is left out.
\<close>

text \<open>The arguments of \<open>DFS\<close>: callee, parent, creation site, \<open>isThread\<close>; of \<open>DFSBB\<close>: block, parent, \<open>prev_node\<close>.\<close>

type_synonym dfs_fn = "cg_node \<Rightarrow> int option \<Rightarrow> instruction option \<Rightarrow> bool \<Rightarrow> builder \<Rightarrow>
  (int \<times> int \<times> builder) res"
type_synonym bb_fn = "int \<Rightarrow> int \<Rightarrow> int \<Rightarrow> creatorHelper \<times> builder \<Rightarrow>
  (int \<times> creatorHelper \<times> builder) res"

definition callee_sig :: "program \<Rightarrow> cg_node \<Rightarrow> string \<times> string" where
  "callee_sig P c = (cg_func c, cg_ctx P c)"

definition visits :: "program \<Rightarrow> call_site \<Rightarrow> cg_node option \<Rightarrow> walk \<Rightarrow> bool res" where
  "visits P site callee w =
     doVisit (in_scope P) (graph w) site (map_option (callee_sig P) callee) (Some (cur_tid (helper w)))"

text \<open>A visit of a callee from the block: \<open>_, node = g.DFS(callee, prev, inst, isThread)\<close>.\<close>

definition call_DFS :: "dfs_fn \<Rightarrow> cg_node \<Rightarrow> int \<Rightarrow> instruction option \<Rightarrow> bool \<Rightarrow> walk \<Rightarrow>
    (int \<times> int \<times> walk) res" where
  "call_DFS dfs callee prev inst thread w =
     bindR (dfs callee (Some prev) inst thread (build w)) (\<lambda>(p, l, b). Ok (p, l, w\<lparr>build := b\<rparr>))"

section \<open>Contexts\<close>

definition cancel_round :: "int \<Rightarrow> instruction \<Rightarrow> int \<Rightarrow> int \<times> walk \<Rightarrow> int \<times> walk" where
  "cancel_round parent inst obj = (\<lambda>(prev, w). case mget (contexts (graph w)) (obj - 3) of None \<Rightarrow> (prev, w)
     | Some p \<Rightarrow>
         let n = (fresh w parent NCancel)\<lparr>ctx_name := pair_loc p, cancel_inst := Some inst,
               ctx_p := Some p, is_cancel := True\<rparr>;
             w = on_graph (\<lambda>g. UpdateResourcesInner (obj - 3) n (updateNodes (Some prev) n False g)) w
         in (node_id n, w\<lparr>cur_node := node_id n\<rparr>))"

definition checkCtxCancel :: "int \<Rightarrow> instruction \<Rightarrow> call_common \<Rightarrow> int \<Rightarrow> walk \<Rightarrow> walk res" where
  "checkCtxCancel parent inst call prev w =
     (if val_type (cc_value call) = ''context.CancelFunc'' then
        let cancel_pts = getPTS (graph w) (cc_value call) (here w) in
        if cancel_pts = [] then Panic (ExplicitPanic ''Empty pts for context.cancel(). Check.'')
        else Ok (snd (fold (cancel_round parent inst) cancel_pts (prev, w)))
      else Ok w)"

definition done_method :: string where
  "done_method = ''func (context.Context).Done() <-chan struct{}''"

definition isCtxDone :: "instruction \<Rightarrow> call_common option" where
  "isCtxDone inst = (case inst_kind inst of
     KCall c \<Rightarrow> if map_option snd (cc_method c) = Some done_method then Some c else None | _ \<Rightarrow> None)"

definition done_round :: "int \<Rightarrow> instruction \<Rightarrow> int \<Rightarrow> walk \<Rightarrow> walk" where
  "done_round parent call obj w = (case mget (contexts (graph w)) obj of None \<Rightarrow> w
     | Some p \<Rightarrow>
         let d = (fresh w parent NCtxDone)\<lparr>ctx_name := pair_loc p, done_inst := Some call, ctx_p := Some p\<rparr>
         in on_graph (\<lambda>g. UpdateResourcesInner obj d (updateNodes (Some (prev_node w)) d False g)) w)"

definition checkCtxDone :: "int \<Rightarrow> basic_block \<Rightarrow> int \<Rightarrow> walk \<Rightarrow> (bool \<times> walk) res" where
  "checkCtxDone parent bb j w =
     (if j < 1 then Ok (False, w)
      else bindR (slice_get (bb_instrs bb) (j - 1)) (\<lambda>call. case isCtxDone call of None \<Rightarrow> Ok (False, w)
        | Some c \<Rightarrow> Ok (True,
            fold (done_round parent call) (getPTS (graph w) (cc_value c) (here w)) w)))"

section \<open>Calls\<close>

text \<open>\<open>traverseCallee\<close>; a deferred call passes no instruction.\<close>

definition visit_callee ::
  "dfs_fn \<Rightarrow> program \<Rightarrow> int \<Rightarrow> instruction option \<Rightarrow> call_common \<Rightarrow> cg_node \<Rightarrow> walk \<Rightarrow> walk res" where
  "visit_callee dfs P parent inst site callee w =
     bindR (visits P (site_of inst) (Some callee) w) (\<lambda>go_on.
       if \<not> go_on then Ok w
       else let visit = bindR (call_DFS dfs callee (prev_node w) inst False w) (\<lambda>(_, l, w).
                  Ok (w\<lparr>prev_node := l, cur_node := l\<rparr>)) in
         (case inst of None \<Rightarrow> visit
          | Some i \<Rightarrow> if cg_func callee = ''context.WithCancel$1''
              then checkCtxCancel parent i site (prev_node w) w else visit))"

definition traverseCallee ::
  "dfs_fn \<Rightarrow> program \<Rightarrow> int \<Rightarrow> instruction option \<Rightarrow> call_common \<Rightarrow> walk \<Rightarrow> walk res" where
  "traverseCallee dfs P parent inst site w =
     bindR (GetCalleeByCommon P (here w) site) (\<lambda>callees. loopR (visit_callee dfs P parent inst site) callees w)"

text \<open>The functions an argument points to: \<open>Once.Do\<close>, \<open>time.AfterFunc\<close> and \<open>Map.Range\<close>.\<close>

definition call_closures ::
  "dfs_fn \<Rightarrow> program \<Rightarrow> instruction \<Rightarrow> call_common \<Rightarrow> bool \<Rightarrow> walk \<Rightarrow> walk res" where
  "call_closures dfs P inst call thread w = bindR (slice_get (cc_args call) 1) (\<lambda>ptr.
     loopR (\<lambda>obj w. bindR (visits P (site_of (Some inst)) (GetCalleeByID P obj) w) (\<lambda>go_on.
         if \<not> go_on then Ok w
         else bindR (deref (GetCalleeByID P obj)) (\<lambda>callee.
              bindR (call_DFS dfs callee (cur_node w) (Some inst) thread w) (\<lambda>(_, l, w).
                Ok (w\<lparr>cur_node := l\<rparr>)))))
       (getPTS (graph w) ptr (here w)) w)"

section \<open>Goroutines\<close>

text \<open>When \<open>defer wg.Done()\<close>: the exit of the goroutine informs the waiters.\<close>

definition updateWGExit :: "int \<Rightarrow> node \<Rightarrow> RFGraph \<Rightarrow> RFGraph" where
  "updateWGExit tid ex g =
     (if mhas (tid2end g) tid then g
      else case mget (tid2wg_pts g) tid of None \<Rightarrow> g
        | Some pts \<Rightarrow> modify_node (node_id ex) (\<lambda>n. n\<lparr>wg_pts := pts, gid := tid, isWGDone := True\<rparr>)
            (fold (\<lambda>obj. UpdateResourcesInner obj ex) pts g))"

text \<open>The loop over the callees of a \<open>go\<close> statement, with \<open>first\<close> for \<open>i == 0\<close>.\<close>

primrec go_callees ::
  "dfs_fn \<Rightarrow> program \<Rightarrow> env \<Rightarrow> int \<Rightarrow> instruction \<Rightarrow> call_common \<Rightarrow> bool \<Rightarrow> bool \<Rightarrow> cg_node list \<Rightarrow>
     walk \<Rightarrow> walk res" where
  "go_callees dfs P E parent inst call in_loop is_first [] w = Ok w"
| "go_callees dfs P E parent inst call in_loop is_first (callee # callees) w =
     bindR (visits P (site_of (Some inst)) (Some callee) w) (\<lambda>go_on.
       if \<not> go_on then Ok w
       else bindR (call_DFS dfs callee (prev_node w) (Some inst) True w) (\<lambda>(g_parent, last_id, w).
         bindR (checkCtxCancel parent inst call last_id w) (\<lambda>w.
         bindR (node_at (graph w) last_id) (\<lambda>last_node.
         bindR (node_at (graph w) g_parent) (\<lambda>g_parent_node.
           let ex = (fresh w parent NExit)\<lparr>gid := gid last_node\<rparr>;
               w = on_graph (updateNodes (Some last_id) ex False) w;
               w = on_graph (updateWGExit (gid g_parent_node) ex) w;
               w = (if in_loop \<and> DoRace E \<and> is_first
                    then on_helper (\<lambda>h. h\<lparr>gid1st := gid1st h @ [gid last_node]\<rparr>) w else w)
           in go_callees dfs P E parent inst call in_loop False callees w)))))"

definition step_Go ::
  "dfs_fn \<Rightarrow> program \<Rightarrow> env \<Rightarrow> int \<Rightarrow> instruction \<Rightarrow> call_common \<Rightarrow> walk \<Rightarrow> walk res" where
  "step_Go dfs P E parent inst call w = bindR (GetCalleeByCommon P (here w) call) (\<lambda>callees.
     let h = helper w; in_loop = h_in_for_loop h \<or> h_in_loop h \<or> h_in_roc h
     in go_callees dfs P E parent inst call in_loop True callees w)"

section \<open>Synchronisation nodes\<close>

text \<open>Register a node after \<open>prev_node\<close> and as user of what \<open>ptr\<close> points to.\<close>

definition append_user :: "env \<Rightarrow> ssa_value \<Rightarrow> node \<Rightarrow> bool \<Rightarrow> walk \<Rightarrow> walk" where
  "append_user E ptr n skip w = on_graph (\<lambda>g. UpdateResources E (Some ptr) (here w) n
     (updateNodes (Some (prev_node w)) n skip g)) w"

definition advance :: "node \<Rightarrow> walk \<Rightarrow> walk" where
  "advance n w = w\<lparr>prev_node := node_id n, cur_node := node_id n\<rparr>"

definition append_sync_node :: "env \<Rightarrow> ssa_value \<Rightarrow> node \<Rightarrow> walk \<Rightarrow> walk" where
  "append_sync_node E ptr n w = advance n (append_user E ptr n False w)"

text \<open>The pointer and type of a lock: an abstract invoke has no receiver among its arguments.\<close>

definition lock_operand :: "call_common \<Rightarrow> TypeOfNode \<Rightarrow> TypeOfNode \<Rightarrow> ssa_value \<times> TypeOfNode" where
  "lock_operand call typ' abstract = (case cc_args call of [a] \<Rightarrow> (a, typ') | _ \<Rightarrow> (cc_value call, abstract))"

definition createLockNode ::
  "env \<Rightarrow> int \<Rightarrow> call_common \<Rightarrow> instruction \<Rightarrow> TypeOfNode \<Rightarrow> walk \<Rightarrow> walk" where
  "createLockNode E parent call inst typ' w = (case lock_operand call typ' NRLock of (ptr, t) \<Rightarrow>
     let n = (fresh w parent t)\<lparr>lock_inst := Some inst, lock_ptr := Some ptr\<rparr>
     in (append_user E ptr n False w)\<lparr>prev_node := node_id n\<rparr>)"

definition createUnlockNode ::
  "env \<Rightarrow> int \<Rightarrow> call_common \<Rightarrow> instruction \<Rightarrow> TypeOfNode \<Rightarrow> bool \<Rightarrow> walk \<Rightarrow> int \<times> walk" where
  "createUnlockNode E parent call inst typ' skip w = (case lock_operand call typ' NRUnlock of (ptr, t) \<Rightarrow>
     let n = (fresh w parent t)\<lparr>unlock_inst := Some inst, lock_ptr := Some ptr, from_defer := skip\<rparr>
     in (node_id n, append_user E ptr n skip w))"

definition getChannelPtrForValue :: "ssa_value \<Rightarrow> ssa_value" where
  "getChannelPtrForValue val = val"

definition getChannelPtrForInst :: "program \<Rightarrow> ssa_value \<Rightarrow> ssa_value \<Rightarrow> ssa_value" where
  "getChannelPtrForInst P chan x =
     (if val_kind P chan = VExtract then x else getChannelPtrForValue chan)"

text \<open>\<open>createChannelClose\<close> and the \<open>updateNodes\<close> after it: the resources come first.\<close>

definition createChannelClose ::
  "env \<Rightarrow> int \<Rightarrow> call_common \<Rightarrow> instruction \<Rightarrow> bool \<Rightarrow> walk \<Rightarrow> (node \<times> walk) res" where
  "createChannelClose E parent call inst skip w = bindR (slice_get (cc_args call) 0) (\<lambda>a.
     let ch = getChannelPtrForValue a;
         c = (fresh w parent NClose)\<lparr>ch_name := val_str ch, ch_close_inst := Some inst, ch_ptr := Some ch\<rparr>
     in Ok (c, on_graph (\<lambda>g. updateNodes (Some (prev_node w)) c skip
                 (UpdateResources E (Some ch) (here w) c g)) w))"

definition updateWGDone :: "int \<Rightarrow> call_common \<Rightarrow> instruction \<Rightarrow> walk \<Rightarrow> walk res" where
  "updateWGDone parent call inst w = bindR (slice_get (cc_args call) 0) (\<lambda>ptr.
     let pts = getPTS (graph w) ptr (here w); tid = cur_tid (helper w);
         n = (fresh w parent NWGDone)\<lparr>wg_done_inst := Some inst, wg_pts := pts\<rparr>
     in Ok (advance n (on_graph (\<lambda>g.
          let g = g\<lparr>tid2wg_pts := mput tid pts (tid2wg_pts g)\<rparr>;
              g = updateNodes (Some (prev_node w)) n False g;
              g = g\<lparr>tid2end := mput tid (node_id n) (tid2end g)\<rparr>
          in fold (\<lambda>obj. UpdateResourcesInner obj n) pts g) w)))"

end
