(* ===== verification/RFGWalk.thy ===== *)
theory RFGWalk
  imports RFGConstruct
begin

text \<open>
  \<open>concurrency/rfg.go\<close>: the cases of the switch of \<open>DFSBB\<close> over the kinds of instructions, \<open>DFSBB\<close>,
  \<open>DFS\<close> and \<open>CreateGraph\<close>.
\<close>

section \<open>Deferred operations\<close>

definition nodes_of :: "RFGraph \<Rightarrow> int list \<Rightarrow> node list res" where
  "nodes_of g ids = loopR (\<lambda>i ns. bindR (node_at g i) (\<lambda>n. Ok (ns @ [n]))) ids []"

definition link_copy :: "node \<Rightarrow> walk \<Rightarrow> walk" where
  "link_copy c w = (if prev_node w = node_id c then w
     else (on_graph (\<lambda>g. g\<lparr>adjList := mput (Some (prev_node w))
             (mget0 [] (adjList g) (Some (prev_node w)) @ [node_id c]) (adjList g)\<rparr>) w)\<lparr>prev_node := node_id c\<rparr>)"

definition run_copies :: "env \<Rightarrow> int list \<Rightarrow> walk \<Rightarrow> walk res" where
  "run_copies E ids w = bindR (nodes_of (graph w) ids) (\<lambda>ds.
     case copyDeferNodes E ds (graph w) of (copies, g) \<Rightarrow>
       Ok (fold link_copy (rev copies) (on_graph (\<lambda>_. g) w)))"

definition step_RunDefers :: "dfs_fn \<Rightarrow> program \<Rightarrow> env \<Rightarrow> int \<Rightarrow> walk \<Rightarrow> walk res" where
  "step_RunDefers dfs P E parent w =
     bindR (run_copies E (defer_closes (helper w)) w) (\<lambda>w.
     bindR (run_copies E (defer_unlocks (helper w)) w) (\<lambda>w.
       loopR (traverseCallee dfs P parent None) (rev (defer_calls (helper w))) w))"

definition push_call :: "call_common \<Rightarrow> walk \<Rightarrow> walk" where
  "push_call call = on_helper (\<lambda>h. h\<lparr>defer_calls := defer_calls h @ [call]\<rparr>)"

definition push_unlock :: "int \<times> walk \<Rightarrow> walk" where
  "push_unlock = (\<lambda>(i, w). on_helper (\<lambda>h. h\<lparr>defer_unlocks := defer_unlocks h @ [i]\<rparr>) w)"

definition step_Defer :: "env \<Rightarrow> int \<Rightarrow> instruction \<Rightarrow> call_common \<Rightarrow> walk \<Rightarrow> walk res" where
  "step_Defer E parent inst call w = (let name = call_name call in
     if name = ''Unlock'' then Ok (push_unlock (createUnlockNode E parent call inst NUnlock True w))
     else if name = ''RUnlock'' then Ok (push_unlock (createUnlockNode E parent call inst NRUnlock True w))
     else if name = ''close'' \<and> val_str (cc_value call) = ''builtin close'' then
       bindR (createChannelClose E parent call inst True w) (\<lambda>(c, w).
         Ok (on_helper (\<lambda>h. h\<lparr>defer_closes := defer_closes h @ [node_id c]\<rparr>) w))
     else if name = ''Done'' \<and> has_prefix (cc_str call) ''(*sync.WaitGroup).Done'' then
       bindR (slice_get (cc_args call) 0) (\<lambda>ptr.
         let pts = getPTS (graph w) ptr (here w)
         in Ok (on_graph (\<lambda>g. g\<lparr>tid2wg_pts := mput (cur_tid (helper w)) pts (tid2wg_pts g)\<rparr>) w))
     else Ok (push_call call w))"

section \<open>Accesses\<close>

definition step_rw :: "nat \<Rightarrow> program \<Rightarrow> env \<Rightarrow> int \<Rightarrow> instruction \<Rightarrow> walk \<Rightarrow> walk res" where
  "step_rw fuel P E parent inst w =
     (if DoRace E then
        bindR (VisitRWNode fuel P E inst (prev_node w) parent (helper w) (build w)) (\<lambda>(r, b).
          let w = w\<lparr>build := b\<rparr> in
          Ok (case r of None \<Rightarrow> w | Some i \<Rightarrow> w\<lparr>prev_node := i, cur_node := i\<rparr>))
      else Ok w)"

section \<open>Calls\<close>

text \<open>\<open>t2 = RLocker(t1)\<close>: the locker is an alias of the lock.\<close>

definition alias_locker :: "instruction \<Rightarrow> call_common \<Rightarrow> walk \<Rightarrow> walk res" where
  "alias_locker inst call w = bindR (slice_get (cc_args call) 0) (\<lambda>base_ptr.
     let base_pts = getPTS (graph w) base_ptr (here w);
         locker_pts = getPTS (graph w) (inst_val inst) (here w)
     in Ok (on_graph (fold (\<lambda>base. fold (\<lambda>locker g. g\<lparr>rfg_alias := mput locker base (rfg_alias g)\<rparr>)
          locker_pts) base_pts) w))"

definition new_context :: "basic_block \<Rightarrow> instruction \<Rightarrow> walk \<Rightarrow> walk" where
  "new_context bb inst w =
     (let loc = ''bb'' @ itoa (bb_index bb) @ ''@'' @ cg_func (here w)
      in on_graph (fold (\<lambda>obj g. g\<lparr>contexts := mput obj \<lparr>pair_loc = loc, base_obj = obj\<rparr> (contexts g)\<rparr>)
           (getPTS (graph w) (inst_val inst) (here w))) w)"

text \<open>The nodes of calls into package \<open>sync\<close> whose first argument is the object.\<close>

definition sync_call ::
  "env \<Rightarrow> call_common \<Rightarrow> (ssa_value \<Rightarrow> node) \<Rightarrow> walk \<Rightarrow> walk res" where
  "sync_call E call mk w = bindR (slice_get (cc_args call) 0) (\<lambda>ptr. Ok (append_sync_node E ptr (mk ptr) w))"

definition step_Call ::
  "dfs_fn \<Rightarrow> nat \<Rightarrow> program \<Rightarrow> env \<Rightarrow> int \<Rightarrow> basic_block \<Rightarrow> instruction \<Rightarrow> call_common \<Rightarrow> walk \<Rightarrow> walk res" where
  "step_Call dfs fuel P E parent bb inst call w =
     (let name = call_name call; of_sync = has_prefix (cc_str call);
          normal = traverseCallee dfs P parent (Some inst) call w in
      if name = ''Lock'' then Ok (createLockNode E parent call inst NLock w)
      else if name = ''RLock'' then Ok (createLockNode E parent call inst NRLock w)
      else if name = ''Unlock'' then
        (case createUnlockNode E parent call inst NUnlock False w of (i, w) \<Rightarrow> Ok (w\<lparr>prev_node := i\<rparr>))
      else if name = ''RUnlock'' then
        (case createUnlockNode E parent call inst NRUnlock False w of (i, w) \<Rightarrow> Ok (w\<lparr>prev_node := i\<rparr>))
      else if name = ''RLocker'' then alias_locker inst call w
      else if name = ''close'' then
        if val_str (cc_value call) = ''builtin close'' then
          bindR (createChannelClose E parent call inst False w) (\<lambda>(c, w). Ok (advance c w))
        else normal
      else if name = ''WithCancel'' \<or> name = ''WithTimeout'' then Ok (new_context bb inst w)
      else if name = ''Wait'' \<and> of_sync ''(*sync.WaitGroup).Wait'' then
        sync_call E call (\<lambda>ptr. (fresh w parent NWGWait)\<lparr>wg_ptr := Some ptr, wait_inst := Some inst\<rparr>) w
      else if name = ''Wait'' \<and> of_sync ''(*sync.Cond).Wait'' then
        sync_call E call (\<lambda>ptr. (fresh w parent NCONDWait)\<lparr>cond_ptr := Some ptr, wait_inst := Some inst\<rparr>) w
      else if name = ''Signal'' \<and> of_sync ''(*sync.Cond).Signal'' then
        sync_call E call (\<lambda>ptr. (fresh w parent NSignal)\<lparr>cond_ptr := Some ptr, signal_inst := Some inst\<rparr>) w
      else if name = ''Broadcast'' \<and> of_sync ''(*sync.Cond).Broadcast'' then
        sync_call E call
          (\<lambda>ptr. (fresh w parent NBroadcast)\<lparr>cond_ptr := Some ptr, broadcast_inst := Some inst\<rparr>) w
      else if name = ''Done'' \<and> of_sync ''(*sync.WaitGroup).Done'' then updateWGDone parent call inst w
      else if name = ''Do'' \<and> of_sync ''(*sync.Once).Do'' then
        bindR (call_closures dfs P inst call False w) (\<lambda>w. Ok (w\<lparr>prev_node := cur_node w\<rparr>))
      else if name = ''AfterFunc'' then call_closures dfs P inst call True w
      else if name = ''Range'' \<and> of_sync ''(*sync.Map).Range'' then call_closures dfs P inst call False w
      else if name \<in> set atomic_writes then step_rw fuel P E parent inst w
      else normal)"

section \<open>Returns and channel operations\<close>

text \<open>Register a node after \<open>prev_node\<close> and go on from it.\<close>

definition append_node :: "node \<Rightarrow> walk \<Rightarrow> walk" where
  "append_node n w = advance n (on_graph (updateNodes (Some (prev_node w)) n False) w)"

definition step_Return ::
  "nat \<Rightarrow> program \<Rightarrow> env \<Rightarrow> int \<Rightarrow> basic_block \<Rightarrow> instruction \<Rightarrow> walk \<Rightarrow> walk res" where
  "step_Return fuel P E parent bb inst w = bindR (step_rw fuel P E parent inst w) (\<lambda>w.
     let r = (fresh w parent NReturn)\<lparr>ret_inst := Some inst\<rparr>;
         w' = (on_graph (updateNodes (Some (prev_node w)) r False) w)\<lparr>prev_node := node_id r\<rparr> in
     if h_in_for_loop (helper w) then
       Ok (append_node ((fresh w' parent NLoop)\<lparr>loop_name := h_for_loop_name (helper w'),
         enterLoop := False\<rparr>) w')
     else if bb_comment bb = ''rangechan.done'' then Ok w'
     else Ok w)"

definition step_Send ::
  "program \<Rightarrow> env \<Rightarrow> int \<Rightarrow> instruction \<Rightarrow> ssa_value \<Rightarrow> ssa_value \<Rightarrow> walk \<Rightarrow> walk" where
  "step_Send P E parent inst chan x w =
     (let ch = getChannelPtrForInst P chan x; w = on_graph (updateChannelPTS ch (here w)) w
      in append_sync_node E ch ((fresh w parent NChannel)\<lparr>ch_name := ''send@channel '' @ val_str ch,
           ch_send_inst := Some inst, ch_ptr := Some ch, isSender := True\<rparr>) w)"

text \<open>The received value is returned at once: the instruction after a receive at index \<open>j\<close>.\<close>

definition returnChannel :: "basic_block \<Rightarrow> instruction \<Rightarrow> int \<Rightarrow> bool res" where
  "returnChannel bb inst j = bindR (slice_get (bb_instrs bb) (j + 1)) (\<lambda>val.
     Ok (case inst_kind val of KReturn (r # _) \<Rightarrow> val_name r = val_name (inst_val inst) | _ \<Rightarrow> False))"

definition step_Receive ::
  "env \<Rightarrow> int \<Rightarrow> basic_block \<Rightarrow> int \<Rightarrow> instruction \<Rightarrow> ssa_value \<Rightarrow> walk \<Rightarrow> walk res" where
  "step_Receive E parent bb j inst channel w = bindR (checkCtxDone parent bb j w) (\<lambda>(is_done, w).
     if is_done then Ok w
     else bindR (returnChannel bb inst j) (\<lambda>ret.
       if ret then Ok w
       else let w = on_graph (updateChannelPTS channel (here w)) w in
         Ok (append_sync_node E channel ((fresh w parent NChannel)\<lparr>
           ch_name := ''receive@channel '' @ val_str channel, ch_rec_inst := Some inst,
           ch_ptr := Some channel, isSender := False\<rparr>) w)))"

section \<open>Select\<close>

definition walk_bb :: "bb_fn \<Rightarrow> int \<Rightarrow> int \<Rightarrow> int \<Rightarrow> walk \<Rightarrow> (int \<times> walk) res" where
  "walk_bb dfsbb body parent prev w = bindR (dfsbb body parent prev (helper w, build w)) (\<lambda>(l, h, b).
     Ok (l, w\<lparr>helper := h, build := b\<rparr>))"

definition skip_block :: "int \<Rightarrow> walk \<Rightarrow> walk" where
  "skip_block i = on_helper (\<lambda>h. h\<lparr>skips := mput i True (skips h)\<rparr>)"

text \<open>The blocks of a case after the first; they are skipped before they are walked.\<close>

definition case_rest :: "bb_fn \<Rightarrow> int \<Rightarrow> int list \<Rightarrow> int \<times> walk \<Rightarrow> (int \<times> walk) res" where
  "case_rest dfsbb c bodies s = loopR (\<lambda>body (cur, w).
     if mget0 False (skips (helper w)) body then Ok (cur, w)
     else walk_bb dfsbb body c cur (skip_block body w)) bodies s"

definition completeCaseNode ::
  "bb_fn \<Rightarrow> int \<Rightarrow> int list option list \<Rightarrow> int \<Rightarrow> int \<Rightarrow> walk \<Rightarrow> walk res" where
  "completeCaseNode dfsbb parent case_bodies c ith_state w =
     (if int (length case_bodies) > ith_state then
        bindR (slice_get case_bodies ith_state) (\<lambda>bodies. case bodies of None \<Rightarrow> Ok w
          | Some [] \<Rightarrow> Panic IndexOutOfRange
          | Some (body # rest) \<Rightarrow>
              bindR (walk_bb dfsbb body parent c w) (\<lambda>(cur, w).
              bindR (case_rest dfsbb c rest (cur, skip_block body w)) (\<lambda>(cur, w).
                if h_in_for_loop (helper w) then
                  bindR (node_at (graph w) cur) (\<lambda>n.
                    if typId n = NLoop \<and> \<not> enterLoop n
                    then Ok (on_graph (modify_node c (\<lambda>n. n\<lparr>case_to_end := True\<rparr>)) w) else Ok w)
                else Ok w)))
      else Ok w)"

text \<open>Register the node of case \<open>i\<close> of the select \<open>sel\<close>, and record it by \<open>record_case\<close>.\<close>

definition add_case :: "int \<Rightarrow> int \<Rightarrow> node \<Rightarrow> (RFGraph \<Rightarrow> RFGraph) \<Rightarrow> walk \<Rightarrow> walk res" where
  "add_case sel i c record_case w = bindR (node_at (graph w) sel) (\<lambda>s.
     bindR (slice_set (sel_cases s) i (Some (node_id c))) (\<lambda>cs.
       Ok (on_graph (\<lambda>g. record_case (updateNodes (Some sel) c True
         (modify_node sel (\<lambda>s. s\<lparr>sel_cases := cs\<rparr>) g))) w)))"

definition fresh_case :: "walk \<Rightarrow> int \<Rightarrow> int \<Rightarrow> select_state \<Rightarrow> TypeOfNode \<Rightarrow> node" where
  "fresh_case w parent sel st typ' = (fresh w parent typ')\<lparr>case_sel := Some sel, isSender := sel_send st,
     case_state := Some st\<rparr>"

definition normal_case ::
  "bb_fn \<Rightarrow> env \<Rightarrow> int \<Rightarrow> int list option list \<Rightarrow> int \<Rightarrow> int \<Rightarrow> select_state \<Rightarrow> walk \<Rightarrow> walk res" where
  "normal_case dfsbb E parent case_bodies sel i st w =
     (let channel = sel_chan st; w = on_graph (updateChannelPTS channel (here w)) w;
          c = (fresh_case w parent sel st NCase)\<lparr>case_ch_name := ''case@'' @ val_str channel,
                ch_ptr := Some channel\<rparr>
      in bindR (add_case sel i c (UpdateResources E (Some channel) (here w) c) w)
           (completeCaseNode dfsbb parent case_bodies (node_id c) i))"

definition createCaseDone ::
  "bb_fn \<Rightarrow> int \<Rightarrow> int list option list \<Rightarrow> int \<Rightarrow> int \<Rightarrow> select_state \<Rightarrow> instruction \<Rightarrow> ctx_pair \<Rightarrow>
     walk \<Rightarrow> walk res" where
  "createCaseDone dfsbb parent case_bodies sel i st call p w =
     (let c = (fresh_case w parent sel st NCaseDone)\<lparr>
            ctx_name := ''case@done@'' @ pair_loc p @ '' '' @ val_str (sel_chan st),
            done_inst := Some call, ctx_p := Some p, is_cancel := False\<rparr>
      in bindR (add_case sel i c (UpdateResourcesInner (base_obj p) c) w)
           (completeCaseNode dfsbb parent case_bodies (node_id c) i))"

text \<open>
  The cases of \<open>ctx.Done()\<close>; the flag tells whether there was one. The contexts are looked up as the
  loops go on.
\<close>

definition done_cases ::
  "bb_fn \<Rightarrow> program \<Rightarrow> int \<Rightarrow> int list option list \<Rightarrow> int \<Rightarrow> int \<Rightarrow> select_state \<Rightarrow> instruction \<Rightarrow>
     call_common \<Rightarrow> walk \<Rightarrow> (bool \<times> walk) res" where
  "done_cases dfsbb P parent case_bodies sel i st call c w =
     (let create = (\<lambda>p (_, w). bindR (createCaseDone dfsbb parent case_bodies sel i st call p w)
            (\<lambda>w. Ok (True, w))) in
      loopR (\<lambda>obj (found, w). case mget (contexts (graph w)) obj of
            Some p \<Rightarrow> create p (found, w)
          | None \<Rightarrow> loopR (\<lambda>obj2 (found, w). case mget (contexts (graph w)) obj2 of
                Some p \<Rightarrow> create p (found, w) | None \<Rightarrow> Ok (found, w))
              (GetPTSByPtrID P obj) (found, w))
        (getPTS (graph w) (cc_value c) (here w)) (False, w))"

definition select_case ::
  "bb_fn \<Rightarrow> program \<Rightarrow> env \<Rightarrow> int \<Rightarrow> int list option list \<Rightarrow> int \<Rightarrow> int \<times> select_state \<Rightarrow> walk \<Rightarrow> walk res" where
  "select_case dfsbb P E parent case_bodies sel = (\<lambda>(i, st) w.
     let normal = normal_case dfsbb E parent case_bodies sel i st in
     (case val_kind P (sel_chan st) of
        VUnOp \<Rightarrow> normal w
      | VExtract \<Rightarrow> normal w
      | VCall call \<Rightarrow> (case isCtxDone call of None \<Rightarrow> normal w
          | Some c \<Rightarrow> bindR (done_cases dfsbb P parent case_bodies sel i st call c w) (\<lambda>(found, w).
              if found then Ok w else normal w))
      | VParameter \<Rightarrow> normal w
      | VPhi \<Rightarrow> normal w
      | _ \<Rightarrow> Ok w))"

definition default_case ::
  "bb_fn \<Rightarrow> int \<Rightarrow> basic_block list \<Rightarrow> int list option list \<Rightarrow> int \<Rightarrow> int \<Rightarrow> walk \<Rightarrow> walk res" where
  "default_case dfsbb parent bbs case_bodies sel i w =
     bindR (if i < int (length case_bodies) then slice_get case_bodies i else Ok None) (\<lambda>bodies.
     bindR (case bodies of None \<Rightarrow> Ok None
        | Some ks \<Rightarrow> bindR (slice_get ks 0) (\<lambda>k. bindR (slice_get bbs k) (\<lambda>bb.
            bindR (slice_get (bb_instrs bb) 0) (\<lambda>inst. Ok (Some inst))))) (\<lambda>inst.
       let c = (fresh w parent NCase)\<lparr>case_ch_name := ''case@default'', case_sel := Some sel,
             isSender := False, default_inst := inst\<rparr>
       in bindR (add_case sel i c (\<lambda>g. g) w) (completeCaseNode dfsbb parent case_bodies (node_id c) i)))"

text \<open>The number of cases, from the bodies found and the states.\<close>

definition select_size :: "nat \<Rightarrow> nat \<Rightarrow> bool \<Rightarrow> nat" where
  "select_size bodies n_states blocking =
     (if bodies = 0 then n_states + (if blocking then 0 else 1)
      else if bodies = n_states \<and> \<not> blocking then bodies + 1 else bodies)"

definition step_Select ::
  "bb_fn \<Rightarrow> program \<Rightarrow> env \<Rightarrow> int \<Rightarrow> basic_block \<Rightarrow> instruction \<Rightarrow> select_state list \<Rightarrow> bool \<Rightarrow>
     walk \<Rightarrow> walk res" where
  "step_Select dfsbb P E parent bb inst sts blocking w =
     (let s = (fresh w parent NSelect)\<lparr>sel_name := ''select@'' @ inst_str inst, sel_inst := Some inst,
            is_in_for_loop := h_in_for_loop (helper w)\<rparr>;
          sel = node_id s; bbs = fn_blocks P (here w);
          w = (on_graph (updateNodes (Some (prev_node w)) s False) w)\<lparr>cur_node := sel\<rparr>;
          w = on_helper (\<lambda>h. h\<lparr>h_select_node_id := sel\<rparr>) w in
      bindR (getCaseBBs bbs bb (helper w) blocking) (\<lambda>case_bodies.
        let size = select_size (length case_bodies) (length sts) blocking;
            w = on_graph (modify_node sel (\<lambda>n. n\<lparr>sel_cases := replicate size None\<rparr>)) w in
        bindR (loopR (select_case dfsbb P E parent case_bodies sel) (map (\<lambda>(i, st). (int i, st)) (enumerate 0 sts)) w)
        (\<lambda>w. bindR (if blocking then Ok w
             else default_case dfsbb parent bbs case_bodies sel (int size - 1) w)
          (\<lambda>w. Ok (on_helper (\<lambda>h. h\<lparr>h_select_node_id := -1\<rparr>) (w\<lparr>prev_node := cur_node w\<rparr>))))))"

section \<open>Blocks\<close>

definition step_instr ::
  "dfs_fn \<Rightarrow> bb_fn \<Rightarrow> nat \<Rightarrow> program \<Rightarrow> env \<Rightarrow> int \<Rightarrow> basic_block \<Rightarrow> int \<Rightarrow> instruction \<Rightarrow> walk \<Rightarrow> walk res" where
  "step_instr dfs dfsbb fuel P E parent bb j inst w = (case inst_kind inst of
       KGo call \<Rightarrow> step_Go dfs P E parent inst call w
     | KRunDefers \<Rightarrow> step_RunDefers dfs P E parent w
     | KDefer call \<Rightarrow> step_Defer E parent inst call w
     | KCall call \<Rightarrow> step_Call dfs fuel P E parent bb inst call w
     | KReturn _ \<Rightarrow> step_Return fuel P E parent bb inst w
     | KSend chan x \<Rightarrow> Ok (step_Send P E parent inst chan x w)
     | KUnOp ARROW channel \<Rightarrow> step_Receive E parent bb j inst channel w
     | KSelect sts blocking \<Rightarrow> step_Select dfsbb P E parent bb inst sts blocking w
     | _ \<Rightarrow> step_rw fuel P E parent inst w)"

text \<open>After each instruction \<open>prev_node\<close> is marked with the select it is inside of.\<close>

definition mark_select :: "walk \<Rightarrow> walk" where
  "mark_select w = (let sel = h_select_node_id (helper w) in
     if sel > 0 then on_graph (modify_node (prev_node w) (\<lambda>n. n\<lparr>select_node_id := sel\<rparr>)) w else w)"

definition walk_block ::
  "dfs_fn \<Rightarrow> bb_fn \<Rightarrow> nat \<Rightarrow> program \<Rightarrow> env \<Rightarrow> int \<Rightarrow> basic_block \<Rightarrow> walk \<Rightarrow> walk res" where
  "walk_block dfs dfsbb fuel P E parent bb w = loopR (\<lambda>(j, inst) w.
       bindR (step_instr dfs dfsbb fuel P E parent bb (int j) inst w) (\<lambda>w. Ok (mark_select w)))
     (enumerate 0 (bb_instrs bb)) w"

definition enter_block ::
  "dfs_fn \<Rightarrow> bb_fn \<Rightarrow> nat \<Rightarrow> program \<Rightarrow> env \<Rightarrow> int \<Rightarrow> int \<Rightarrow> int \<Rightarrow> creatorHelper \<times> builder \<Rightarrow>
     (int \<times> creatorHelper \<times> builder) res" where
  "enter_block dfs dfsbb fuel P E i parent prev = (\<lambda>(h, b).
     bindR (slice_get (fn_blocks P (cur_cgnode h)) i) (\<lambda>bb.
       if mget0 False (skips h) i \<or> bb_comment bb = ''recover'' \<or> onlyDeferReturn bb then Ok (prev, h, b)
       else bindR (walk_block dfs dfsbb fuel P E parent bb (skip_block i
              \<lparr>prev_node = prev, cur_node = prev, helper = h, build = b\<rparr>))
            (\<lambda>w. Ok (prev_node w, helper w, build w))))"

section \<open>Functions\<close>

definition hasInterestingInsts :: "env \<Rightarrow> basic_block list \<Rightarrow> bool" where
  "hasInterestingInsts E bbs = list_ex (\<lambda>bb. list_ex (\<lambda>inst. case inst_kind inst of
       KGo _ \<Rightarrow> True | KSelect _ _ \<Rightarrow> True | KSend _ _ \<Rightarrow> True | KDefer _ \<Rightarrow> True | KCall _ \<Rightarrow> True
     | KMakeClosure \<Rightarrow> True | KMakeChan \<Rightarrow> True | KUnOp _ _ \<Rightarrow> True
     | KStore _ \<Rightarrow> DoRace E | KFieldAddr _ _ \<Rightarrow> DoRace E | KLookup _ \<Rightarrow> DoRace E
     | KChangeType \<Rightarrow> DoRace E | KMapUpdate _ \<Rightarrow> DoRace E | KMakeInterface \<Rightarrow> DoRace E
     | _ \<Rightarrow> False) (bb_instrs bb)) bbs"

text \<open>The first node of a goroutine or of a function; a goroutine also becomes a root.\<close>

definition entry_node ::
  "program \<Rightarrow> cg_node \<Rightarrow> int option \<Rightarrow> instruction option \<Rightarrow> bool \<Rightarrow> RFGraph \<Rightarrow> (node \<times> RFGraph) res" where
  "entry_node P cg parent creation thread g =
     (if thread then
        bindR (case parent of None \<Rightarrow> Ok (''main@'' @ cg_text P cg)
            | Some _ \<Rightarrow> bindR (deref creation) (\<lambda>site. Ok (''go@['' @ inst_str site @ ''] '' @ cg_text P cg)))
          (\<lambda>name.
        let n = zero_node\<lparr>node_id := next_ID g, typId := NGoroutine, cgnode := cg, parent_id := -1,
              g_name := name, gid := int (length (roots g)),
              g_inst := (case creation of None \<Rightarrow> None
                 | Some i \<Rightarrow> (case inst_kind i of KGo _ \<Rightarrow> Some i | _ \<Rightarrow> None))\<rparr>
        in Ok (n, g\<lparr>roots := roots g @ [node_id n]\<rparr>))
      else bindR (deref parent) (\<lambda>p. bindR (node_at g p) (\<lambda>pn.
        Ok (zero_node\<lparr>node_id := next_ID g, typId := NFunc, cgnode := cg, parent_id := node_id pn,
              gid := gid pn, fn_name := ''fn@'' @ cg_text P cg\<rparr>, g))))"

text \<open>Functions without interesting instructions: only their calls are followed, with a nil helper.\<close>

definition call_site_of :: "instruction option \<Rightarrow> call_site" where
  "call_site_of inst = (case inst of None \<Rightarrow> NoSite
     | Some i \<Rightarrow> (case inst_kind i of KCall _ \<Rightarrow> CallSite (inst_str i) | _ \<Rightarrow> NoSite))"

definition follow_calls :: "dfs_fn \<Rightarrow> program \<Rightarrow> cg_node \<Rightarrow> int \<Rightarrow> builder \<Rightarrow> builder res" where
  "follow_calls dfs P cg cur b = loopR (\<lambda>e b.
     bindR (doVisit (in_scope P) (bg b) (call_site_of (edge_site e)) (Some (callee_sig P (edge_callee e))) None)
       (\<lambda>go_on. if \<not> go_on then Ok b
         else bindR (dfs (edge_callee e) (Some cur) (edge_site e) False b) (\<lambda>(_, _, b). Ok b)))
     (cg_out P cg) b"

definition loop_node :: "walk \<Rightarrow> int \<Rightarrow> program \<Rightarrow> basic_block \<Rightarrow> TypeOfNode \<Rightarrow> node" where
  "loop_node w parent P bb typ' =
     (let name = itoa (bb_index bb) @ cg_func (here w); n = fresh w parent typ' in
      if typ' = NROC then n\<lparr>roc_name := ''roc@'' @ name, roc_bb := Some bb, enterROC := True\<rparr>
      else n\<lparr>loop_name := ''loop@'' @ name, loop_bb := Some bb, enterLoop := True\<rparr>)"

text \<open>The first node of a loop, or the walk of a block that is none.\<close>

definition start_block :: "bb_fn \<Rightarrow> program \<Rightarrow> int \<Rightarrow> basic_block \<Rightarrow> walk \<Rightarrow> walk res" where
  "start_block dfsbb P parent bb w =
     (if bb_comment bb = ''for.body'' then
        let n = loop_node w parent P bb NLoop
        in Ok (on_helper (\<lambda>h. h\<lparr>h_in_for_loop := True, h_for_loop_name := loop_name n\<rparr>) (append_node n w))
      else if bb_comment bb = ''rangechan.loop'' then
        let n = loop_node w parent P bb NROC
        in Ok (on_helper (\<lambda>h. h\<lparr>h_in_roc := True, h_roc_name := roc_name n\<rparr>) (append_node n w))
      else if bb_comment bb = ''rangeindex.loop'' \<or> bb_comment bb = ''rangeiter.loop'' then
        let n = loop_node w parent P bb NLoop
        in Ok (on_helper (\<lambda>h. h\<lparr>h_in_loop := True, h_loop_name := loop_name n\<rparr>) (append_node n w))
      else bindR (walk_bb dfsbb (bb_index bb) (prev_node w) (prev_node w) w) (\<lambda>(l, w). Ok (w\<lparr>cur_node := l\<rparr>)))"

definition record_gids :: "int list \<Rightarrow> int \<Rightarrow> int \<Rightarrow> RFGraph \<Rightarrow> RFGraph" where
  "record_gids gids nid_start nid_end = fold (\<lambda>tid g. g\<lparr>gid2nloop :=
     mput tid (mput nid_start nid_end (mget0 [] (gid2nloop g) tid)) (gid2nloop g)\<rparr>) gids"

text \<open>The body of a loop from its first block on, and the exit node made by \<open>exit_of\<close>.\<close>

definition visit_loop ::
  "bb_fn \<Rightarrow> program \<Rightarrow> int \<Rightarrow> basic_block \<Rightarrow> (walk \<Rightarrow> node) \<Rightarrow> walk \<Rightarrow> walk res" where
  "visit_loop dfsbb P parent bb exit_of w =
     (let w = w\<lparr>prev_node := cur_node w\<rparr>; nid_start = prev_node w in
      bindR (getLoopBBs (fn_blocks P (here w)) bb (helper w)) (\<lambda>bodies.
      bindR (loopR (\<lambda>body w. bindR (walk_bb dfsbb body (prev_node w) (prev_node w) w) (\<lambda>(l, w).
           Ok (w\<lparr>cur_node := l, prev_node := l\<rparr>))) bodies w) (\<lambda>w.
        let w = on_graph (record_gids (gid1st (helper w)) nid_start (prev_node w)) w;
            w = on_helper (\<lambda>h. h\<lparr>gid1st := []\<rparr>) w
        in Ok (append_node (exit_of w) w))))"

definition visit_block :: "bb_fn \<Rightarrow> program \<Rightarrow> int \<Rightarrow> basic_block \<Rightarrow> walk \<Rightarrow> walk res" where
  "visit_block dfsbb P parent bb w = bindR (start_block dfsbb P parent bb w) (\<lambda>w.
     let h = helper w; loop_exit = (\<lambda>w. (fresh w parent NLoop)\<lparr>loop_name := h_loop_name (helper w)\<rparr>) in
     if h_in_roc h then
       bindR (visit_loop dfsbb P parent bb
           (\<lambda>w. (fresh w parent NROC)\<lparr>roc_name := h_roc_name (helper w), enterROC := False\<rparr>) w)
         (\<lambda>w. Ok (on_helper (\<lambda>h. h\<lparr>h_in_roc := False\<rparr>) w))
     else if h_in_loop h then
       bindR (visit_loop dfsbb P parent bb loop_exit w) (\<lambda>w. Ok (on_helper (\<lambda>h. h\<lparr>h_in_loop := False\<rparr>) w))
     else if h_in_for_loop h then
       bindR (visit_loop dfsbb P parent bb loop_exit w) (\<lambda>w. Ok (on_helper (\<lambda>h. h\<lparr>h_in_for_loop := False\<rparr>) w))
     else Ok (w\<lparr>prev_node := cur_node w\<rparr>))"

definition release_deferred :: "env \<Rightarrow> int list \<Rightarrow> RFGraph \<Rightarrow> RFGraph res" where
  "release_deferred E ids g = (if DoRace E then
     loopR (\<lambda>i g. bindR (node_at g i) (\<lambda>n. Ok (UpdateLockset n g))) (rev ids) g else Ok g)"

definition visit_function :: "bb_fn \<Rightarrow> program \<Rightarrow> env \<Rightarrow> cg_node \<Rightarrow> int \<Rightarrow> int \<Rightarrow> builder \<Rightarrow> (int \<times> builder) res" where
  "visit_function dfsbb P E cg parent tid b =
     bindR (loopR (visit_block dfsbb P parent) (fn_blocks P cg)
       \<lparr>prev_node = parent, cur_node = parent, helper = new_helper cg tid, build = b\<rparr>) (\<lambda>w.
     bindR (release_deferred E (defer_unlocks (helper w)) (graph w)) (\<lambda>g.
     bindR (CheckCompleteFlow (line_of P) g cg (fn_blocks P cg)) (\<lambda>es.
       Ok (prev_node w, (build w)\<lparr>bg := g\<lparr>cferrs := cferrs g @ es\<rparr>\<rparr>))))"

fun DFS :: "nat \<Rightarrow> program \<Rightarrow> env \<Rightarrow> dfs_fn"
  and DFSBB :: "nat \<Rightarrow> program \<Rightarrow> env \<Rightarrow> bb_fn" where
  "DFS 0 P E cg parent creation thread b = OutOfFuel"
| "DFS (Suc fuel) P E cg parent creation thread b =
     bindR (entry_node P cg parent creation thread (bg b)) (\<lambda>(n, g).
     bindR (getSig (site_of creation) (cg_func cg) (cg_ctx P cg)) (\<lambda>sig.
       let g = g\<lparr>g_visited := mput sig (mget0 0 (g_visited g) sig + 1) (g_visited g)\<rparr>;
           g = updateNodes parent n (parent = None) g;
           i = node_id n; b = b\<lparr>bg := g\<rparr> in
       if \<not> hasInterestingInsts E (fn_blocks P cg) then
         bindR (follow_calls (DFS fuel P E) P cg i b) (\<lambda>b. Ok (i, i, b))
       else if cg_func cg = ''context.WithCancel$1'' then Ok (i, i, b)
       else bindR (visit_function (DFSBB fuel P E) P E cg i (gid n) b) (\<lambda>(l, b). Ok (i, l, b))))"
| "DFSBB 0 P E i parent prev s = OutOfFuel"
| "DFSBB (Suc fuel) P E i parent prev s =
     enter_block (DFS fuel P E) (DFSBB fuel P E) fuel P E i parent prev s"

text \<open>
  The graph of one entry; the two branches on \<open>IsTest\<close> differ in what they print only. \<open>ID_RW\<close> goes on
  from the entries before.
\<close>

definition CreateGraph :: "nat \<Rightarrow> program \<Rightarrow> env \<Rightarrow> int \<Rightarrow> pta_result \<Rightarrow> cg_node \<Rightarrow> builder res" where
  "CreateGraph fuel P E ID_RW ptResult entry =
     bindR (DFS fuel P E entry None None True
       \<lparr>bg = InitializeRFG ptResult, next_RW = ID_RW, inst2rwnode = []\<rparr>) (\<lambda>(_, last_id, b).
     let ex = zero_node\<lparr>node_id := next_ID (bg b), typId := NExit, cgnode := entry, parent_id := -1, gid := 0\<rparr>
     in Ok (b\<lparr>bg := updateNodes (Some last_id) ex False (bg b)\<rparr>))"

end
