(* ===== verification/ConstructInv.thy ===== *)
theory ConstructInv
  imports RFGWalk BuildProps RaceClaims CFProps
begin

text \<open>
  The invariant of the construction of the graph and the operations on the graph that keep it: nodes,
  edges, users of objects, contexts, cases and recorded accesses only name registered nodes, and a
  registered node keeps its type.
\<close>

section \<open>Outcomes\<close>

text \<open>\<open>post Q r\<close>: the code does not run out of fuel, and if it returns, then with \<open>Q\<close>.\<close>

definition post :: "('a \<Rightarrow> bool) \<Rightarrow> 'a res \<Rightarrow> bool" where
  "post Q r = (case r of Ok x \<Rightarrow> Q x | Panic _ \<Rightarrow> True | OutOfFuel \<Rightarrow> False)"

lemma post_simps [simp]: "post Q (Ok x) = Q x" "post Q (Panic p)" "\<not> post Q OutOfFuel"
  by (simp_all add: post_def)

lemma post_bind [simp]: "post Q (bindR r f) = post (\<lambda>x. post Q (f x)) r"
  by (cases r) simp_all

lemma post_mono: "post Q r \<Longrightarrow> (\<And>x. r = Ok x \<Longrightarrow> Q x \<Longrightarrow> R x) \<Longrightarrow> post R r"
  by (cases r) simp_all

lemma post_if: "(b \<Longrightarrow> post Q r) \<Longrightarrow> (\<not> b \<Longrightarrow> post Q s) \<Longrightarrow> post Q (if b then r else s)"
  by simp

lemma post_total [simp]:
  "post Q (deref p) \<longleftrightarrow> (\<forall>x. p = Some x \<longrightarrow> Q x)"
  "post Q (slice_get xs i) \<longleftrightarrow> (in_range xs i \<longrightarrow> Q (xs ! nat i))"
  "post R (slice_set xs i v) \<longleftrightarrow> (in_range xs i \<longrightarrow> R (xs[nat i := v]))"
  "post S (node_at g j) \<longleftrightarrow> (\<forall>n. mget (id2node g) j = Some n \<longrightarrow> S n)"
  by (auto simp: deref_def slice_get_def slice_set_def node_at_def split: option.splits)

lemma post_loop:
  assumes "I s" and "\<And>x u. x \<in> set xs \<Longrightarrow> I u \<Longrightarrow> post I (body x u)"
  shows "post I (loopR body xs s)"
  using assms
proof (induction xs arbitrary: s)
  case (Cons x xs)
  have "post I (body x s)" using Cons.prems by simp
  then show ?case using Cons.IH Cons.prems(2) by (auto elim: post_mono)
qed simp

lemma post_is_ok: "post Q r \<longleftrightarrow> (\<exists>p. r = Panic p) \<or> (\<exists>x. r = Ok x \<and> Q x)"
  by (cases r) auto

section \<open>The invariant of the graph\<close>

definition typ_at :: "RFGraph \<Rightarrow> int \<Rightarrow> TypeOfNode option" where
  "typ_at g i = map_option typId (mget (id2node g) i)"

lemma node_ids_typ: "i \<in> node_ids g \<longleftrightarrow> typ_at g i \<noteq> None"
  by (simp add: node_ids_iff typ_at_def)

text \<open>Cancel nodes carry their context, and the cases of a select are registered and no selects.\<close>

definition node_ok :: "RFGraph \<Rightarrow> node \<Rightarrow> bool" where
  "node_ok g n \<longleftrightarrow> (typId n = NCancel \<longrightarrow> ctx_p n \<noteq> None) \<and>
     (\<forall>c. Some c \<in> set (sel_cases n) \<longrightarrow> (\<exists>t. typ_at g c = Some t \<and> t \<noteq> NSelect))"

text \<open>The nodes that recorded accesses belong to.\<close>

definition nodes_in :: "'k accesses \<Rightarrow> int set" where
  "nodes_in m = {rw_n a | a k. a \<in> accesses_at m k}"

definition access_nodes :: "RFGPlusGraph \<Rightarrow> int set" where
  "access_nodes p = nodes_in (pts2WriteNode p) \<union> nodes_in (pts2ReadNode p) \<union>
     nodes_in (obj2WriteNode p) \<union> nodes_in (obj2ReadNode p)"

definition ok_graph :: "RFGraph \<Rightarrow> bool" where
  "ok_graph g \<longleftrightarrow> wf_build g \<and> (\<forall>i n. mget (id2node g) i = Some n \<longrightarrow> node_ok g n) \<and>
     access_nodes (rfgplus g) \<subseteq> node_ids g \<and> set (roots g) \<subseteq> node_ids g \<and>
     (\<forall>s. mget0 0 (g_visited g) s \<le> limit) \<and>
     cache g = [] \<and> checked (rfgplus g) = [] \<and> races (rfgplus g) = [] \<and> syncAdjList g = []"

definition enlarges :: "RFGraph \<Rightarrow> RFGraph \<Rightarrow> bool" where
  "enlarges g g' \<longleftrightarrow> (\<forall>i t. typ_at g i = Some t \<longrightarrow> typ_at g' i = Some t) \<and>
     (\<forall>s. mget0 0 (g_visited g) s \<le> mget0 0 (g_visited g') s) \<and>
     (\<exists>rs. roots g' = roots g @ rs)"

definition ext :: "RFGraph \<Rightarrow> RFGraph \<Rightarrow> bool" where
  "ext g g' \<longleftrightarrow> ok_graph g' \<and> enlarges g g'"

lemma enlarges_refl [simp]: "enlarges g g"
  by (simp add: enlarges_def)

lemma enlarges_trans:
  assumes "enlarges f g" and "enlarges g h"
  shows "enlarges f h"
proof -
  have "\<exists>rs. roots h = roots f @ rs" using assms by (auto simp: enlarges_def)
  moreover have "mget0 0 (g_visited f) s \<le> mget0 0 (g_visited h) s" for s
    using assms order_trans unfolding enlarges_def by blast
  ultimately show ?thesis using assms by (simp add: enlarges_def)
qed

lemma ext_refl: "ok_graph g \<Longrightarrow> ext g g"
  by (simp add: ext_def)

lemma ext_trans: "ext f g \<Longrightarrow> ext g h \<Longrightarrow> ext f h"
  unfolding ext_def using enlarges_trans by blast

lemma ext_ok: "ext g g' \<Longrightarrow> ok_graph g'"
  by (simp add: ext_def)

lemma enlarges_typ: "enlarges g g' \<Longrightarrow> typ_at g i = Some t \<Longrightarrow> typ_at g' i = Some t"
  by (simp add: enlarges_def)

lemma enlarges_ids: "enlarges g g' \<Longrightarrow> i \<in> node_ids g \<Longrightarrow> i \<in> node_ids g'"
  by (auto simp: node_ids_typ enlarges_def)

lemma ext_ids: "ext g g' \<Longrightarrow> i \<in> node_ids g \<Longrightarrow> i \<in> node_ids g'"
  unfolding ext_def using enlarges_ids by blast

lemma ok_graph_id: "ok_graph g \<Longrightarrow> mget (id2node g) i = Some n \<Longrightarrow> node_id n = i"
  using map_of_SomeD unfolding ok_graph_def wf_build_def wf_nodes_def list_all_iff by fastforce

text \<open>Fields the invariant does not read.\<close>

lemma ok_graph_cong:
  assumes "id2node g' = id2node g" "next_ID g' = next_ID g" "adjList g' = adjList g"
    "resources g' = resources g" "rfgplus g' = rfgplus g" "roots g' = roots g"
    "g_visited g' = g_visited g" "cache g' = cache g" "syncAdjList g' = syncAdjList g"
  shows "ok_graph g' = ok_graph g" "enlarges h g' = enlarges h g" "ext h g' = ext h g"
proof -
  have t: "typ_at g' = typ_at g" "node_ids g' = node_ids g"
    using assms by (simp_all add: typ_at_def node_ids_def fun_eq_iff)
  then have n: "node_ok g' = node_ok g" by (simp add: node_ok_def fun_eq_iff)
  show "ok_graph g' = ok_graph g"
    by (simp add: ok_graph_def wf_build_def wf_nodes_def t n assms)
  moreover show "enlarges h g' = enlarges h g" by (simp add: enlarges_def t assms)
  ultimately show "ext h g' = ext h g" by (simp add: ext_def)
qed

lemma ok_graph_frame [simp]:
  "ext h (g\<lparr>tid2wg_pts := a\<rparr>) = ext h g" "ext h (g\<lparr>tid2end := b\<rparr>) = ext h g"
  "ext h (g\<lparr>contexts := c\<rparr>) = ext h g" "ext h (g\<lparr>rfg_alias := d\<rparr>) = ext h g"
  "ext h (g\<lparr>holding_locks := e\<rparr>) = ext h g" "ext h (g\<lparr>holding_rlocks := e\<rparr>) = ext h g"
  "ext h (g\<lparr>gid2nloop := f\<rparr>) = ext h g" "ext h (g\<lparr>cferrs := k\<rparr>) = ext h g"
  by (rule ok_graph_cong; simp)+

lemma ext_fold:
  assumes "ok_graph g" and "\<And>x g. x \<in> set xs \<Longrightarrow> ok_graph g \<Longrightarrow> ext g (f x g)"
  shows "ext g (fold f xs g)"
  using assms
proof (induction xs arbitrary: g)
  case (Cons x xs)
  have "ext g (f x g)" using Cons.prems by simp
  moreover from this have "ext (f x g) (fold f xs (f x g))"
    using Cons.IH Cons.prems(2) by (simp add: ext_def)
  ultimately show ?case using ext_trans by simp
qed (simp add: ext_refl)

section \<open>Registering nodes\<close>

lemma typ_at_updateNodes: "typ_at (updateNodes prev n skip g) i =
    (if i = next_ID g then Some (typId n) else typ_at g i)"
  by (simp add: typ_at_def updateNodes_def Let_def)

lemma fresh_id: "ok_graph g \<Longrightarrow> typ_at g (next_ID g) = None"
  using node_ids_typ [of "next_ID g" g] unfolding ok_graph_def wf_build_def by blast

text \<open>A new node has no cases yet, and carries its context if it is a cancel.\<close>

definition new_ok :: "node \<Rightarrow> bool" where
  "new_ok n \<longleftrightarrow> sel_cases n = [] \<and> (typId n = NCancel \<longrightarrow> ctx_p n \<noteq> None)"

lemma updateNodes_fields [simp]:
  "rfgplus (updateNodes prev n skip g) = rfgplus g" "roots (updateNodes prev n skip g) = roots g"
  "g_visited (updateNodes prev n skip g) = g_visited g" "cache (updateNodes prev n skip g) = cache g"
  "syncAdjList (updateNodes prev n skip g) = syncAdjList g"
  "id2node (updateNodes prev n skip g) = mput (next_ID g) n (id2node g)"
  "contexts (updateNodes prev n skip g) = contexts g"
  by (simp_all add: updateNodes_def Let_def)

lemma updateNodes_enlarges:
  assumes "ok_graph g" shows "enlarges g (updateNodes prev n skip g)"
  using fresh_id [OF assms] by (auto simp: enlarges_def typ_at_updateNodes)

lemma node_ok_enlarges: "node_ok g n \<Longrightarrow> enlarges g g' \<Longrightarrow> node_ok g' n"
  unfolding node_ok_def using enlarges_typ by blast

lemma updateNodes_ext:
  assumes g: "ok_graph g" and "node_id n = next_ID g" and "new_ok n"
  shows "ext g (updateNodes prev n skip g)"
proof -
  let ?g = "updateNodes prev n skip g"
  have enlarges: "enlarges g ?g" using g by (rule updateNodes_enlarges)
  have "wf_build ?g" using g assms(2) by (intro updateNodes_wf) (simp_all add: ok_graph_def)
  moreover have "node_ok ?g m" if "mget (id2node ?g) i = Some m" for i m
  proof (cases "i = next_ID g")
    case True
    with that assms(3) show ?thesis by (simp add: node_ok_def new_ok_def)
  next
    case False
    with that g have "node_ok g m" by (simp add: ok_graph_def)
    with enlarges show ?thesis by (rule node_ok_enlarges [rotated])
  qed
  moreover have "access_nodes (rfgplus g) \<subseteq> node_ids ?g" "set (roots g) \<subseteq> node_ids ?g"
    using g by (auto simp: ok_graph_def node_ids_updateNodes)
  ultimately show ?thesis using g enlarges by (simp add: ext_def ok_graph_def)
qed

lemma updateNodes_ids: "node_id n = next_ID g \<Longrightarrow> node_id n \<in> node_ids (updateNodes prev n skip g)"
  by (simp add: node_ids_updateNodes)

section \<open>Users of objects\<close>

lemma UpdateResourcesInner_fields [simp]:
  "rfgplus (UpdateResourcesInner o' n g) = rfgplus g" "roots (UpdateResourcesInner o' n g) = roots g"
  "g_visited (UpdateResourcesInner o' n g) = g_visited g" "cache (UpdateResourcesInner o' n g) = cache g"
  "syncAdjList (UpdateResourcesInner o' n g) = syncAdjList g"
  "id2node (UpdateResourcesInner o' n g) = id2node g" "next_ID (UpdateResourcesInner o' n g) = next_ID g"
  by (simp_all add: UpdateResourcesInner_def Let_def)

lemma same_nodes_ext:
  assumes "ok_graph g" and "wf_build g'" and "id2node g' = id2node g" "rfgplus g' = rfgplus g"
    "roots g' = roots g" "g_visited g' = g_visited g" "cache g' = cache g" "syncAdjList g' = syncAdjList g"
  shows "ext g g'"
proof -
  have t: "typ_at g' = typ_at g" "node_ids g' = node_ids g"
    using assms by (simp_all add: typ_at_def node_ids_def fun_eq_iff)
  then have n: "node_ok g' = node_ok g" by (simp add: node_ok_def fun_eq_iff)
  show ?thesis using assms by (simp add: ext_def ok_graph_def enlarges_def t n)
qed

lemma UpdateResourcesInner_ext:
  assumes "ok_graph g" and "node_id n \<in> node_ids g"
  shows "ext g (UpdateResourcesInner obj n g)"
  using assms UpdateResourcesInner_wf [of g n obj]
  by (intro same_nodes_ext) (simp_all add: ok_graph_def)

lemma UpdateResourcesInner_fold_ext:
  assumes "ok_graph g" and "node_id n \<in> node_ids g"
  shows "ext g (fold (\<lambda>obj. UpdateResourcesInner obj n) pts g)"
  using assms
proof (induction pts arbitrary: g)
  case (Cons obj pts)
  have "ext g (UpdateResourcesInner obj n g)" using Cons.prems by (rule UpdateResourcesInner_ext)
  moreover from Cons.IH [of "UpdateResourcesInner obj n g"] this Cons.prems(2)
  have "ext (UpdateResourcesInner obj n g) (fold (\<lambda>obj. UpdateResourcesInner obj n) pts (UpdateResourcesInner obj n g))"
    using ext_ids ext_ok by blast
  ultimately show ?case using ext_trans by simp
qed (simp add: ext_refl)

lemma UpdateLockset_fields [simp]:
  "rfgplus (UpdateLockset n g) = rfgplus g" "roots (UpdateLockset n g) = roots g"
  "g_visited (UpdateLockset n g) = g_visited g" "cache (UpdateLockset n g) = cache g"
  "syncAdjList (UpdateLockset n g) = syncAdjList g" "id2node (UpdateLockset n g) = id2node g"
  "next_ID (UpdateLockset n g) = next_ID g"
  by (simp_all add: UpdateLockset_def Let_def split: TypeOfNode.splits)

lemma UpdateResources_fields [simp]:
  "rfgplus (UpdateResources E key cg n g) = rfgplus g" "roots (UpdateResources E key cg n g) = roots g"
  "g_visited (UpdateResources E key cg n g) = g_visited g" "cache (UpdateResources E key cg n g) = cache g"
  "syncAdjList (UpdateResources E key cg n g) = syncAdjList g"
  "id2node (UpdateResources E key cg n g) = id2node g" "next_ID (UpdateResources E key cg n g) = next_ID g"
proof -
  let ?f = "\<lambda>obj g. case mget (rfg_alias g) obj of
      Some base \<Rightarrow> UpdateResourcesInner base n g | None \<Rightarrow> UpdateResourcesInner obj n g"
  have f: "rfgplus (fold ?f pts g) = rfgplus g \<and> roots (fold ?f pts g) = roots g \<and>
      g_visited (fold ?f pts g) = g_visited g \<and> cache (fold ?f pts g) = cache g \<and>
      syncAdjList (fold ?f pts g) = syncAdjList g \<and> id2node (fold ?f pts g) = id2node g \<and>
      next_ID (fold ?f pts g) = next_ID g" for pts
    by (induction pts arbitrary: g) (simp_all split: option.splits)
  show "rfgplus (UpdateResources E key cg n g) = rfgplus g" "roots (UpdateResources E key cg n g) = roots g"
    "g_visited (UpdateResources E key cg n g) = g_visited g" "cache (UpdateResources E key cg n g) = cache g"
    "syncAdjList (UpdateResources E key cg n g) = syncAdjList g"
    "id2node (UpdateResources E key cg n g) = id2node g" "next_ID (UpdateResources E key cg n g) = next_ID g"
    using f by (simp_all add: UpdateResources_def Let_def)
qed

lemma UpdateResources_ext:
  assumes "ok_graph g" and "node_id n \<in> node_ids g"
  shows "ext g (UpdateResources E key cg n g)"
  using assms UpdateResources_wf [of g n E key cg]
  by (intro same_nodes_ext) (simp_all add: ok_graph_def)

text \<open>A closed channel: its users are recorded before the node is registered.\<close>

lemma UpdateResources_resources:
  "\<exists>h. UpdateResources E key cg n g =
     (fold (\<lambda>obj. UpdateResourcesInner obj n)
        (map (\<lambda>obj. case mget (rfg_alias g) obj of Some base \<Rightarrow> base | None \<Rightarrow> obj) (ptr_pts g key cg)) g)
     \<lparr>holding_locks := fst h, holding_rlocks := snd h\<rparr>"
proof -
  let ?r = "\<lambda>obj. case mget (rfg_alias g) obj of Some base \<Rightarrow> base | None \<Rightarrow> obj"
  have a: "rfg_alias (UpdateResourcesInner obj n f) = rfg_alias f" for obj f
    by (simp add: UpdateResourcesInner_def Let_def)
  have f: "rfg_alias f = rfg_alias g \<Longrightarrow> fold (\<lambda>obj g. case mget (rfg_alias g) obj of
      Some base \<Rightarrow> UpdateResourcesInner base n g | None \<Rightarrow> UpdateResourcesInner obj n g) pts f =
      fold (\<lambda>obj. UpdateResourcesInner obj n) (map ?r pts) f" for pts f
    by (induction pts arbitrary: f) (auto simp: a split: option.splits)
  have l: "\<exists>h. UpdateLockset m f = f\<lparr>holding_locks := fst h, holding_rlocks := snd h\<rparr>" for m and f :: RFGraph
  proof -
    have id: "f = f\<lparr>holding_locks := holding_locks f, holding_rlocks := holding_rlocks f\<rparr>" by simp
    show ?thesis
      by (rule exI [of _ "(holding_locks (UpdateLockset m f), holding_rlocks (UpdateLockset m f))"])
        (auto simp: UpdateLockset_def Let_def split: TypeOfNode.splits)
  qed
  have "\<exists>h. f = f\<lparr>holding_locks := fst h, holding_rlocks := snd h\<rparr>" for f :: RFGraph
    by (rule exI [of _ "(holding_locks f, holding_rlocks f)"]) simp
  with l show ?thesis by (simp add: UpdateResources_def Let_def f)
qed

lemma updateNodes_commute:
  "updateNodes prev n skip (UpdateResourcesInner obj m g) =
   UpdateResourcesInner obj m (updateNodes prev n skip g)"
  by (simp add: updateNodes_def UpdateResourcesInner_def Let_def)

lemma updateNodes_fold_commute:
  "updateNodes prev n skip (fold (\<lambda>obj. UpdateResourcesInner obj m) pts g) =
   fold (\<lambda>obj. UpdateResourcesInner obj m) pts (updateNodes prev n skip g)"
  by (induction pts arbitrary: g) (simp_all add: updateNodes_commute)

lemma close_ext:
  assumes "ok_graph g" and "node_id n = next_ID g" and "new_ok n"
  shows "ext g (updateNodes prev n skip (UpdateResources E key cg n g))"
proof -
  obtain h where r: "UpdateResources E key cg n g =
     (fold (\<lambda>obj. UpdateResourcesInner obj n)
        (map (\<lambda>obj. case mget (rfg_alias g) obj of Some base \<Rightarrow> base | None \<Rightarrow> obj) (ptr_pts g key cg)) g)
     \<lparr>holding_locks := fst h, holding_rlocks := snd h\<rparr>" using UpdateResources_resources by blast
  have u: "updateNodes prev n skip (f\<lparr>holding_locks := a, holding_rlocks := b\<rparr>) =
      (updateNodes prev n skip f)\<lparr>holding_locks := a, holding_rlocks := b\<rparr>" for f a b
    by (simp add: updateNodes_def Let_def)
  have e: "ext g (updateNodes prev n skip g)" using assms by (rule updateNodes_ext)
  moreover have "node_id n \<in> node_ids (updateNodes prev n skip g)" using assms(2) by (rule updateNodes_ids)
  ultimately have "ext (updateNodes prev n skip g) (fold (\<lambda>obj. UpdateResourcesInner obj n) pts
      (updateNodes prev n skip g))" for pts
    by (intro UpdateResourcesInner_fold_ext) (auto dest: ext_ok)
  with e show ?thesis unfolding r u updateNodes_fold_commute by (auto intro: ext_trans)
qed

section \<open>Changing nodes and edges\<close>

text \<open>A change of a node that the invariant cannot see.\<close>

definition mild :: "(node \<Rightarrow> node) \<Rightarrow> bool" where
  "mild f \<longleftrightarrow> (\<forall>n. node_id (f n) = node_id n \<and> typId (f n) = typId n \<and> ctx_p (f n) = ctx_p n \<and>
     sel_cases (f n) = sel_cases n)"

lemma typ_at_modify:
  "(\<And>n. typId (f n) = typId n) \<Longrightarrow> typ_at (modify_node i f g) j = typ_at g j"
  by (simp add: typ_at_def modify_node_def split: option.splits)

lemma modify_node_fields [simp]:
  "rfgplus (modify_node i f g) = rfgplus g" "roots (modify_node i f g) = roots g"
  "g_visited (modify_node i f g) = g_visited g" "cache (modify_node i f g) = cache g"
  "syncAdjList (modify_node i f g) = syncAdjList g" "adjList (modify_node i f g) = adjList g"
  "resources (modify_node i f g) = resources g" "next_ID (modify_node i f g) = next_ID g"
  by (simp_all add: modify_node_def split: option.splits)

lemma mget_modify_node:
  "mget (id2node (modify_node i f g)) j =
     (if j = i then map_option f (mget (id2node g) i) else mget (id2node g) j)"
  by (simp add: modify_node_def split: option.splits)

lemma modify_node_wf:
  assumes g: "wf_build g" and f: "\<And>n. node_id (f n) = node_id n" "\<And>n. typId (f n) = typId n"
  shows "wf_build (modify_node i f g)"
proof -
  let ?g = "modify_node i f g"
  have "typ_at ?g = typ_at g" using typ_at_modify [OF f(2)] by blast
  then have n: "node_ids ?g = node_ids g" by (auto simp: node_ids_typ)
  have wf: "wf_nodes g" using g by (simp add: wf_build_def)
  have "wf_nodes ?g"
  proof (cases "mget (id2node g) i")
    case None
    with wf show ?thesis by (simp add: modify_node_def)
  next
    case (Some m)
    have "node_id m = i" using map_of_SomeD [OF Some] wf unfolding wf_nodes_def list_all_iff by fastforce
    then have "node_id (f m) = i" by (simp add: f(1))
    with wf show ?thesis by (rule wf_nodes_mput) (simp add: modify_node_def Some)
  qed
  with g show ?thesis by (simp add: wf_build_def n)
qed

lemma modify_node_ext_gen:
  assumes g: "ok_graph g" and f: "\<And>n. node_id (f n) = node_id n" "\<And>n. typId (f n) = typId n"
    and ok: "\<And>n. mget (id2node g) i = Some n \<Longrightarrow> node_ok g n \<Longrightarrow> node_ok g (f n)"
  shows "ext g (modify_node i f g)"
proof -
  let ?g = "modify_node i f g"
  have t: "typ_at ?g = typ_at g" using typ_at_modify [OF f(2)] by blast
  then have n: "node_ids ?g = node_ids g" "node_ok ?g = node_ok g"
    by (auto simp: node_ids_typ node_ok_def fun_eq_iff)
  have "wf_build ?g" using g f by (intro modify_node_wf) (simp_all add: ok_graph_def)
  moreover have "node_ok g m" if m: "mget (id2node ?g) j = Some m" for j m
  proof (cases "j = i")
    case True
    with m obtain m' where "mget (id2node g) i = Some m'" "m = f m'" by (auto simp: mget_modify_node)
    with ok g show ?thesis by (simp add: ok_graph_def)
  next
    case False
    with m g show ?thesis by (simp add: mget_modify_node ok_graph_def)
  qed
  ultimately show ?thesis using g by (simp add: ext_def ok_graph_def enlarges_def n t)
qed

lemma modify_node_ext: "ok_graph g \<Longrightarrow> mild f \<Longrightarrow> ext g (modify_node i f g)"
  by (rule modify_node_ext_gen) (simp_all add: mild_def node_ok_def)

lemma add_edge_ext:
  assumes "ok_graph g" and "i \<in> node_ids g"
  shows "ext g (g\<lparr>adjList := mput p (mget0 [] (adjList g) p @ [i]) (adjList g)\<rparr>)"
proof (rule same_nodes_ext [OF assms(1)])
  have "node_ids (g\<lparr>adjList := a\<rparr>) = node_ids g" for a by (simp add: node_ids_def)
  then show "wf_build (g\<lparr>adjList := mput p (mget0 [] (adjList g) p @ [i]) (adjList g)\<rparr>)"
    using assms by (simp add: ok_graph_def wf_build_def wf_nodes_def)
qed simp_all

lemma visited_ext:
  assumes "ok_graph g" and "mget0 0 (g_visited g) s < limit"
  shows "ext g (g\<lparr>g_visited := mput s (mget0 0 (g_visited g) s + 1) (g_visited g)\<rparr>)"
proof -
  let ?g = "g\<lparr>g_visited := mput s (mget0 0 (g_visited g) s + 1) (g_visited g)\<rparr>"
  have t: "typ_at ?g = typ_at g" "node_ids ?g = node_ids g"
    by (simp_all add: typ_at_def node_ids_def fun_eq_iff)
  then have n: "node_ok ?g = node_ok g" by (simp add: node_ok_def fun_eq_iff)
  have "wf_build ?g = wf_build g" by (simp add: wf_build_def wf_nodes_def t)
  with assms show ?thesis by (simp add: ext_def ok_graph_def enlarges_def t n)
qed

section \<open>Copies of deferred nodes\<close>

definition deferred_type :: "TypeOfNode \<Rightarrow> bool" where
  "deferred_type t \<longleftrightarrow> t = NUnlock \<or> t = NRUnlock \<or> t = NClose"

lemma Copy_node_ext:
  assumes "ok_graph g" and "deferred_type (typId n)" and "Copy_node E n g = (c, g')"
  shows "ext g g' \<and> node_id c \<in> node_ids g'"
proof -
  have reg: "ext g (UpdateResources E key cg c (updateNodes p c skip g)) \<and>
      node_id c \<in> node_ids (UpdateResources E key cg c (updateNodes p c skip g))"
    if c: "node_id c = next_ID g" "new_ok c" for key cg c p skip
  proof -
    have e: "ext g (updateNodes p c skip g)" using assms(1) c by (rule updateNodes_ext)
    moreover have i: "node_id c \<in> node_ids (updateNodes p c skip g)" using c(1) by (rule updateNodes_ids)
    ultimately have "ext (updateNodes p c skip g) (UpdateResources E key cg c (updateNodes p c skip g))"
      by (intro UpdateResources_ext) (auto dest: ext_ok)
    with e i show ?thesis using ext_trans ext_ids by blast
  qed
  have n: "new_ok (c0\<lparr>unlock_inst := a, lock_ptr := b\<rparr>) = new_ok c0"
    "new_ok (c0\<lparr>ch_name := d, ch_close_inst := e, ch_ptr := f\<rparr>) = new_ok c0" for c0 a b d e f
    by (simp_all add: new_ok_def)
  have "node_id (copied n i) = i \<and> new_ok (copied n i)" for i
    using assms(2) by (auto simp: copied_def new_ok_def zero_node_def deferred_type_def)
  with assms(2,3) show ?thesis
    unfolding Copy_node_def Let_def
    by (auto simp: n deferred_type_def split: if_splits intro: reg [THEN conjunct1] reg [THEN conjunct2])
qed

lemma copyDeferNodes_ext:
  assumes "ok_graph g" and "\<forall>n \<in> set ds. deferred_type (typId n)" and "copyDeferNodes E ds g = (cs, g')"
  shows "ext g g' \<and> (\<forall>c \<in> set cs. node_id c \<in> node_ids g')"
  using assms
proof (induction ds arbitrary: g cs g')
  case (Cons d ds)
  obtain c g1 where c: "Copy_node E d g = (c, g1)" by fastforce
  obtain cs2 g2 where cs: "copyDeferNodes E ds g1 = (cs2, g2)" by fastforce
  have e1: "ext g g1" "node_id c \<in> node_ids g1"
    using Copy_node_ext [OF Cons.prems(1) _ c] Cons.prems(2) by simp_all
  moreover have "ext g1 g2 \<and> (\<forall>c \<in> set cs2. node_id c \<in> node_ids g2)"
    using Cons.IH [OF ext_ok [OF e1(1)] _ cs] Cons.prems(2) by simp
  moreover have "cs = c # cs2" "g' = g2" using Cons.prems(3) c cs by simp_all
  ultimately show ?case using ext_trans [of g g1 g2] ext_ids [of g1 g2] by auto
qed (simp add: ext_refl)

section \<open>Accesses\<close>

lemma nodes_in_stored: "i \<in> nodes_in m \<longleftrightarrow> (\<exists>a k j. stored m k j = Some a \<and> rw_n a = i)"
  unfolding nodes_in_def accesses_at_def ran_def stored_def by blast

lemma nodes_in_record: "nodes_in (record_access k n m) \<subseteq> insert (rw_n n) (nodes_in m)"
proof
  fix i assume "i \<in> nodes_in (record_access k n m)"
  then obtain a k' j where "stored (record_access k n m) k' j = Some a" "rw_n a = i"
    unfolding nodes_in_stored by blast
  then show "i \<in> insert (rw_n n) (nodes_in m)"
    by (cases "k' = k \<and> j = rw_id n") (auto simp: nodes_in_stored)
qed

lemma nodes_in_records: "nodes_in (record_all ks n m) \<subseteq> insert (rw_n n) (nodes_in m)"
proof (induction ks arbitrary: m)
  case (Cons k ks)
  have "nodes_in (record_all ks n (record_access k n m)) \<subseteq> insert (rw_n n) (nodes_in (record_access k n m))"
    by (rule Cons.IH)
  also have "\<dots> \<subseteq> insert (rw_n n) (nodes_in m)" using nodes_in_record [of k n m] by simp
  finally show ?case by (simp add: record_all_def)
qed (simp add: record_all_def subset_insertI)

lemma nodes_in_forgets: "nodes_in (forget_all ks n m) \<subseteq> nodes_in m"
proof
  fix i assume "i \<in> nodes_in (forget_all ks n m)"
  then obtain a k j where "stored (forget_all ks n m) k j = Some a" "rw_n a = i"
    unfolding nodes_in_stored by blast
  then show "i \<in> nodes_in m"
    by (cases "k \<in> set ks \<and> j = rw_id n") (auto simp: nodes_in_stored stored_forgets)
qed

lemma nodes_in_forget: "nodes_in (forget_access k n m) \<subseteq> nodes_in m"
  using nodes_in_forgets [of "[k]" n m] by (simp add: forget_all_def)

lemma access_nodes_UpdateRecords: "access_nodes (UpdateRecords pts n p) \<subseteq> insert (rw_n n) (access_nodes p)"
  using nodes_in_record [of "sprint_ints pts" n "pts2WriteNode p"]
    nodes_in_record [of "sprint_ints pts" n "pts2ReadNode p"]
    nodes_in_records [of pts n "obj2WriteNode p"] nodes_in_records [of pts n "obj2ReadNode p"]
  by (auto simp: UpdateRecords_eq access_nodes_def)

lemma access_nodes_ChangeRead2Write:
  "access_nodes (ChangeRead2Write E n p) \<subseteq> insert (rw_n n) (access_nodes p)"
  using nodes_in_record [of "sprint_ints (rw_pts n)" n "pts2WriteNode p"]
    nodes_in_forget [of "sprint_ints (rw_pts n)" n "pts2ReadNode p"]
    nodes_in_records [of "rw_pts n" n "obj2WriteNode p"] nodes_in_forgets [of "rw_pts n" n "obj2ReadNode p"]
  by (auto simp: ChangeRead2Write_eq access_nodes_def)

text \<open>Changing the records.\<close>

lemma rfgplus_ext:
  assumes "ok_graph g" and "access_nodes p \<subseteq> node_ids g" and "checked p = []" and "races p = []"
  shows "ext g (g\<lparr>rfgplus := p\<rparr>)"
proof -
  have t: "typ_at (g\<lparr>rfgplus := p\<rparr>) = typ_at g" "node_ids (g\<lparr>rfgplus := p\<rparr>) = node_ids g"
    by (simp_all add: typ_at_def node_ids_def fun_eq_iff)
  have "wf_build (g\<lparr>rfgplus := p\<rparr>) = wf_build g" by (simp add: wf_build_def wf_nodes_def t)
  with assms show ?thesis by (simp add: ext_def ok_graph_def enlarges_def node_ok_def t)
qed

lemma UpdateRecords_empty [simp]:
  "checked (UpdateRecords pts n p) = checked p" "races (UpdateRecords pts n p) = races p"
  by (simp_all add: UpdateRecords_eq)

lemma ChangeRead2Write_empty [simp]:
  "checked (ChangeRead2Write E n p) = checked p" "races (ChangeRead2Write E n p) = races p"
  by (simp_all add: ChangeRead2Write_eq)

text \<open>A new case of a select, stored in the select before it is registered.\<close>

lemma add_case_ext:
  assumes g: "ok_graph g" and s: "mget (id2node g) sel = Some s"
    and c: "node_id c = next_ID g" "new_ok c" "typId c \<noteq> NSelect"
  shows "ext g (updateNodes p c skip (modify_node sel (\<lambda>n. n\<lparr>sel_cases := (sel_cases s)[k := Some (node_id c)]\<rparr>) g))"
proof -
  let ?f = "\<lambda>n. n\<lparr>sel_cases := (sel_cases s)[k := Some (node_id c)]\<rparr>"
  let ?m = "modify_node sel ?f g"
  let ?g = "updateNodes p c skip ?m"
  have t: "typ_at ?m = typ_at g" using typ_at_modify [of ?f] by auto
  then have ids: "node_ids ?m = node_ids g" by (auto simp: node_ids_typ)
  have t': "typ_at ?g i = (if i = next_ID g then Some (typId c) else typ_at g i)" for i
    by (simp add: typ_at_updateNodes t)
  have "enlarges g ?g" using fresh_id [OF g] by (auto simp: enlarges_def t')
  moreover have "wf_build ?m" using g by (intro modify_node_wf) (simp_all add: ok_graph_def)
  then have "wf_build ?g" using c by (intro updateNodes_wf) simp_all
  moreover have "node_ok ?g n" if n: "mget (id2node ?g) i = Some n" for i n
  proof (cases "i = next_ID g")
    case True
    with n c show ?thesis by (simp add: node_ok_def new_ok_def)
  next
    case i: False
    have old: "node_ok ?g m" if "mget (id2node g) j = Some m" for j m
    proof (rule node_ok_enlarges [OF _ \<open>enlarges g ?g\<close>])
      show "node_ok g m" using that g by (simp add: ok_graph_def)
    qed
    show ?thesis
    proof (cases "i = sel")
      case True
      with n i s have "n = ?f s" by (simp add: mget_modify_node)
      moreover have "Some x \<in> set ((sel_cases s)[k := Some (node_id c)]) \<Longrightarrow>
          x = node_id c \<or> Some x \<in> set (sel_cases s)" for x
        using set_update_subset_insert [of "sel_cases s" k "Some (node_id c)"] by auto
      moreover have "typ_at ?g (node_id c) = Some (typId c)" by (subst t') (simp add: c(1))
      moreover note old [OF s, unfolded node_ok_def]
      ultimately show ?thesis using c(3) by (simp add: node_ok_def) blast
    next
      case False
      with n i show ?thesis by (intro old) (simp add: mget_modify_node)
    qed
  qed
  moreover have "node_ids ?g = insert (next_ID g) (node_ids g)" by (simp add: node_ids_updateNodes ids)
  ultimately show ?thesis using g by (auto simp: ext_def ok_graph_def)
qed

text \<open>Turning an access into a write.\<close>

lemma retag_n [simp]: "rw_n (retag i r) = rw_n r"
  by (simp add: retag_def)

lemma map_of_values: "map_of (map (\<lambda>(k, v). (k, f v)) m) k = map_option f (map_of m k)"
  by (induction m) auto

lemma stored_retag: "stored (retag_all i m) k j = map_option (retag i) (stored m k j)"
  unfolding stored_def retag_all_def mget0_def
  by (simp add: map_of_values split: option.splits)

lemma nodes_in_retag [simp]: "nodes_in (retag_all i m) = nodes_in m"
proof -
  have "(\<exists>a k j. stored (retag_all i m) k j = Some a \<and> rw_n a = n) \<longleftrightarrow>
      (\<exists>a k j. stored m k j = Some a \<and> rw_n a = n)" for n
    unfolding stored_retag by fastforce
  then show ?thesis by (auto simp: nodes_in_stored)
qed

lemma access_nodes_retag [simp]: "access_nodes (retag_records i p) = access_nodes p"
  by (simp add: access_nodes_def retag_records_def)

section \<open>The invariant of the builder\<close>

definition ok_builder :: "builder \<Rightarrow> bool" where
  "ok_builder b \<longleftrightarrow> ok_graph (bg b) \<and>
     (\<forall>k r. mget (inst2rwnode b) k = Some r \<longrightarrow> rw_n r \<in> node_ids (bg b))"

definition bext :: "builder \<Rightarrow> builder \<Rightarrow> bool" where
  "bext b b' \<longleftrightarrow> ok_builder b' \<and> enlarges (bg b) (bg b')"

lemma bext_refl: "ok_builder b \<Longrightarrow> bext b b"
  by (simp add: bext_def)

lemma bext_trans: "bext a b \<Longrightarrow> bext b c \<Longrightarrow> bext a c"
  unfolding bext_def using enlarges_trans by blast

lemma bext_ok: "bext b b' \<Longrightarrow> ok_builder b'"
  by (simp add: bext_def)

lemma bext_ids: "bext b b' \<Longrightarrow> i \<in> node_ids (bg b) \<Longrightarrow> i \<in> node_ids (bg b')"
  unfolding bext_def using enlarges_ids by blast

lemma ok_builder_graph: "ok_builder b \<Longrightarrow> ok_graph (bg b)"
  by (simp add: ok_builder_def)

lemma bext_graph:
  assumes "ok_builder b" and "ext (bg b) g"
  shows "bext b (b\<lparr>bg := g\<rparr>)"
  using assms ext_ids [OF assms(2)] by (simp add: bext_def ok_builder_def ext_def)

lemma set_write_bext:
  assumes "ok_builder b" shows "bext b (set_write i b)"
proof -
  define h where "h = (bg b)\<lparr>id2node := map (\<lambda>(k, n). (k, n\<lparr>rws := map (retag i) (rws n)\<rparr>)) (id2node (bg b)),
      rfgplus := retag_records i (rfgplus (bg b))\<rparr>"
  note g = ok_builder_graph [OF assms]
  have m: "mget (id2node h) j = map_option (\<lambda>n. n\<lparr>rws := map (retag i) (rws n)\<rparr>) (mget (id2node (bg b)) j)" for j
    using map_of_values [of "\<lambda>n. n\<lparr>rws := map (retag i) (rws n)\<rparr>"] by (simp add: h_def)
  have t: "typ_at h = typ_at (bg b)"
    unfolding typ_at_def m by (auto simp: fun_eq_iff option.map_comp comp_def)
  have n: "node_ids h = node_ids (bg b)" using t by (auto simp: node_ids_typ)
  have f: "adjList h = adjList (bg b)" "resources h = resources (bg b)" "next_ID h = next_ID (bg b)"
    "roots h = roots (bg b)" "g_visited h = g_visited (bg b)" "cache h = cache (bg b)"
    "syncAdjList h = syncAdjList (bg b)" "rfgplus h = retag_records i (rfgplus (bg b))"
    by (simp_all add: h_def)
  have "wf_nodes h" using g unfolding ok_graph_def wf_build_def wf_nodes_def
    by (auto simp: list_all_iff h_def)
  then have "wf_build h" using g by (simp add: ok_graph_def wf_build_def n f)
  moreover have "node_ok h m'" if "mget (id2node h) j = Some m'" for j m'
    using that g unfolding m ok_graph_def node_ok_def t by auto
  moreover have "access_nodes (rfgplus h) \<subseteq> node_ids h" "set (roots h) \<subseteq> node_ids h"
    using g by (simp_all add: n f ok_graph_def)
  ultimately have "ext (bg b) h"
    using g by (simp add: ext_def ok_graph_def enlarges_def t f) (simp add: retag_records_def)
  then have "ok_graph h" "enlarges (bg b) h" by (simp_all add: ext_def)
  moreover have "rw_n r \<in> node_ids h" if "mget (map (\<lambda>(k, r). (k, retag i r)) (inst2rwnode b)) k = Some r" for k r
    using that assms unfolding n ok_builder_def map_of_values by auto
  ultimately show ?thesis by (simp add: bext_def ok_builder_def set_write_def flip: h_def)
qed

lemma write_referrer_bext:
  assumes "ok_builder b" shows "bext b (write_referrer E inst b)"
proof (cases "mget (inst2rwnode b) (inst_id inst)")
  case None
  with assms show ?thesis by (simp add: write_referrer_def bext_refl)
next
  case (Some r)
  let ?b = "set_write (rw_id r) b"
  let ?p = "ChangeRead2Write E (retag (rw_id r) r) (rfgplus (bg ?b))"
  have b: "bext b ?b" using assms by (rule set_write_bext)
  then have ok: "ok_builder ?b" by (simp add: bext_def)
  have "rw_n r \<in> node_ids (bg ?b)" using Some assms b bext_ids unfolding ok_builder_def by blast
  then have "access_nodes ?p \<subseteq> node_ids (bg ?b)"
    using access_nodes_ChangeRead2Write [of E "retag (rw_id r) r" "rfgplus (bg ?b)"]
      ok_builder_graph [OF ok] by (auto simp: ok_graph_def)
  then have "ext (bg ?b) ((bg ?b)\<lparr>rfgplus := ?p\<rparr>)"
    using ok_builder_graph [OF ok] by (intro rfgplus_ext) (simp_all add: ok_graph_def)
  from bext_graph [OF ok this] b show ?thesis
    by (auto simp: write_referrer_def Some Let_def intro: bext_trans)
qed

end
