(* ===== verification/ConstructSteps.thy ===== *)
theory ConstructSteps
  imports ConstructInv
begin

text \<open>
  Every operation of the construction of the graph that does not call the walk keeps the invariant:
  the recording of accesses, and the steps of \<open>DFSBB\<close> that register nodes.
\<close>

section \<open>Recording accesses\<close>

text \<open>Chains of address operands are at most \<open>D\<close> long.\<close>

fun chain_ends :: "program \<Rightarrow> nat \<Rightarrow> ssa_value \<Rightarrow> bool" where
  "chain_ends P 0 v = False"
| "chain_ends P (Suc d) v = (case val_kind P v of
     VFieldAddr f \<Rightarrow> (case val_kind P f of VFieldAddr _ \<Rightarrow> chain_ends P d f | _ \<Rightarrow> True) | _ \<Rightarrow> True)"

lemma recursiveFindFieldAddr_post:
  assumes "ok_builder b" and "chain_ends P d v" and "d \<le> fuel"
  shows "post (bext b) (recursiveFindFieldAddr fuel P E v b)"
  using assms
proof (induction d arbitrary: fuel v b)
  case (Suc d)
  obtain fl where fuel: "fuel = Suc fl" "d \<le> fl" using Suc.prems(3) by (cases fuel) auto
  have fold: "bext b (fold (write_referrer E) is b)" for "is"
    using Suc.prems(1)
  proof (induction "is" arbitrary: b)
    case (Cons i "is")
    have "bext b (write_referrer E i b)" using Cons.prems by (rule write_referrer_bext)
    moreover from this Cons.IH have "bext (write_referrer E i b) (fold (write_referrer E) is (write_referrer E i b))"
      by (simp add: bext_def)
    ultimately show ?case using bext_trans by simp
  qed (simp add: bext_refl)
  show ?case
  proof (cases "\<exists>f x. val_kind P v = VFieldAddr f \<and> val_kind P f = VFieldAddr x")
    case True
    then obtain f x where k: "val_kind P v = VFieldAddr f" "val_kind P f = VFieldAddr x" by blast
    let ?b = "fold (write_referrer E) (Referrers P f) b"
    have "chain_ends P d f" using Suc.prems(2) k by simp
    then have "post (bext ?b) (recursiveFindFieldAddr fl P E f ?b)"
      using Suc.IH [OF bext_ok [OF fold]] fuel(2) by blast
    then have "post (bext b) (recursiveFindFieldAddr fl P E f ?b)"
      by (rule post_mono) (rule bext_trans [OF fold])
    with k fuel show ?thesis by simp
  next
    case False
    then show ?thesis using Suc.prems(1) fuel(1)
      by (auto simp: bext_refl split: value_kind.split)
  qed
qed simp

lemma new_node_ok [simp]: "node_id (new_node g h parent t) = next_ID g" "typId (new_node g h parent t) = t"
  "sel_cases (new_node g h parent t) = []" "ctx_p (new_node g h parent t) = None"
  by (simp_all add: new_node_def zero_node_def)

lemma mild_rws [simp]: "mild (\<lambda>n. n\<lparr>rws := f n\<rparr>)"
  by (simp add: mild_def)

lemma node_ids_modify: "mild f \<Longrightarrow> node_ids (modify_node i f g) = node_ids g"
  using typ_at_modify [of f i g] by (auto simp: node_ids_typ mild_def)

lemma add_access_post:
  assumes b: "ok_builder b" and "prev \<in> node_ids (bg b)"
  shows "post (\<lambda>(r, b'). bext b b' \<and> (\<forall>i. r = Some i \<longrightarrow> i \<in> node_ids (bg b')))
    (add_access prev parent h inst rwn b)"
proof -
  have tail: "bext b (b\<lparr>bg := (modify_node cur (\<lambda>n. n\<lparr>rws := rws n @ [r]\<rparr>) g)\<lparr>rfgplus :=
        UpdateRecords (rw_pts r) r (rfgplus g)\<rparr>,
      inst2rwnode := mput (inst_id inst) r (inst2rwnode b), next_RW := next_RW b + 1\<rparr>) \<and>
    cur \<in> node_ids ((modify_node cur (\<lambda>n. n\<lparr>rws := rws n @ [r]\<rparr>) g)\<lparr>rfgplus := p\<rparr>)"
    if g: "ext (bg b) g" and cur: "cur \<in> node_ids g" "rw_n r = cur" for g cur r p
  proof -
    let ?m = "modify_node cur (\<lambda>n. n\<lparr>rws := rws n @ [r]\<rparr>) g"
    let ?p = "UpdateRecords (rw_pts r) r (rfgplus g)"
    have m: "ext g ?m" "node_ids ?m = node_ids g"
      by (rule modify_node_ext [OF ext_ok [OF g] mild_rws], rule node_ids_modify [OF mild_rws])
    have ok: "ok_graph ?m" using m(1) by (rule ext_ok)
    have "access_nodes ?p \<subseteq> node_ids ?m"
      using access_nodes_UpdateRecords [of "rw_pts r" r "rfgplus g"] ok cur m(2)
      by (auto simp: ok_graph_def)
    then have "ext ?m (?m\<lparr>rfgplus := ?p\<rparr>)"
      using ok by (intro rfgplus_ext) (simp_all add: ok_graph_def)
    with m g have e: "ext (bg b) (?m\<lparr>rfgplus := ?p\<rparr>)" using ext_trans by blast
    have i: "node_ids (?m\<lparr>rfgplus := q\<rparr>) = node_ids g" for q using m(2) by (simp add: node_ids_def)
    have "rw_n s \<in> node_ids g" if "mget (mput (inst_id inst) r (inst2rwnode b)) k = Some s" for k s
      using that b cur ext_ids [OF g] by (auto simp: ok_builder_def split: if_splits)
    with e i cur show ?thesis by (simp add: bext_def ok_builder_def ext_def)
  qed
  note g = ok_builder_graph [OF b]
  let ?c = "new_node (bg b) h parent NRW"
  have "ext (bg b) (updateNodes (Some prev) ?c False (bg b))"
    using g by (intro updateNodes_ext) (simp_all add: new_ok_def)
  moreover have "next_ID (bg b) \<in> node_ids (updateNodes (Some prev) ?c False (bg b))"
    by (simp add: node_ids_updateNodes)
  ultimately show ?thesis
    using tail [of "updateNodes (Some prev) ?c False (bg b)" "next_ID (bg b)" "rwn\<lparr>rw_n := next_ID (bg b)\<rparr>"]
      tail [of "bg b" prev "rwn\<lparr>rw_n := prev\<rparr>"] assms(2) ext_refl [OF g]
    by (simp add: add_access_def Let_def)
qed

lemma visit_access_post:
  assumes b: "ok_builder b" and p: "prev \<in> node_ids (bg b)"
    and c: "\<forall>v. chain_ends P D v" and fuel: "D \<le> fuel"
  shows "post (\<lambda>(r, b'). bext b b' \<and> (\<forall>i. r = Some i \<longrightarrow> i \<in> node_ids (bg b')))
    (visit_access fuel P E inst prev parent h b)"
proof -
  have a: "rw_access inst \<noteq> OutOfFuel"
    by (auto simp: rw_access_def slice_get_def split: instr_kind.splits unop.splits)
  have "post (\<lambda>(r, b'). bext b b' \<and> (\<forall>i. r = Some i \<longrightarrow> i \<in> node_ids (bg b')))
    (bindR (if m then recursiveFindFieldAddr fuel P E ptr b else Ok b) (add_access prev parent h inst rwn))"
    for m ptr rwn
  proof -
    have "post (bext b) (if m then recursiveFindFieldAddr fuel P E ptr b else Ok b)"
      using recursiveFindFieldAddr_post [OF b _ fuel] c b by (simp add: bext_refl)
    then show ?thesis
    proof (simp only: post_bind, elim post_mono)
      fix b1 assume b1: "bext b b1"
      then have "post (\<lambda>(r, b'). bext b1 b' \<and> (\<forall>i. r = Some i \<longrightarrow> i \<in> node_ids (bg b')))
          (add_access prev parent h inst rwn b1)"
        using add_access_post [of b1 prev] bext_ids [OF b1 p] by (simp add: bext_def)
      then show "post (\<lambda>(r, b'). bext b b' \<and> (\<forall>i. r = Some i \<longrightarrow> i \<in> node_ids (bg b')))
          (add_access prev parent h inst rwn b1)"
        by (rule post_mono) (auto intro: bext_trans [OF b1])
    qed
  qed
  then have "post (\<lambda>a. post (\<lambda>(r, b'). bext b b' \<and> (\<forall>i. r = Some i \<longrightarrow> i \<in> node_ids (bg b')))
     (case a of None \<Rightarrow> Ok (None, b) | Some (write, ptr, field) \<Rightarrow>
         let rwn = new_access E b h inst (write, ptr, field) in
         bindR (if marks_enclosing inst then recursiveFindFieldAddr fuel P E ptr b else Ok b)
           (add_access prev parent h inst rwn))) (rw_access inst)"
    using a b by (cases "rw_access inst") (auto simp: bext_refl Let_def split: option.splits simp del: post_bind)
  then show ?thesis by (simp add: visit_access_def)
qed

lemma VisitRWNode_post:
  assumes b: "ok_builder b" and p: "prev \<in> node_ids (bg b)"
    and c: "\<forall>v. chain_ends P D v" and fuel: "D \<le> fuel"
  shows "post (\<lambda>(r, b'). bext b b' \<and> (\<forall>i. r = Some i \<longrightarrow> i \<in> node_ids (bg b')))
    (VisitRWNode fuel P E inst prev parent h b)"
proof -
  have "post (bext b) (loopR (\<lambda>ret b. case val_instr P ret of None \<Rightarrow> Ok b
      | Some rinst \<Rightarrow> bindR (visit_access fuel P E rinst prev parent h b) (\<lambda>(_, b). Ok b)) rs b)" for rs
  proof (rule post_loop)
    fix x u assume u: "bext b u"
    then have u': "ok_builder u" "prev \<in> node_ids (bg u)" using bext_ids [OF u p] by (simp_all add: bext_def)
    show "post (bext b) (case val_instr P x of None \<Rightarrow> Ok u
      | Some rinst \<Rightarrow> bindR (visit_access fuel P E rinst prev parent h u) (\<lambda>(_, b). Ok b))"
    proof (cases "val_instr P x")
      case (Some i)
      have "post (\<lambda>x. post (bext b) (case x of (_, b) \<Rightarrow> Ok b)) (visit_access fuel P E i prev parent h u)"
        by (rule post_mono [OF visit_access_post [OF u' c fuel]]) (auto intro: bext_trans [OF u])
      then show ?thesis using Some by simp
    qed (use u in simp)
  qed (use b in \<open>rule bext_refl\<close>)
  then show ?thesis
    using visit_access_post [OF assms] by (auto simp: VisitRWNode_def split: instr_kind.split)
qed

section \<open>The invariant of a walk\<close>

text \<open>The texts of the instructions, and the signatures \<open>getSig\<close> can give.\<close>

definition texts :: "program \<Rightarrow> cg_node list \<Rightarrow> string list" where
  "texts P ns = concat (map (\<lambda>n. concat (map (\<lambda>bb. map inst_str (bb_instrs bb)) (fn_blocks P n))) ns)"

definition sigs :: "program \<Rightarrow> cg_node list \<Rightarrow> string list" where
  "sigs P ns = concat (map (\<lambda>n. cg_func n #
     map (\<lambda>s. s @ CHR ''@'' # cg_func n @ CHR ''@'' # cg_ctx P n) (texts P ns)) ns)"

text \<open>How many more visits the limit allows, and the blocks of a function that are left.\<close>

definition budget :: "program \<Rightarrow> cg_node list \<Rightarrow> RFGraph \<Rightarrow> nat" where
  "budget P ns g = (\<Sum>s \<in> set (sigs P ns). nat (limit - mget0 0 (g_visited g) s))"

definition unskipped :: "basic_block list \<Rightarrow> creatorHelper \<Rightarrow> nat" where
  "unskipped bbs h = card {i. in_range bbs i \<and> \<not> mget0 False (skips h) i}"

definition block_count :: "program \<Rightarrow> cg_node list \<Rightarrow> nat" where
  "block_count P ns = sum_list (map (length \<circ> fn_blocks P) ns)"

text \<open>The program, its functions, the length of chains of addresses, and the fuel that is left.\<close>

record bounds =
  prog :: program
  funs :: "cg_node list"
  chains :: nat
  fuel_left :: nat

definition dfs_need :: "bounds \<Rightarrow> RFGraph \<Rightarrow> nat" where
  "dfs_need K g = budget (prog K) (funs K) g * (block_count (prog K) (funs K) + 2) + chains K"

definition bb_need :: "bounds \<Rightarrow> walk \<Rightarrow> nat" where
  "bb_need K w = dfs_need K (graph w) + unskipped (fn_blocks (prog K) (here w)) (helper w) + 1"

definition deferred_ok :: "RFGraph \<Rightarrow> creatorHelper \<Rightarrow> bool" where
  "deferred_ok g h \<longleftrightarrow> (\<forall>i \<in> set (defer_unlocks h) \<union> set (defer_closes h).
     \<exists>t. typ_at g i = Some t \<and> deferred_type t)"

definition good :: "bounds \<Rightarrow> walk \<Rightarrow> bool" where
  "good K w \<longleftrightarrow> ok_builder (build w) \<and> prev_node w \<in> node_ids (graph w) \<and> cur_node w \<in> node_ids (graph w) \<and>
     deferred_ok (graph w) (helper w) \<and> here w \<in> set (funs K) \<and> bb_need K w \<le> fuel_left K"

definition later :: "walk \<Rightarrow> walk \<Rightarrow> bool" where
  "later w w' \<longleftrightarrow> enlarges (graph w) (graph w') \<and> here w' = here w \<and>
     (\<forall>i. mget0 False (skips (helper w)) i \<longrightarrow> mget0 False (skips (helper w')) i)"

definition goes :: "bounds \<Rightarrow> walk \<Rightarrow> walk \<Rightarrow> bool" where
  "goes K w w' \<longleftrightarrow> good K w' \<and> later w w'"

abbreviation run :: "bounds \<Rightarrow> walk \<Rightarrow> walk res \<Rightarrow> bool" where
  "run K w \<equiv> post (goes K w)"

lemma later_refl [simp]: "later w w"
  by (simp add: later_def)

lemma later_trans: "later u v \<Longrightarrow> later v w \<Longrightarrow> later u w"
  unfolding later_def using enlarges_trans by auto

lemma goes_refl: "good K w \<Longrightarrow> goes K w w"
  by (simp add: goes_def)

lemma goes_trans: "goes K u v \<Longrightarrow> goes K v w \<Longrightarrow> goes K u w"
  unfolding goes_def using later_trans by blast

lemma goes_good: "goes K w v \<Longrightarrow> good K v"
  by (simp add: goes_def)

lemma goes_ids: "goes K w v \<Longrightarrow> i \<in> node_ids (graph w) \<Longrightarrow> i \<in> node_ids (graph v)"
  unfolding goes_def later_def using enlarges_ids by blast

lemma goes_typ: "goes K w v \<Longrightarrow> typ_at (graph w) i = Some t \<Longrightarrow> typ_at (graph v) i = Some t"
  unfolding goes_def later_def using enlarges_typ by blast

lemma goes_here: "goes K w v \<Longrightarrow> here v = here w"
  by (simp add: goes_def later_def)

lemma good_graph: "good K w \<Longrightarrow> ok_graph (graph w)"
  by (simp add: good_def ok_builder_def)

lemma run_bind:
  assumes "run K w r" and "\<And>v. goes K w v \<Longrightarrow> good K v \<Longrightarrow> run K v (f v)"
  shows "run K w (bindR r f)"
  unfolding post_bind using assms(1)
proof (rule post_mono)
  fix v assume v: "goes K w v"
  then have "run K v (f v)" using assms(2) goes_good by blast
  then show "run K w (f v)" by (rule post_mono) (rule goes_trans [OF v])
qed

lemma run_loop:
  assumes "good K w" and "\<And>x v. x \<in> set xs \<Longrightarrow> goes K w v \<Longrightarrow> good K v \<Longrightarrow> run K v (body x v)"
  shows "run K w (loopR body xs w)"
proof (rule post_loop)
  fix x v assume x: "x \<in> set xs" and v: "goes K w v"
  have "run K v (body x v)" using assms(2) [OF x v] v goes_good by blast
  then show "run K w (body x v)" by (rule post_mono) (rule goes_trans [OF v])
qed (use assms(1) in \<open>rule goes_refl\<close>)

lemma goes_fold:
  assumes "good K w" and "\<And>x v. x \<in> set xs \<Longrightarrow> good K v \<Longrightarrow> goes K v (f x v)"
  shows "goes K w (fold f xs w)"
  using assms
proof (induction xs arbitrary: w)
  case (Cons x xs)
  have "goes K w (f x w)" using Cons.prems by simp
  moreover from this have "goes K (f x w) (fold f xs (f x w))"
    using Cons.IH Cons.prems(2) goes_good by simp
  ultimately show ?case using goes_trans by simp
qed (simp add: goes_refl)

text \<open>The fuel needed does not grow.\<close>

lemma budget_mono: "enlarges g g' \<Longrightarrow> budget P ns g' \<le> budget P ns g"
  unfolding budget_def enlarges_def by (intro sum_mono nat_mono) simp

lemma dfs_need_mono: "enlarges g g' \<Longrightarrow> dfs_need K g' \<le> dfs_need K g"
  unfolding dfs_need_def by (intro add_mono mult_mono budget_mono) auto

lemma finite_blocks [simp]: "finite {i. in_range bbs i \<and> Q i}"
  by (rule finite_subset [of _ "{0..<int (length bbs)}"]) (auto simp: in_range_def)

lemma unskipped_mono:
  "(\<forall>i. mget0 False (skips h) i \<longrightarrow> mget0 False (skips h') i) \<Longrightarrow> unskipped bbs h' \<le> unskipped bbs h"
  unfolding unskipped_def by (rule card_mono) auto

lemma bb_need_later: "later w w' \<Longrightarrow> bb_need K w' \<le> bb_need K w"
  unfolding bb_need_def later_def using dfs_need_mono unskipped_mono by (simp add: add_mono)

lemma deferred_ok_enlarges: "deferred_ok g h \<Longrightarrow> enlarges g g' \<Longrightarrow> deferred_ok g' h"
  unfolding deferred_ok_def using enlarges_typ by blast

text \<open>What a step may do to the graph, the position and the helper.\<close>

lemma build_goes:
  assumes w: "good K w" and b: "bext (build w) b"
  shows "goes K w (w\<lparr>build := b\<rparr>)"
proof -
  have l: "later w (w\<lparr>build := b\<rparr>)" using b by (simp add: later_def bext_def)
  have "deferred_ok (bg b) (helper w)"
    using w b deferred_ok_enlarges unfolding good_def bext_def by blast
  then show ?thesis
    using w l b bb_need_later [OF l, of K] bext_ids [OF b] by (simp add: goes_def good_def bext_def)
qed

lemma on_graph_goes: "good K w \<Longrightarrow> ext (graph w) (f (graph w)) \<Longrightarrow> goes K w (on_graph f w)"
  unfolding on_graph_def by (rule build_goes, assumption, rule bext_graph) (simp_all add: good_def)

lemma bb_need_position [simp]: "bb_need K (w\<lparr>prev_node := i\<rparr>) = bb_need K w"
  "bb_need K (w\<lparr>cur_node := i\<rparr>) = bb_need K w"
  by (simp_all add: bb_need_def)

lemma prev_goes: "good K w \<Longrightarrow> i \<in> node_ids (graph w) \<Longrightarrow> goes K w (w\<lparr>prev_node := i\<rparr>)"
  by (simp add: goes_def good_def later_def)

lemma cur_goes: "good K w \<Longrightarrow> i \<in> node_ids (graph w) \<Longrightarrow> goes K w (w\<lparr>cur_node := i\<rparr>)"
  by (simp add: goes_def good_def later_def)

lemma move_goes: "good K w \<Longrightarrow> i \<in> node_ids (graph w) \<Longrightarrow> goes K w (w\<lparr>prev_node := i, cur_node := i\<rparr>)"
  by (simp add: goes_def good_def later_def)

lemma helper_goes:
  assumes w: "good K w" and c: "cur_cgnode (f (helper w)) = here w"
    and s: "\<forall>i. mget0 False (skips (helper w)) i \<longrightarrow> mget0 False (skips (f (helper w))) i"
    and d: "deferred_ok (graph w) (f (helper w))"
  shows "goes K w (on_helper f w)"
proof -
  have l: "later w (on_helper f w)" using c s by (simp add: later_def on_helper_def)
  then show ?thesis using w c d bb_need_later [OF l, of K] by (simp add: goes_def good_def on_helper_def)
qed

lemma good_deferred: "good K w \<Longrightarrow> deferred_ok (graph w) (helper w)"
  by (simp add: good_def)

section \<open>Registering nodes on a walk\<close>

definition fresh_for :: "walk \<Rightarrow> node \<Rightarrow> bool" where
  "fresh_for w n \<longleftrightarrow> node_id n = next_ID (graph w) \<and> new_ok n"

lemma fresh_fields [simp]: "node_id (fresh w parent t) = next_ID (graph w)" "typId (fresh w parent t) = t"
  "sel_cases (fresh w parent t) = []" "ctx_p (fresh w parent t) = None"
  by (simp_all add: fresh_def)

lemma register_ext:
  assumes "good K w" and "fresh_for w n"
  shows "ext (graph w) (updateNodes p n skip (graph w))"
    "node_id n \<in> node_ids (updateNodes p n skip (graph w))"
    "typ_at (updateNodes p n skip (graph w)) (node_id n) = Some (typId n)"
  using assms updateNodes_ext updateNodes_ids good_graph
  by (auto simp: fresh_for_def typ_at_updateNodes)

text \<open>Register a node, then do more to the graph with it.\<close>

lemma register_more:
  assumes w: "good K w" and n: "fresh_for w n"
    and f: "\<And>g. ok_graph g \<Longrightarrow> node_id n \<in> node_ids g \<Longrightarrow> ext g (f g)"
  shows "goes K w (on_graph (\<lambda>g. f (updateNodes p n skip g)) w)"
    "node_id n \<in> node_ids (graph (on_graph (\<lambda>g. f (updateNodes p n skip g)) w))"
    "typ_at (graph (on_graph (\<lambda>g. f (updateNodes p n skip g)) w)) (node_id n) = Some (typId n)"
proof -
  note r = register_ext [OF w n, of p skip]
  have e: "ext (updateNodes p n skip (graph w)) (f (updateNodes p n skip (graph w)))"
    using f ext_ok [OF r(1)] r(2) by blast
  then show "goes K w (on_graph (\<lambda>g. f (updateNodes p n skip g)) w)"
    by (rule on_graph_goes [OF w ext_trans [OF r(1)]])
  show "node_id n \<in> node_ids (graph (on_graph (\<lambda>g. f (updateNodes p n skip g)) w))"
    using ext_ids [OF e r(2)] by (simp add: on_graph_def)
  show "typ_at (graph (on_graph (\<lambda>g. f (updateNodes p n skip g)) w)) (node_id n) = Some (typId n)"
    using e r(3) by (simp add: on_graph_def ext_def enlarges_def)
qed

lemma register_goes:
  assumes "good K w" and "fresh_for w n"
  shows "goes K w (on_graph (updateNodes p n skip) w)"
    "node_id n \<in> node_ids (graph (on_graph (updateNodes p n skip) w))"
  using register_more [OF assms, of "\<lambda>g. g" p skip] ext_refl by simp_all

lemma append_user_goes:
  assumes "good K w" and "fresh_for w n"
  shows "goes K w (append_user E ptr n skip w)" "node_id n \<in> node_ids (graph (append_user E ptr n skip w))"
    "typ_at (graph (append_user E ptr n skip w)) (node_id n) = Some (typId n)"
  unfolding append_user_def
  by (rule register_more [OF assms]; rule UpdateResources_ext; assumption)+

lemma advance_goes: "goes K w v \<Longrightarrow> node_id n \<in> node_ids (graph v) \<Longrightarrow> goes K w (advance n v)"
  unfolding advance_def using goes_trans move_goes goes_good by blast

lemma append_sync_node_goes: "good K w \<Longrightarrow> fresh_for w n \<Longrightarrow> goes K w (append_sync_node E ptr n w)"
  unfolding append_sync_node_def by (intro advance_goes append_user_goes)

lemma append_node_goes: "good K w \<Longrightarrow> fresh_for w n \<Longrightarrow> goes K w (append_node n w)"
  unfolding append_node_def by (intro advance_goes register_goes)

lemma createLockNode_goes:
  assumes w: "good K w" and t: "t \<noteq> NCancel"
  shows "goes K w (createLockNode E parent call inst t w)"
proof -
  obtain ptr u where o: "lock_operand call t NRLock = (ptr, u)" by fastforce
  let ?n = "(fresh w parent u)\<lparr>lock_inst := Some inst, lock_ptr := Some ptr\<rparr>"
  have "u \<in> {t, NRLock}" using o by (auto simp: lock_operand_def split: list.splits)
  with t have n: "fresh_for w ?n" by (auto simp: fresh_for_def new_ok_def)
  note a = append_user_goes [OF w n, of E ptr False]
  from goes_trans [OF a(1) prev_goes [OF goes_good [OF a(1)] a(2)]] show ?thesis
    by (simp add: createLockNode_def o Let_def)
qed

lemma createUnlockNode_goes:
  assumes w: "good K w" and t: "t \<in> {NUnlock, NRUnlock}"
    and c: "createUnlockNode E parent call inst t skip w = (i, v)"
  shows "goes K w v" "i \<in> node_ids (graph v)" "\<exists>u. typ_at (graph v) i = Some u \<and> deferred_type u"
proof -
  obtain ptr u where o: "lock_operand call t NRUnlock = (ptr, u)" by fastforce
  let ?n = "(fresh w parent u)\<lparr>unlock_inst := Some inst, lock_ptr := Some ptr, from_defer := skip\<rparr>"
  have u: "u \<in> {NUnlock, NRUnlock}" using o t by (auto simp: lock_operand_def split: list.splits)
  then have n: "fresh_for w ?n" by (auto simp: fresh_for_def new_ok_def)
  have v: "v = append_user E ptr ?n skip w" "i = node_id ?n"
    using c by (simp_all add: createUnlockNode_def o Let_def)
  have "deferred_type (typId ?n)" using u by (auto simp: deferred_type_def)
  then show "goes K w v" "i \<in> node_ids (graph v)" "\<exists>u. typ_at (graph v) i = Some u \<and> deferred_type u"
    unfolding v using append_user_goes [OF w n, of E ptr skip] by blast+
qed

lemma createChannelClose_goes:
  assumes w: "good K w"
  shows "post (\<lambda>(c, v). goes K w v \<and> node_id c \<in> node_ids (graph v) \<and>
      typ_at (graph v) (node_id c) = Some NClose) (createChannelClose E parent call inst skip w)"
proof -
  have "goes K w v \<and> node_id c \<in> node_ids (graph v) \<and> typ_at (graph v) (node_id c) = Some NClose"
    if n: "node_id c = next_ID (graph w)" "new_ok c" "typId c = NClose" and v: "v = on_graph
      (\<lambda>g. updateNodes (Some (prev_node w)) c skip (UpdateResources E (Some ch) (here w) c g)) w" for ch c v
  proof -
    have "goes K w v" unfolding v by (rule on_graph_goes [OF w], rule close_ext [OF good_graph [OF w] n(1,2)])
    with n show ?thesis by (simp add: v on_graph_def node_ids_updateNodes typ_at_updateNodes)
  qed
  then show ?thesis by (simp add: createChannelClose_def Let_def fresh_for_def new_ok_def)
qed

lemma updateWGDone_run:
  assumes w: "good K w" shows "run K w (updateWGDone parent call inst w)"
proof -
  have "goes K w (advance n (on_graph (\<lambda>g.
          let g = g\<lparr>tid2wg_pts := mput tid pts (tid2wg_pts g)\<rparr>;
              g = updateNodes (Some (prev_node w)) n False g;
              g = g\<lparr>tid2end := mput tid (node_id n) (tid2end g)\<rparr>
          in fold (\<lambda>obj. UpdateResourcesInner obj n) pts g) w))"
    if n: "fresh_for w n" for n pts tid
  proof -
    let ?g0 = "(graph w)\<lparr>tid2wg_pts := mput tid pts (tid2wg_pts (graph w))\<rparr>"
    let ?g1 = "updateNodes (Some (prev_node w)) n False ?g0"
    let ?g2 = "?g1\<lparr>tid2end := mput tid (node_id n) (tid2end ?g1)\<rparr>"
    have g0: "ext (graph w) ?g0" using good_graph [OF w] by (simp add: ext_refl)
    have "ext ?g0 ?g1" using n by (intro updateNodes_ext [OF ext_ok [OF g0]]) (simp_all add: fresh_for_def)
    then have "ext ?g0 ?g2" by simp
    then have g2: "ext (graph w) ?g2" by (rule ext_trans [OF g0])
    have i: "node_id n \<in> node_ids ?g2"
      using n by (auto simp: node_ids_typ typ_at_def fresh_for_def)
    from UpdateResourcesInner_fold_ext [OF ext_ok [OF g2] i, of pts]
    have e: "ext ?g2 (fold (\<lambda>obj. UpdateResourcesInner obj n) pts ?g2)" .
    have "goes K w (on_graph (\<lambda>g.
          let g = g\<lparr>tid2wg_pts := mput tid pts (tid2wg_pts g)\<rparr>;
              g = updateNodes (Some (prev_node w)) n False g;
              g = g\<lparr>tid2end := mput tid (node_id n) (tid2end g)\<rparr>
          in fold (\<lambda>obj. UpdateResourcesInner obj n) pts g) w)"
      using on_graph_goes [OF w] ext_trans [OF g2 e] by (simp add: Let_def)
    then show ?thesis using ext_ids [OF e i] by (intro advance_goes) (simp_all add: on_graph_def Let_def)
  qed
  then show ?thesis by (simp add: updateWGDone_def Let_def fresh_for_def new_ok_def)
qed

lemma build_move_goes:
  assumes "good K w" and "bext (build w) b" and "i \<in> node_ids (bg b)"
  shows "goes K w (w\<lparr>build := b, prev_node := i, cur_node := i\<rparr>)"
  using goes_trans [OF build_goes [OF assms(1,2)] move_goes [OF goes_good [OF build_goes [OF assms(1,2)]]]]
    assms(3) by simp

lemma step_rw_run:
  assumes w: "good K w" and c: "\<forall>v. chain_ends P (chains K) v" and f: "chains K \<le> fuel"
  shows "run K w (step_rw fuel P E parent inst w)"
proof -
  have b: "ok_builder (build w)" "prev_node w \<in> node_ids (graph w)" using w by (simp_all add: good_def)
  have "post (\<lambda>x. goes K w (case fst x of None \<Rightarrow> w\<lparr>build := snd x\<rparr>
      | Some i \<Rightarrow> w\<lparr>build := snd x, prev_node := i, cur_node := i\<rparr>))
    (VisitRWNode fuel P E inst (prev_node w) parent (helper w) (build w))"
    by (rule post_mono [OF VisitRWNode_post [OF b c f]])
      (auto split: option.split intro: build_goes [OF w] build_move_goes [OF w])
  then show ?thesis
    using goes_refl [OF w] by (simp add: step_rw_def Let_def case_prod_beta)
qed

section \<open>Contexts\<close>

lemma cancel_round_goes:
  assumes w: "good K w" and p: "prev \<in> node_ids (graph w)" and r: "cancel_round parent inst obj (prev, w) = (p', v)"
  shows "goes K w v \<and> p' \<in> node_ids (graph v)"
proof (cases "mget (contexts (graph w)) (obj - 3)")
  case None
  with r w p show ?thesis by (auto simp: cancel_round_def goes_refl)
next
  case (Some c)
  let ?n = "(fresh w parent NCancel)\<lparr>ctx_name := pair_loc c, cancel_inst := Some inst, ctx_p := Some c,
      is_cancel := True\<rparr>"
  have n: "fresh_for w ?n" by (simp add: fresh_for_def new_ok_def)
  let ?v = "on_graph (\<lambda>g. UpdateResourcesInner (obj - 3) ?n (updateNodes (Some prev) ?n False g)) w"
  have v: "goes K w ?v" "node_id ?n \<in> node_ids (graph ?v)"
    by (rule register_more [OF w n], rule UpdateResourcesInner_ext; assumption)+
  have "(p', v) = (node_id ?n, ?v\<lparr>cur_node := node_id ?n\<rparr>)"
    using r by (auto simp: cancel_round_def Some Let_def)
  then show ?thesis using goes_trans [OF v(1) cur_goes [OF goes_good [OF v(1)] v(2)]] v(2) by simp
qed

lemma checkCtxCancel_run:
  assumes "good K w" and "prev \<in> node_ids (graph w)"
  shows "run K w (checkCtxCancel parent inst call prev w)"
proof -
  have "goes K w (snd (fold (cancel_round parent inst) objs (prev, w))) \<and>
      fst (fold (cancel_round parent inst) objs (prev, w)) \<in> node_ids (graph (snd (fold (cancel_round parent inst) objs (prev, w))))"
    for objs using assms
  proof (induction objs arbitrary: prev w)
    case (Cons obj objs)
    obtain p' v where r: "cancel_round parent inst obj (prev, w) = (p', v)" by fastforce
    with cancel_round_goes [OF Cons.prems r] Cons.IH [of v p'] show ?case
      using goes_good goes_trans by fastforce
  qed (simp add: goes_refl)
  with assms(1) show ?thesis by (simp add: checkCtxCancel_def Let_def goes_refl)
qed

lemma done_round_goes:
  assumes w: "good K w" shows "goes K w (done_round parent call obj w)"
proof (cases "mget (contexts (graph w)) obj")
  case (Some p)
  let ?d = "(fresh w parent NCtxDone)\<lparr>ctx_name := pair_loc p, done_inst := Some call, ctx_p := Some p\<rparr>"
  have "fresh_for w ?d" by (simp add: fresh_for_def new_ok_def)
  from register_more(1) [OF w this, of "UpdateResourcesInner obj ?d" "Some (prev_node w)" False]
  show ?thesis using UpdateResourcesInner_ext by (simp add: done_round_def Some Let_def)
qed (use w in \<open>simp add: done_round_def goes_refl\<close>)

lemma checkCtxDone_run:
  assumes "good K w" shows "post (\<lambda>x. goes K w (snd x)) (checkCtxDone parent bb j w)"
  using assms goes_fold [of K w _ "done_round parent _"] done_round_goes
  by (auto simp: checkCtxDone_def goes_refl split: option.split)

section \<open>Deferred operations\<close>

lemma nodes_of_post:
  "post (\<lambda>ns. \<forall>n \<in> set ns. \<exists>i \<in> set ids. mget (id2node g) i = Some n) (nodes_of g ids)"
  unfolding nodes_of_def by (rule post_loop) auto

lemma link_copy_goes:
  assumes w: "good K w" and i: "node_id c \<in> node_ids (graph w)"
  shows "goes K w (link_copy c w)"
proof -
  let ?w = "on_graph (\<lambda>g. g\<lparr>adjList := mput (Some (prev_node w))
             (mget0 [] (adjList g) (Some (prev_node w)) @ [node_id c]) (adjList g)\<rparr>) w"
  have "goes K w ?w" by (rule on_graph_goes [OF w], rule add_edge_ext [OF good_graph [OF w] i])
  moreover from this have "goes K ?w (?w\<lparr>prev_node := node_id c\<rparr>)"
    using goes_good goes_ids i by (intro prev_goes) blast+
  ultimately have "goes K w (?w\<lparr>prev_node := node_id c\<rparr>)" by (rule goes_trans)
  then show ?thesis using goes_refl [OF w] by (simp add: link_copy_def)
qed

lemma run_copies_run:
  assumes w: "good K w" and ids: "\<forall>i \<in> set ids. \<exists>t. typ_at (graph w) i = Some t \<and> deferred_type t"
  shows "run K w (run_copies E ids w)"
proof -
  have "goes K w (fold link_copy (rev cs) (on_graph (\<lambda>_. g) w))"
    if ns: "\<forall>n \<in> set ns. \<exists>i \<in> set ids. mget (id2node (graph w)) i = Some n"
      and c: "copyDeferNodes E ns (graph w) = (cs, g)" for ns cs g
  proof -
    have "\<forall>n \<in> set ns. deferred_type (typId n)" using ns ids by (fastforce simp: typ_at_def)
    from copyDeferNodes_ext [OF good_graph [OF w] this c]
    have g: "ext (graph w) g" "\<forall>c \<in> set cs. node_id c \<in> node_ids g" by blast+
    have v: "goes K w (on_graph (\<lambda>_. g) w)" using g(1) by (intro on_graph_goes [OF w])
    have "goes K v (fold link_copy bs v)"
      if "good K v" "\<forall>c \<in> set bs. node_id c \<in> node_ids (graph v)" for bs v
      using that
    proof (induction bs arbitrary: v)
      case (Cons b bs)
      have "goes K v (link_copy b v)" using Cons.prems by (intro link_copy_goes) auto
      moreover from this have "goes K (link_copy b v) (fold link_copy bs (link_copy b v))"
        using Cons.IH Cons.prems(2) goes_good goes_ids by (metis list.set_intros(2))
      ultimately show ?case using goes_trans by simp
    qed (simp add: goes_refl)
    from this [OF goes_good [OF v], of "rev cs"] g(2) v show ?thesis
      using goes_trans by (fastforce simp: on_graph_def)
  qed
  then show ?thesis unfolding run_copies_def post_bind
    by (intro post_mono [OF nodes_of_post]) (auto split: prod.split)
qed

lemma push_goes:
  assumes w: "good K w"
  shows "goes K w (push_call call w)"
    "\<exists>t. typ_at (graph w) i = Some t \<and> deferred_type t \<Longrightarrow>
     goes K w (on_helper (\<lambda>h. h\<lparr>defer_unlocks := defer_unlocks h @ [i]\<rparr>) w)"
    "\<exists>t. typ_at (graph w) i = Some t \<and> deferred_type t \<Longrightarrow>
     goes K w (on_helper (\<lambda>h. h\<lparr>defer_closes := defer_closes h @ [i]\<rparr>) w)"
  using good_deferred [OF w] unfolding push_call_def
  by (auto intro!: helper_goes [OF w] simp: deferred_ok_def)

lemma step_Defer_run:
  assumes w: "good K w" shows "run K w (step_Defer E parent inst call w)"
proof -
  have u: "goes K w (push_unlock (createUnlockNode E parent call inst t True w))" if "t \<in> {NUnlock, NRUnlock}" for t
  proof -
    obtain i v where c: "createUnlockNode E parent call inst t True w = (i, v)" by fastforce
    note v = createUnlockNode_goes [OF w that c]
    from goes_trans [OF v(1) push_goes(2) [OF goes_good [OF v(1)] v(3)]] show ?thesis
      by (simp add: push_unlock_def c)
  qed
  have c: "post (\<lambda>x. goes K w (on_helper (\<lambda>h. h\<lparr>defer_closes := defer_closes h @ [node_id (fst x)]\<rparr>) (snd x)))
    (createChannelClose E parent call inst True w)"
  proof (rule post_mono [OF createChannelClose_goes [OF w]])
    fix x assume "case x of (c, v) \<Rightarrow> goes K w v \<and> node_id c \<in> node_ids (graph v) \<and>
      typ_at (graph v) (node_id c) = Some NClose"
    then have v: "goes K w (snd x)" "typ_at (graph (snd x)) (node_id (fst x)) = Some NClose" by auto
    have "\<exists>t. typ_at (graph (snd x)) (node_id (fst x)) = Some t \<and> deferred_type t"
      using v(2) by (simp add: deferred_type_def)
    from goes_trans [OF v(1) push_goes(3) [OF goes_good [OF v(1)] this]]
    show "goes K w (on_helper (\<lambda>h. h\<lparr>defer_closes := defer_closes h @ [node_id (fst x)]\<rparr>) (snd x))" .
  qed
  have d: "goes K w (on_graph (\<lambda>g. g\<lparr>tid2wg_pts := mput i p (tid2wg_pts g)\<rparr>) w)" for i p
    by (rule on_graph_goes [OF w]) (simp add: ext_refl good_graph [OF w])
  show ?thesis
    using u [of NUnlock] u [of NRUnlock] c d push_goes(1) [OF w]
    by (simp add: step_Defer_def Let_def case_prod_beta)
qed

end
