(* ===== verification/ConstructWalk.thy ===== *)
theory ConstructWalk
  imports ConstructSteps
begin

text \<open>
  The operations of the construction that call the walk keep the invariant if the walk does: calls,
  goroutines, selects, blocks and functions.
\<close>

section \<open>Programs\<close>

text \<open>
  The functions \<open>ns\<close> contain the callees of their calls and of all closures; their blocks are numbered by
  position, and the second successor that continues a select lies further on.
\<close>

definition forward_selects :: "basic_block list \<Rightarrow> bool" where
  "forward_selects bbs \<longleftrightarrow> (\<forall>k bb i j rest nx. in_range bbs k \<longrightarrow> bb = bbs ! nat k \<longrightarrow>
     bb_succs bb = i # j # rest \<longrightarrow> in_range bbs j \<longrightarrow> nx = bbs ! nat j \<longrightarrow>
     select_next (bb_comment nx) \<longrightarrow> k < j)"

definition program_ok :: "bounds \<Rightarrow> bool" where
  "program_ok K \<longleftrightarrow>
     (\<forall>n \<in> set (funs K). (\<forall>e \<in> set (cg_out (prog K) n). edge_callee e \<in> set (funs K)) \<and>
        wf_function (fn_blocks (prog K) n) \<and> forward_selects (fn_blocks (prog K) n) \<and>
        (\<forall>k. in_range (fn_blocks (prog K) n) k \<longrightarrow> bb_index (fn_blocks (prog K) n ! nat k) = k)) \<and>
     (\<forall>obj c. GetCalleeByID (prog K) obj = Some c \<longrightarrow> c \<in> set (funs K)) \<and>
     (\<forall>v. chain_ends (prog K) (chains K) v)"

definition known :: "bounds \<Rightarrow> instruction option \<Rightarrow> bool" where
  "known K inst \<longleftrightarrow> (\<forall>i. inst = Some i \<longrightarrow> inst_str i \<in> set (texts (prog K) (funs K)))"

lemma known_None [simp]: "known K None"
  by (simp add: known_def)

section \<open>What the walk promises\<close>

text \<open>The walk of a function that may be visited, and of a block, from any place with fuel left.\<close>

definition dfs_ok :: "bounds \<Rightarrow> dfs_fn \<Rightarrow> bool" where
  "dfs_ok K dfs \<longleftrightarrow> (\<forall>w callee prev inst thread. good K w \<longrightarrow> prev \<in> node_ids (graph w) \<longrightarrow>
     callee \<in> set (funs K) \<longrightarrow> known K inst \<longrightarrow> visits (prog K) (site_of inst) (Some callee) w = Ok True \<longrightarrow>
     post (\<lambda>x. goes K w (snd (snd x)) \<and> fst x \<in> node_ids (graph (snd (snd x))) \<and>
         fst (snd x) \<in> node_ids (graph (snd (snd x)))) (call_DFS dfs callee prev inst thread w))"

definition bb_ok :: "bounds \<Rightarrow> bb_fn \<Rightarrow> bool" where
  "bb_ok K dfsbb \<longleftrightarrow> (\<forall>w i parent prev. good K w \<longrightarrow> prev \<in> node_ids (graph w) \<longrightarrow>
     post (\<lambda>x. goes K w (snd x) \<and> fst x \<in> node_ids (graph (snd x))) (walk_bb dfsbb i parent prev w))"

lemma dfs_okD:
  assumes "dfs_ok K dfs" and "good K w" and "prev \<in> node_ids (graph w)" and "callee \<in> set (funs K)"
    and "known K inst" and "visits (prog K) (site_of inst) (Some callee) w = Ok True"
  shows "post (\<lambda>x. goes K w (snd (snd x)) \<and> fst x \<in> node_ids (graph (snd (snd x))) \<and>
         fst (snd x) \<in> node_ids (graph (snd (snd x)))) (call_DFS dfs callee prev inst thread w)"
  using assms unfolding dfs_ok_def by blast

lemma bb_okD:
  assumes "bb_ok K dfsbb" and "good K w" and "prev \<in> node_ids (graph w)"
  shows "post (\<lambda>x. goes K w (snd x) \<and> fst x \<in> node_ids (graph (snd x))) (walk_bb dfsbb i parent prev w)"
  using assms unfolding bb_ok_def by blast

section \<open>Calls\<close>

lemma getSig_fuel: "getSig site fn ctx \<noteq> OutOfFuel"
  by (auto simp: getSig_def split: call_site.split)

lemma doVisit_fuel: "doVisit sc g site callee h \<noteq> OutOfFuel"
  using getSig_fuel by (auto simp: doVisit_def bindR_OutOfFuel_iff deref_def split: option.splits if_splits)

lemma visits_post: "post (\<lambda>go_on. visits P site callee w = Ok go_on) (visits P site callee w)"
proof -
  have "visits P site callee w \<noteq> OutOfFuel" using doVisit_fuel by (simp add: visits_def)
  then show ?thesis by (cases "visits P site callee w") simp_all
qed

lemma visits_None: "visits P site None w = Ok False"
  by (simp add: visits_def doVisit_def)

lemma GetCalleeByCommon_post:
  assumes "program_ok K" and "n \<in> set (funs K)"
  shows "post (\<lambda>cs. set cs \<subseteq> set (funs K)) (GetCalleeByCommon (prog K) n c)"
  unfolding GetCalleeByCommon_def using assms
  by (intro post_loop) (auto simp: program_ok_def)

lemma visit_callee_run:
  assumes d: "dfs_ok K dfs" and w: "good K w" and c: "callee \<in> set (funs K)" and k: "known K inst"
  shows "run K w (visit_callee dfs (prog K) parent inst site callee w)"
proof -
  have p: "prev_node w \<in> node_ids (graph w)" using w by (simp add: good_def)
  have visit: "run K w (bindR (call_DFS dfs callee (prev_node w) inst False w) (\<lambda>(_, l, w).
      Ok (w\<lparr>prev_node := l, cur_node := l\<rparr>)))"
    if "visits (prog K) (site_of inst) (Some callee) w = Ok True"
    unfolding post_bind
    by (rule post_mono [OF dfs_okD [OF d w p c k that]])
      (auto intro: goes_trans [OF _ move_goes [OF goes_good]])
  have "run K w (if \<not> go_on then Ok w
       else let visit = bindR (call_DFS dfs callee (prev_node w) inst False w) (\<lambda>(_, l, w).
                  Ok (w\<lparr>prev_node := l, cur_node := l\<rparr>)) in
         (case inst of None \<Rightarrow> visit
          | Some i \<Rightarrow> if cg_func callee = ''context.WithCancel$1''
              then checkCtxCancel parent i site (prev_node w) w else visit))"
    if "visits (prog K) (site_of inst) (Some callee) w = Ok go_on" for go_on
    using that visit goes_refl [OF w] checkCtxCancel_run [OF w p]
    by (cases go_on; cases inst) (simp_all add: Let_def del: post_bind)
  then show ?thesis unfolding visit_callee_def post_bind by (rule post_mono [OF visits_post])
qed

lemma traverseCallee_run:
  assumes P: "program_ok K" and d: "dfs_ok K dfs" and w: "good K w" and k: "known K inst"
  shows "run K w (traverseCallee dfs (prog K) parent inst site w)"
proof -
  have "here w \<in> set (funs K)" using w by (simp add: good_def)
  from GetCalleeByCommon_post [OF P this, of site]
  show ?thesis unfolding traverseCallee_def post_bind
  proof (rule post_mono)
    fix cs assume "set cs \<subseteq> set (funs K)"
    then show "run K w (loopR (visit_callee dfs (prog K) parent inst site) cs w)"
      by (intro run_loop [OF w] visit_callee_run [OF d _ _ k]) auto
  qed
qed

lemma call_closures_run:
  assumes P: "program_ok K" and d: "dfs_ok K dfs" and w: "good K w" and k: "known K (Some inst)"
  shows "run K w (call_closures dfs (prog K) inst call thread w)"
proof -
  have "run K v (bindR (visits (prog K) (site_of (Some inst)) (GetCalleeByID (prog K) obj) v) (\<lambda>go_on.
         if \<not> go_on then Ok v
         else bindR (deref (GetCalleeByID (prog K) obj)) (\<lambda>callee.
              bindR (call_DFS dfs callee (cur_node v) (Some inst) thread v) (\<lambda>(_, l, w).
                Ok (w\<lparr>cur_node := l\<rparr>)))))" if v: "good K v" for v obj
  proof (cases "GetCalleeByID (prog K) obj")
    case None
    with v show ?thesis by (simp add: visits_None goes_refl)
  next
    case (Some c)
    have c: "c \<in> set (funs K)" and p: "cur_node v \<in> node_ids (graph v)"
      using P v Some by (auto simp: program_ok_def good_def)
    have "run K v (if \<not> go_on then Ok v
         else bindR (call_DFS dfs c (cur_node v) (Some inst) thread v) (\<lambda>(_, l, w). Ok (w\<lparr>cur_node := l\<rparr>)))"
      if "visits (prog K) (site_of (Some inst)) (Some c) v = Ok go_on" for go_on
    proof (cases go_on)
      case True
      with that have "visits (prog K) (site_of (Some inst)) (Some c) v = Ok True" by simp
      from dfs_okD [OF d v p c k this] have "run K v (bindR (call_DFS dfs c (cur_node v) (Some inst) thread v)
          (\<lambda>(_, l, w). Ok (w\<lparr>cur_node := l\<rparr>)))"
        unfolding post_bind by (rule post_mono) (auto intro: goes_trans [OF _ cur_goes [OF goes_good]])
      with True show ?thesis by simp
    qed (use v in \<open>simp add: goes_refl\<close>)
    then have "run K v (bindR (visits (prog K) (site_of (Some inst)) (Some c) v) (\<lambda>go_on.
         if \<not> go_on then Ok v
         else bindR (call_DFS dfs c (cur_node v) (Some inst) thread v) (\<lambda>(_, l, w). Ok (w\<lparr>cur_node := l\<rparr>))))"
      unfolding post_bind [of _ "visits _ _ _ _"] by (rule post_mono [OF visits_post])
    then show ?thesis by (simp add: Some del: post_bind cong: if_cong)
  qed
  then have "run K w (loopR (\<lambda>obj v. bindR (visits (prog K) (site_of (Some inst)) (GetCalleeByID (prog K) obj) v)
       (\<lambda>go_on. if \<not> go_on then Ok v
         else bindR (deref (GetCalleeByID (prog K) obj)) (\<lambda>callee.
              bindR (call_DFS dfs callee (cur_node v) (Some inst) thread v) (\<lambda>(_, l, w).
                Ok (w\<lparr>cur_node := l\<rparr>))))) objs w)" for objs
    by (intro run_loop [OF w])
  then show ?thesis by (simp add: call_closures_def del: post_bind) (simp add: slice_get_def del: post_bind)
qed

section \<open>Goroutines\<close>

lemma updateWGExit_ext:
  assumes g: "ok_graph g" and i: "node_id ex \<in> node_ids g"
  shows "ext g (updateWGExit tid ex g)"
proof -
  have "ext g (modify_node (node_id ex) (\<lambda>n. n\<lparr>wg_pts := pts, gid := tid, isWGDone := True\<rparr>)
      (fold (\<lambda>obj. UpdateResourcesInner obj ex) pts g))" for pts
  proof (rule ext_trans)
    show e: "ext g (fold (\<lambda>obj. UpdateResourcesInner obj ex) pts g)"
      using g i by (rule UpdateResourcesInner_fold_ext)
    show "ext (fold (\<lambda>obj. UpdateResourcesInner obj ex) pts g)
      (modify_node (node_id ex) (\<lambda>n. n\<lparr>wg_pts := pts, gid := tid, isWGDone := True\<rparr>)
      (fold (\<lambda>obj. UpdateResourcesInner obj ex) pts g))"
      using ext_ok [OF e] by (rule modify_node_ext) (simp add: mild_def)
  qed
  then show ?thesis using ext_refl [OF g] by (simp add: updateWGExit_def split: option.split)
qed

lemma goroutine_exit_goes:
  assumes w: "good K w"
  shows "goes K w (let ex = (fresh w parent NExit)\<lparr>gid := tid\<rparr>;
      v = on_graph (updateNodes (Some l) ex False) w;
      v = on_graph (updateWGExit tid' ex) v
    in if b then on_helper (\<lambda>h. h\<lparr>gid1st := gid1st h @ [tid]\<rparr>) v else v)"
proof -
  let ?ex = "(fresh w parent NExit)\<lparr>gid := tid\<rparr>"
  let ?v = "on_graph (updateNodes (Some l) ?ex False) w"
  have "fresh_for w ?ex" by (simp add: fresh_for_def new_ok_def)
  note v = register_goes [OF w this, of "Some l" False]
  have "goes K ?v (on_graph (updateWGExit tid' ?ex) ?v)"
    by (rule on_graph_goes [OF goes_good [OF v(1)]],
        rule updateWGExit_ext [OF good_graph [OF goes_good [OF v(1)]] v(2)])
  then have u: "goes K w (on_graph (updateWGExit tid' ?ex) ?v)" by (rule goes_trans [OF v(1)])
  then have "goes K w (on_helper (\<lambda>h. h\<lparr>gid1st := gid1st h @ [tid]\<rparr>) (on_graph (updateWGExit tid' ?ex) ?v))"
    using good_deferred [OF goes_good [OF u]]
    by (intro goes_trans [OF u] helper_goes [OF goes_good [OF u]]) (simp_all add: deferred_ok_def)
  with u show ?thesis by (simp add: Let_def)
qed

lemma go_callees_run:
  assumes d: "dfs_ok K dfs" and k: "known K (Some inst)"
  shows "good K w \<Longrightarrow> set cs \<subseteq> set (funs K) \<Longrightarrow>
    run K w (go_callees dfs (prog K) E parent inst call in_loop is_first cs w)"
proof (induction cs arbitrary: w is_first)
  case (Cons c cs)
  have p: "prev_node w \<in> node_ids (graph w)" and c: "c \<in> set (funs K)"
    using Cons.prems by (simp_all add: good_def)
  let ?tail = "\<lambda>gp l w. bindR (node_at (graph w) l) (\<lambda>last_node. bindR (node_at (graph w) gp) (\<lambda>g_parent_node.
           let ex = (fresh w parent NExit)\<lparr>gid := gid last_node\<rparr>;
               w = on_graph (updateNodes (Some l) ex False) w;
               w = on_graph (updateWGExit (gid g_parent_node) ex) w;
               w = (if in_loop \<and> DoRace E \<and> is_first
                    then on_helper (\<lambda>h. h\<lparr>gid1st := gid1st h @ [gid last_node]\<rparr>) w else w)
           in go_callees dfs (prog K) E parent inst call in_loop False cs w))"
  have tail: "run K v (?tail gp l v)" if v: "good K v" for v gp l
  proof -
    have "run K v (let ex = (fresh v parent NExit)\<lparr>gid := tid\<rparr>;
               w = on_graph (updateNodes (Some l) ex False) v;
               w = on_graph (updateWGExit tid' ex) w;
               w = (if in_loop \<and> DoRace E \<and> is_first
                    then on_helper (\<lambda>h. h\<lparr>gid1st := gid1st h @ [tid]\<rparr>) w else w)
           in go_callees dfs (prog K) E parent inst call in_loop False cs w)" for tid tid'
    proof -
      note g = goroutine_exit_goes [where parent = parent and tid = tid and l = l and tid' = tid'
          and b = "in_loop \<and> DoRace E \<and> is_first", OF v, unfolded Let_def]
      have "set cs \<subseteq> set (funs K)" using Cons.prems(2) by simp
      from Cons.IH [OF goes_good [OF g] this]
      show ?thesis unfolding Let_def by (rule post_mono) (rule goes_trans [OF g])
    qed
    then show ?thesis by simp
  qed
  have "run K w (if \<not> go_on then Ok w
       else bindR (call_DFS dfs c (prev_node w) (Some inst) True w) (\<lambda>(gp, l, w).
         bindR (checkCtxCancel parent inst call l w) (?tail gp l)))"
    if "visits (prog K) (site_of (Some inst)) (Some c) w = Ok go_on" for go_on
  proof (cases go_on)
    case True
    with that have "visits (prog K) (site_of (Some inst)) (Some c) w = Ok True" by simp
    note dfs = dfs_okD [OF d Cons.prems(1) p c k this, of True]
    have "run K w (bindR (call_DFS dfs c (prev_node w) (Some inst) True w) (\<lambda>(gp, l, w).
         bindR (checkCtxCancel parent inst call l w) (?tail gp l)))"
      unfolding post_bind [of _ "call_DFS _ _ _ _ _ _"]
    proof (rule post_mono [OF dfs])
      fix x assume x: "goes K w (snd (snd x)) \<and> fst x \<in> node_ids (graph (snd (snd x))) \<and>
         fst (snd x) \<in> node_ids (graph (snd (snd x)))"
      obtain gp l v where e: "x = (gp, l, v)" by (cases x)
      with x have v: "goes K w v" "l \<in> node_ids (graph v)" by simp_all
      have "run K v (bindR (checkCtxCancel parent inst call l v) (?tail gp l))"
        by (rule run_bind [OF checkCtxCancel_run [OF goes_good [OF v(1)] v(2)]]) (rule tail)
      then have "run K w (bindR (checkCtxCancel parent inst call l v) (?tail gp l))"
        by (rule post_mono) (rule goes_trans [OF v(1)])
      then show "run K w (case x of (gp, l, w) \<Rightarrow> bindR (checkCtxCancel parent inst call l w) (?tail gp l))"
        unfolding e prod.case .
    qed
    with True show ?thesis by (simp del: post_bind)
  qed (use Cons.prems in \<open>simp add: goes_refl\<close>)
  then show ?case unfolding go_callees.simps post_bind [of _ "visits _ _ _ _"]
    by (rule post_mono [OF visits_post])
qed (simp add: goes_refl)

lemma step_Go_run:
  assumes P: "program_ok K" and d: "dfs_ok K dfs" and w: "good K w" and k: "known K (Some inst)"
  shows "run K w (step_Go dfs (prog K) E parent inst call w)"
proof -
  have "here w \<in> set (funs K)" using w by (simp add: good_def)
  from GetCalleeByCommon_post [OF P this, of call] show ?thesis
    unfolding step_Go_def post_bind Let_def by (rule post_mono) (rule go_callees_run [OF d k w])
qed

section \<open>Calls\<close>

lemma sync_call_run:
  assumes "good K w" and "\<And>ptr. fresh_for w (mk ptr)"
  shows "run K w (sync_call E call mk w)"
  using append_sync_node_goes [OF assms] by (simp add: sync_call_def)

lemma alias_locker_run:
  assumes w: "good K w" shows "run K w (alias_locker inst call w)"
proof -
  have e: "ok_graph g \<Longrightarrow> ext g (fold (\<lambda>locker g. g\<lparr>rfg_alias := mput locker base (rfg_alias g)\<rparr>) ls g)"
    for g base ls by (rule ext_fold) (simp_all add: ext_refl)
  have "ext (graph w) (fold (\<lambda>base. fold (\<lambda>locker g. g\<lparr>rfg_alias := mput locker base (rfg_alias g)\<rparr>) ls) bs (graph w))"
    for ls bs by (rule ext_fold [OF good_graph [OF w]]) (rule e)
  then show ?thesis by (simp add: alias_locker_def Let_def on_graph_goes [OF w])
qed

lemma new_context_goes:
  assumes w: "good K w" shows "goes K w (new_context bb inst w)"
  unfolding new_context_def Let_def
  by (rule on_graph_goes [OF w], rule ext_fold [OF good_graph [OF w]]) (simp add: ext_refl)

lemma step_Call_run:
  assumes P: "program_ok K" and d: "dfs_ok K dfs" and w: "good K w" and k: "known K (Some inst)"
    and f: "chains K \<le> fuel"
  shows "run K w (step_Call dfs fuel (prog K) E parent bb inst call w)"
proof -
  have normal: "run K w (traverseCallee dfs (prog K) parent (Some inst) call w)"
    by (rule traverseCallee_run [OF P d w k])
  have unlock: "run K w (case createUnlockNode E parent call inst t False w of (i, w) \<Rightarrow> Ok (w\<lparr>prev_node := i\<rparr>))"
    if "t \<in> {NUnlock, NRUnlock}" for t
  proof -
    obtain i v where c: "createUnlockNode E parent call inst t False w = (i, v)" by fastforce
    note v = createUnlockNode_goes [OF w that c]
    from goes_trans [OF v(1) prev_goes [OF goes_good [OF v(1)] v(2)]] c show ?thesis by simp
  qed
  have close: "run K w (bindR (createChannelClose E parent call inst False w) (\<lambda>(c, w). Ok (advance c w)))"
    unfolding post_bind
    by (rule post_mono [OF createChannelClose_goes [OF w]]) (auto intro: advance_goes)
  have once: "run K w (bindR (call_closures dfs (prog K) inst call False w) (\<lambda>w. Ok (w\<lparr>prev_node := cur_node w\<rparr>)))"
    by (rule run_bind [OF call_closures_run [OF P d w k]]) (auto intro: prev_goes simp: good_def)
  have rw: "run K w (step_rw fuel (prog K) E parent inst w)"
    using P f by (intro step_rw_run [OF w]) (simp_all add: program_ok_def)
  have sync: "run K w (sync_call E call mk w)" if "\<And>ptr. fresh_for w (mk ptr)" for mk
    using w that by (rule sync_call_run)
  show ?thesis
    unfolding step_Call_def Let_def
    by (intro post_if normal unlock close once rw sync call_closures_run [OF P d w k]
        alias_locker_run [OF w] updateWGDone_run [OF w]) 
      (simp_all add: createLockNode_goes [OF w] new_context_goes [OF w] fresh_for_def new_ok_def)
qed

end
