(* ===== verification/ConstructBlocks.thy ===== *)
theory ConstructBlocks
  imports ConstructWalk
begin

text \<open>
  The search for the blocks of loops and of cases ends, and selects, blocks and functions keep the
  invariant of the construction.
\<close>

section \<open>The blocks of loops and cases\<close>

definition weight :: "basic_block list \<Rightarrow> (int, bool) gomap \<Rightarrow> nat" where
  "weight bbs seen = (\<Sum>k \<in> {..<length bbs}.
     if mget0 False seen (int k) then 0 else length (bb_succs (bbs ! k)))"

lemma weight_mark:
  assumes "in_range bbs i" and "\<not> mget0 False seen i"
  shows "weight bbs (mput i True seen) + length (bb_succs (bbs ! nat i)) = weight bbs seen"
proof -
  let ?f = "\<lambda>seen k. if mget0 False seen (int k) then 0 else length (bb_succs (bbs ! k))"
  have k: "nat i \<in> {..<length bbs}" "int (nat i) = i" using assms(1) by (auto simp: in_range_def)
  have eq: "(\<Sum>k \<in> {..<length bbs} - {nat i}. ?f (mput i True seen) k) = (\<Sum>k \<in> {..<length bbs} - {nat i}. ?f seen k)"
    using k(2) by (intro sum.cong) auto
  show ?thesis unfolding weight_def sum.remove [OF finite_lessThan k(1)] eq
    using assms(2) k(2) by simp
qed

lemma weight_bound: "weight bbs seen < succ_bound bbs"
proof -
  have "weight bbs seen \<le> (\<Sum>k \<in> {..<length bbs}. length (bb_succs (bbs ! k)))"
    unfolding weight_def by (rule sum_mono) simp
  also have "\<dots> = sum_list (map (length \<circ> bb_succs) bbs)"
    by (simp add: sum_list_sum_nth atLeast0LessThan)
  finally show ?thesis by (simp add: succ_bound_def)
qed

lemma loop_succs_fuel:
  "length succs + weight bbs seen < fuel \<Longrightarrow> loop_succs fuel bbs start succs (seen, ret) \<noteq> OutOfFuel"
proof (induction fuel arbitrary: succs seen ret)
  case (Suc fuel)
  show ?case
  proof (cases succs)
    case (Cons i js)
    have skip: "loop_succs fuel bbs start js (seen, ret) \<noteq> OutOfFuel"
      using Suc.prems Cons by (intro Suc.IH) simp
    have "loop_succs fuel bbs start (js @ bb_succs (bbs ! nat i)) (mput i True seen, ret @ [i]) \<noteq> OutOfFuel"
      if "in_range bbs i" "\<not> mget0 False seen i"
      using Suc.prems Cons weight_mark [OF that] by (intro Suc.IH) simp
    with skip Cons show ?thesis
      by (auto simp: bindR_OutOfFuel_iff slice_get_def split: if_splits)
  qed simp
qed simp

lemma getLoopBBs_fuel: "getLoopBBs bbs start h \<noteq> OutOfFuel"
proof -
  have "loop_succs (succ_bound bbs + length (bb_succs body)) bbs start (bb_succs body) (seen, ret) \<noteq> OutOfFuel"
    for body seen ret
    using weight_bound [of bbs seen] by (intro loop_succs_fuel) simp
  then show ?thesis
    by (auto simp: getLoopBBs_def bindR_OutOfFuel_iff slice_get_def is_range_body_def split: if_splits)
qed

lemma case_succs_fuel:
  "length succs + weight bbs seen < fuel \<Longrightarrow> case_succs fuel bbs sel succs (seen, tmp) \<noteq> OutOfFuel"
proof (induction fuel arbitrary: succs seen tmp)
  case (Suc fuel)
  show ?case
  proof (cases succs)
    case (Cons i js)
    have skip: "case_succs fuel bbs sel js (seen, tmp) \<noteq> OutOfFuel"
      using Suc.prems Cons by (intro Suc.IH) simp
    have "case_succs fuel bbs sel (if c then js else js @ bb_succs (bbs ! nat i)) (mput i True seen, tmp @ [i]) \<noteq> OutOfFuel"
      if "in_range bbs i" "\<not> mget0 False seen i" for c
      using Suc.prems Cons weight_mark [OF that] by (intro Suc.IH) auto
    with skip Cons show ?thesis
      by (auto simp: bindR_OutOfFuel_iff slice_get_def split: if_splits)
  qed simp
qed simp

lemma collect_cases_fuel: "collect_cases bbs sel bodies seen \<noteq> OutOfFuel"
proof (induction bbs sel bodies seen rule: collect_cases.induct)
  case (3 bbs sel i bodies seen)
  have c: "case_succs (succ_bound bbs + length (bb_succs body)) bbs sel (bb_succs body) (seen, tmp) \<noteq> OutOfFuel"
    for body tmp using weight_bound [of bbs seen] by (intro case_succs_fuel) simp
  show ?case
  proof (cases "in_range bbs i")
    case True
    then have g: "slice_get bbs i = Ok (bbs ! nat i)" by (simp add: slice_get_def)
    from 3 g show ?thesis by (auto simp: bindR_OutOfFuel_iff c)
  qed (simp add: slice_get_def)
qed (auto simp: bindR_OutOfFuel_iff)

lemma chain_kind_fuel: "chain_kind b s \<noteq> OutOfFuel"
  by (auto simp: chain_kind_def last_kind_def bindR_OutOfFuel_iff slice_get_def split: if_splits)

lemma case_body_post:
  assumes "forward_selects bbs" and k: "in_range bbs k"
  shows "post (\<lambda>x. snd x = [] \<or> (\<exists>j. snd x = [j] \<and> k < j \<and> in_range bbs j)) (case_body bbs (bbs ! nat k))"
proof (cases "bb_succs (bbs ! nat k)")
  case (Cons i rest)
  show ?thesis
  proof (cases rest)
    case (Cons j js)
    have "k < j" if "in_range bbs j" "select_next (bb_comment (bbs ! nat j))"
      using assms that Cons \<open>bb_succs (bbs ! nat k) = i # rest\<close> unfolding forward_selects_def by blast
    with Cons \<open>bb_succs (bbs ! nat k) = i # rest\<close> show ?thesis by (simp add: case_body_def Let_def)
  qed (use Cons in \<open>simp add: case_body_def Let_def\<close>)
qed (simp add: case_body_def)

lemma case_chain_fuel:
  assumes f: "forward_selects bbs"
  shows "0 < fuel \<Longrightarrow> (\<forall>i \<in> set stack. stack = [i] \<and> 0 \<le> i \<and> length bbs < fuel + nat i) \<Longrightarrow>
    case_chain fuel bbs sel b stack (seen, bodies) \<noteq> OutOfFuel"
proof (induction fuel arbitrary: stack seen bodies)
  case (Suc fuel)
  show ?case
  proof (cases stack)
    case (Cons i st)
    with Suc.prems(2) have st: "st = []" "0 \<le> i" "length bbs < Suc fuel + nat i" by auto
    show ?thesis
    proof (cases "in_range bbs i")
      case True
      then have "nat i < length bbs" by (simp add: in_range_def nat_less_iff)
      with st(3) have fuel: "0 < fuel" by simp
      have stop: "case_chain fuel bbs sel b [] (seen', bodies') \<noteq> OutOfFuel" for seen' bodies'
        using fuel by (cases fuel) simp_all
      have go: "case_chain fuel bbs sel b (snd x) (seen', bodies') \<noteq> OutOfFuel"
        if "case_body bbs (bbs ! nat i) = Ok x" for x seen' bodies'
      proof -
        from case_body_post [OF f True] that
        have "snd x = [] \<or> (\<exists>j. snd x = [j] \<and> i < j \<and> in_range bbs j)" by simp
        then show ?thesis
        proof
          assume "\<exists>j. snd x = [j] \<and> i < j \<and> in_range bbs j"
          then obtain j where j: "snd x = [j]" "i < j" by blast
          with st have "length bbs < fuel + nat j" by linarith
          with fuel j st show ?thesis by (intro Suc.IH) auto
        qed (simp add: stop)
      qed
      have body: "case_body bbs (bbs ! nat i) \<noteq> OutOfFuel" using case_body_post [OF f True] by auto
      show ?thesis using Cons st(1) True stop go body chain_kind_fuel
        by (auto simp: bindR_OutOfFuel_iff slice_get_def Let_def split: if_splits)
    qed (use Cons in \<open>simp add: slice_get_def\<close>)
  qed simp
qed simp

lemma getCaseBBs_fuel:
  assumes "forward_selects bbs" and "0 \<le> bb_index sel"
  shows "getCaseBBs bbs sel h b \<noteq> OutOfFuel"
  using case_chain_fuel [OF assms(1), of "Suc (length bbs)" "[bb_index sel]"] assms(2) collect_cases_fuel
  by (auto simp: getCaseBBs_def bindR_OutOfFuel_iff)

lemma post_fuel: "r \<noteq> OutOfFuel \<Longrightarrow> post (\<lambda>_. True) r"
  by (cases r) simp_all

section \<open>Selects\<close>

lemma skip_block_goes:
  assumes w: "good K w" shows "goes K w (skip_block i w)"
  unfolding skip_block_def using good_deferred [OF w]
  by (intro helper_goes [OF w]) (simp_all add: deferred_ok_def)

abbreviation lands :: "bounds \<Rightarrow> walk \<Rightarrow> int \<times> walk \<Rightarrow> bool" where
  "lands K w x \<equiv> goes K w (snd x) \<and> fst x \<in> node_ids (graph (snd x))"

lemma case_rest_post:
  assumes b: "bb_ok K dfsbb" and "good K w" and "cur \<in> node_ids (graph w)"
  shows "post (lands K w) (case_rest dfsbb c bodies (cur, w))"
  unfolding case_rest_def
proof (rule post_loop)
  fix body x assume x: "lands K w x"
  obtain i v where e: "x = (i, v)" by (cases x)
  note v = x [unfolded e fst_conv snd_conv]
  note sk = skip_block_goes [OF goes_good [OF conjunct1 [OF v]], of body]
  note wv = goes_trans [OF conjunct1 [OF v] sk]
  have "post (lands K w) (walk_bb dfsbb body c i (skip_block body v))"
    by (rule post_mono [OF bb_okD [OF b goes_good [OF wv] goes_ids [OF sk conjunct2 [OF v]]]])
      (auto intro: goes_trans [OF wv])
  with v show "post (lands K w) (case x of (cur, w) \<Rightarrow> if mget0 False (skips (helper w)) body then Ok (cur, w)
     else walk_bb dfsbb body c cur (skip_block body w))"
    by (simp add: e)
qed (use assms in \<open>simp add: goes_refl\<close>)

lemma completeCaseNode_run:
  assumes b: "bb_ok K dfsbb" and w: "good K w" and c: "c \<in> node_ids (graph w)"
  shows "run K w (completeCaseNode dfsbb parent case_bodies c i w)"
proof -
  let ?final = "\<lambda>cur w. if h_in_for_loop (helper w) then
                  bindR (node_at (graph w) cur) (\<lambda>n.
                    if typId n = NLoop \<and> \<not> enterLoop n
                    then Ok (on_graph (modify_node c (\<lambda>n. n\<lparr>case_to_end := True\<rparr>)) w) else Ok w)
                else Ok w"
  have fin: "run K w (?final cur v)" if v: "goes K w v" for cur v
  proof -
    have "goes K w (on_graph (modify_node c (\<lambda>n. n\<lparr>case_to_end := True\<rparr>)) v)"
      by (rule goes_trans [OF v], rule on_graph_goes [OF goes_good [OF v]], rule modify_node_ext)
        (simp_all add: mild_def good_graph [OF goes_good [OF v]])
    with v show ?thesis by simp
  qed
  have "run K w (bindR (walk_bb dfsbb body parent c w) (\<lambda>(cur, w).
      bindR (case_rest dfsbb c rest (cur, skip_block body w)) (\<lambda>(cur, w). ?final cur w)))" for body rest
    unfolding post_bind [of _ "walk_bb _ _ _ _ _"]
  proof (rule post_mono [OF bb_okD [OF b w c]])
    fix x assume x: "lands K w x"
    obtain i v where e: "x = (i, v)" by (cases x)
    note v = x [unfolded e fst_conv snd_conv]
    note sk = skip_block_goes [OF goes_good [OF conjunct1 [OF v]], of body]
    note wv = goes_trans [OF conjunct1 [OF v] sk]
    have "run K w (bindR (case_rest dfsbb c rest (i, skip_block body v)) (\<lambda>(cur, w). ?final cur w))"
      unfolding post_bind [of _ "case_rest _ _ _ _"]
    proof (rule post_mono [OF case_rest_post [OF b goes_good [OF wv] goes_ids [OF sk conjunct2 [OF v]]]])
      fix y assume "lands K (skip_block body v) y"
      then have "goes K w (snd y)" by (auto intro: goes_trans [OF wv])
      from fin [OF this, of "fst y"] show "run K w (case y of (cur, w) \<Rightarrow> ?final cur w)"
        by (simp only: case_prod_beta)
    qed
    then show "run K w (case x of (cur, w) \<Rightarrow> bindR (case_rest dfsbb c rest (cur, skip_block body w))
        (\<lambda>(cur, w). ?final cur w))" unfolding e prod.case .
  qed
  then show ?thesis using goes_refl [OF w]
    by (auto simp: completeCaseNode_def slice_get_def simp del: post_bind split: option.split list.split)
qed

lemma add_case_run:
  assumes w: "good K w" and c: "fresh_for w c" "typId c \<noteq> NSelect"
    and r: "\<And>g. ok_graph g \<Longrightarrow> node_id c \<in> node_ids g \<Longrightarrow> ext g (rc g)"
  shows "post (\<lambda>v. goes K w v \<and> node_id c \<in> node_ids (graph v)) (add_case sel i c rc w)"
proof -
  have "goes K w v \<and> node_id c \<in> node_ids (graph v)"
    if s: "mget (id2node (graph w)) sel = Some s"
      and v: "v = on_graph (\<lambda>g. rc (updateNodes (Some sel) c True
         (modify_node sel (\<lambda>n. n\<lparr>sel_cases := (sel_cases s)[k := Some (node_id c)]\<rparr>) g))) w" for s k v
  proof -
    let ?g = "updateNodes (Some sel) c True
         (modify_node sel (\<lambda>n. n\<lparr>sel_cases := (sel_cases s)[k := Some (node_id c)]\<rparr>) (graph w))"
    have e: "ext (graph w) ?g"
      using c by (intro add_case_ext [OF good_graph [OF w] s]) (simp_all add: fresh_for_def)
    have i: "node_id c \<in> node_ids ?g" using c(1) by (simp add: node_ids_typ typ_at_updateNodes fresh_for_def)
    note r' = r [OF ext_ok [OF e] i]
    have "goes K w v" unfolding v by (rule on_graph_goes [OF w], rule ext_trans [OF e r'])
    with ext_ids [OF r' i] show ?thesis by (simp add: v on_graph_def)
  qed
  then show ?thesis by (simp add: add_case_def)
qed

lemma case_node_run:
  assumes b: "bb_ok K dfsbb" and w: "good K w" and c: "fresh_for w c" "typId c \<noteq> NSelect"
    and r: "\<And>g. ok_graph g \<Longrightarrow> node_id c \<in> node_ids g \<Longrightarrow> ext g (rc g)"
  shows "run K w (bindR (add_case sel i c rc w) (completeCaseNode dfsbb parent case_bodies (node_id c) j))"
  unfolding post_bind
proof (rule post_mono [OF add_case_run [OF w c r]])
  fix v assume v: "goes K w v \<and> node_id c \<in> node_ids (graph v)"
  have "run K v (completeCaseNode dfsbb parent case_bodies (node_id c) j v)"
    using v goes_good by (intro completeCaseNode_run [OF b]) blast+
  then show "run K w (completeCaseNode dfsbb parent case_bodies (node_id c) j v)"
    by (rule post_mono) (rule goes_trans [OF conjunct1 [OF v]])
qed

lemma fresh_case_fields [simp]: "node_id (fresh_case w parent sel st t) = next_ID (graph w)"
  "typId (fresh_case w parent sel st t) = t" "sel_cases (fresh_case w parent sel st t) = []"
  by (simp_all add: fresh_case_def)

lemma updateChannelPTS_ext:
  assumes "ok_graph g" shows "ext g (updateChannelPTS ch cg g)"
  unfolding updateChannelPTS_def
  by (rule ext_fold [OF assms]) (simp add: ext_refl split: list.split)

lemma updateChannelPTS_fields [simp]: "next_ID (updateChannelPTS ch cg g) = next_ID g"
proof -
  have "next_ID (fold (\<lambda>obj g. case GetPTSByObjID (pa g) obj of [] \<Rightarrow> g
            | base # _ \<Rightarrow> g\<lparr>rfg_alias := mput obj base (rfg_alias g)\<rparr>) pts g) = next_ID g" for pts
    by (induction pts arbitrary: g) (simp_all split: list.split)
  then show ?thesis by (simp add: updateChannelPTS_def)
qed

lemma normal_case_run:
  assumes b: "bb_ok K dfsbb" and w: "good K w"
  shows "run K w (normal_case dfsbb E parent case_bodies sel i st w)"
proof -
  let ?w = "on_graph (updateChannelPTS (sel_chan st) (here w)) w"
  have u: "goes K w ?w" by (rule on_graph_goes [OF w], rule updateChannelPTS_ext [OF good_graph [OF w]])
  have r: "run K ?w (bindR (add_case sel i c (UpdateResources E p cg c) ?w)
      (completeCaseNode dfsbb parent case_bodies (node_id c) i))"
    if "fresh_for ?w c" "typId c \<noteq> NSelect" for c p cg
    by (rule case_node_run [OF b goes_good [OF u] that]) (rule UpdateResources_ext)
  have "run K w (bindR (add_case sel i c (UpdateResources E p cg c) ?w)
      (completeCaseNode dfsbb parent case_bodies (node_id c) i))"
    if "fresh_for ?w c" "typId c \<noteq> NSelect" for c p cg
    by (rule post_mono [OF r [OF that]]) (rule goes_trans [OF u])
  then show ?thesis
    by (simp add: normal_case_def Let_def fresh_for_def new_ok_def del: post_bind)
qed

lemma createCaseDone_run:
  assumes b: "bb_ok K dfsbb" and w: "good K w"
  shows "run K w (createCaseDone dfsbb parent case_bodies sel i st call p w)"
  unfolding createCaseDone_def Let_def
  by (rule case_node_run [OF b w])
    (simp_all add: fresh_for_def new_ok_def UpdateResourcesInner_ext)

lemma done_cases_run:
  assumes b: "bb_ok K dfsbb" and w: "good K w"
  shows "post (\<lambda>x. goes K w (snd x)) (done_cases dfsbb P parent case_bodies sel i st call c w)"
proof -
  let ?create = "\<lambda>p x. case x of (_ :: bool, w) \<Rightarrow> bindR (createCaseDone dfsbb parent case_bodies sel i st call p w)
            (\<lambda>w. Ok (True, w))"
  have create: "post (\<lambda>x. goes K w (snd x)) (?create p x)" if x: "goes K w (snd x)" for p x
  proof -
    have "run K (snd x) (createCaseDone dfsbb parent case_bodies sel i st call p (snd x))"
      by (rule createCaseDone_run [OF b goes_good [OF x]])
    then have "run K w (createCaseDone dfsbb parent case_bodies sel i st call p (snd x))"
      by (rule post_mono) (rule goes_trans [OF x])
    then show ?thesis by (cases x) simp
  qed
  have inner: "post (\<lambda>x. goes K w (snd x)) (loopR (\<lambda>obj2 (found, w). case mget (contexts (graph w)) obj2 of
                Some p \<Rightarrow> ?create p (found, w) | None \<Rightarrow> Ok (found, w)) objs x)"
    if "goes K w (snd x)" for objs x
    using that create by (intro post_loop) (auto split: option.split)
  have "post (\<lambda>x. goes K w (snd x)) (loopR (\<lambda>obj (found, w). case mget (contexts (graph w)) obj of
            Some p \<Rightarrow> ?create p (found, w)
          | None \<Rightarrow> loopR (\<lambda>obj2 (found, w). case mget (contexts (graph w)) obj2 of
                Some p \<Rightarrow> ?create p (found, w) | None \<Rightarrow> Ok (found, w))
              (GetPTSByPtrID P obj) (found, w)) objs (False, w))" for objs
  proof (rule post_loop)
    fix obj and x :: "bool \<times> walk" assume x: "goes K w (snd x)"
    show "post (\<lambda>x. goes K w (snd x)) (case x of (found, w) \<Rightarrow> (case mget (contexts (graph w)) obj of
            Some p \<Rightarrow> ?create p (found, w)
          | None \<Rightarrow> loopR (\<lambda>obj2 (found, w). case mget (contexts (graph w)) obj2 of
                Some p \<Rightarrow> ?create p (found, w) | None \<Rightarrow> Ok (found, w))
              (GetPTSByPtrID P obj) (found, w)))"
    proof (cases x)
      case (Pair f v)
      then show ?thesis using create [OF x] inner [OF x]
        by (simp only: prod.case split: option.split) blast
    qed
  qed (use goes_refl [OF w] in simp)
  then show ?thesis unfolding done_cases_def Let_def by blast
qed

lemma select_case_run:
  assumes b: "bb_ok K dfsbb" and w: "good K w"
  shows "run K w (select_case dfsbb P E parent case_bodies sel x w)"
proof -
  obtain i st where x: "x = (i, st)" by fastforce
  have n: "run K v (normal_case dfsbb E parent case_bodies sel i st v)" if "good K v" for v
    using b that by (rule normal_case_run)
  have "run K w (bindR (done_cases dfsbb P parent case_bodies sel i st call c w) (\<lambda>(found, w).
              if found then Ok w else normal_case dfsbb E parent case_bodies sel i st w))" for call c
    unfolding post_bind
  proof (rule post_mono [OF done_cases_run [OF b w]])
    fix y :: "bool \<times> walk" assume y: "goes K w (snd y)"
    have "run K w (normal_case dfsbb E parent case_bodies sel i st (snd y))"
      by (rule post_mono [OF n [OF goes_good [OF y]]]) (rule goes_trans [OF y])
    with y show "run K w (case y of (found, w) \<Rightarrow> if found then Ok w
        else normal_case dfsbb E parent case_bodies sel i st w)" by (simp add: case_prod_beta)
  qed
  moreover have "select_case dfsbb P E parent case_bodies sel (i, st) w = Ok w \<or>
      select_case dfsbb P E parent case_bodies sel (i, st) w = normal_case dfsbb E parent case_bodies sel i st w \<or>
      (\<exists>call c. select_case dfsbb P E parent case_bodies sel (i, st) w =
        bindR (done_cases dfsbb P parent case_bodies sel i st call c w) (\<lambda>(found, w).
              if found then Ok w else normal_case dfsbb E parent case_bodies sel i st w))"
    unfolding select_case_def Let_def prod.case by (simp split: value_kind.split option.split) blast
  ultimately show ?thesis unfolding x using n [OF w] goes_refl [OF w] by (elim disjE exE) simp_all
qed

lemma default_case_run:
  assumes b: "bb_ok K dfsbb" and w: "good K w"
  shows "run K w (default_case dfsbb parent bbs case_bodies sel i w)"
proof -
  have c: "run K w (let c = (fresh w parent NCase)\<lparr>case_ch_name := ''case@default'', case_sel := Some sel,
             isSender := False, default_inst := inst\<rparr>
       in bindR (add_case sel i c (\<lambda>g. g) w) (completeCaseNode dfsbb parent case_bodies (node_id c) i))" for inst
    unfolding Let_def
    by (rule case_node_run [OF b w]) (simp_all add: fresh_for_def new_ok_def ext_refl)
  have "post (\<lambda>_. True) (case bodies of None \<Rightarrow> Ok None
        | Some ks \<Rightarrow> bindR (slice_get ks 0) (\<lambda>k. bindR (slice_get bbs k) (\<lambda>bb.
            bindR (slice_get (bb_instrs bb) 0) (\<lambda>inst. Ok (Some inst)))))" for bodies
    by (simp split: option.split)
  moreover have "post (\<lambda>_. True) (if i < int (length case_bodies) then slice_get case_bodies i else Ok None)"
    by simp
  ultimately show ?thesis unfolding default_case_def post_bind [of _ "if _ then _ else _"]
      post_bind [of _ "case_option _ _ _"]
    using c by (auto elim!: post_mono simp del: post_bind post_total)
qed

lemma select_id_goes:
  assumes w: "good K w" shows "goes K w (on_helper (\<lambda>h. h\<lparr>h_select_node_id := i\<rparr>) w)"
  using good_deferred [OF w] by (intro helper_goes [OF w]) (simp_all add: deferred_ok_def)

lemma step_Select_run:
  assumes P: "program_ok K" and b: "bb_ok K dfsbb" and w: "good K w" and i: "0 \<le> bb_index bb"
  shows "run K w (step_Select dfsbb (prog K) E parent bb inst sts blocking w)"
proof -
  define s where "s = (fresh w parent NSelect)\<lparr>sel_name := ''select@'' @ inst_str inst, sel_inst := Some inst,
            is_in_for_loop := h_in_for_loop (helper w)\<rparr>"
  define sel where "sel = node_id s"
  have s: "fresh_for w s" by (simp add: s_def fresh_for_def new_ok_def)
  note r = register_goes [OF w s, of "Some (prev_node w)" False]
  note r2 = goes_trans [OF r(1) cur_goes [OF goes_good [OF r(1)] r(2)]]
  define v where "v = on_helper (\<lambda>h. h\<lparr>h_select_node_id := sel\<rparr>)
    ((on_graph (updateNodes (Some (prev_node w)) s False) w)\<lparr>cur_node := sel\<rparr>)"
  have v: "goes K w v"
    unfolding v_def sel_def by (rule goes_trans [OF r2 select_id_goes [OF goes_good [OF r2]]])
  have "here w \<in> set (funs K)" using w by (simp add: good_def)
  then have "forward_selects (fn_blocks (prog K) (here w))" using P by (auto simp: program_ok_def)
  then have cb: "post (\<lambda>_. True) (getCaseBBs (fn_blocks (prog K) (here w)) bb (helper v) blocking)"
    using i by (intro post_fuel getCaseBBs_fuel)
  have "run K w (let size = select_size (length cs) (length sts) blocking;
            w' = on_graph (modify_node sel (\<lambda>n. n\<lparr>sel_cases := replicate size None\<rparr>)) v in
        bindR (loopR (select_case dfsbb (prog K) E parent cs sel) (map (\<lambda>(i, st). (int i, st)) (enumerate 0 sts)) w')
        (\<lambda>w'. bindR (if blocking then Ok w'
             else default_case dfsbb parent (fn_blocks (prog K) (here w)) cs sel (int size - 1) w')
          (\<lambda>w'. Ok (on_helper (\<lambda>h. h\<lparr>h_select_node_id := -1\<rparr>) (w'\<lparr>prev_node := cur_node w'\<rparr>)))))" for cs
  proof -
    let ?size = "select_size (length cs) (length sts) blocking"
    let ?w = "on_graph (modify_node sel (\<lambda>n. n\<lparr>sel_cases := replicate ?size None\<rparr>)) v"
    have m: "goes K w ?w"
      by (rule goes_trans [OF v], rule on_graph_goes [OF goes_good [OF v]],
          rule modify_node_ext_gen [OF good_graph [OF goes_good [OF v]]])
        (simp_all add: node_ok_def)
    have fin: "run K u (Ok (on_helper (\<lambda>h. h\<lparr>h_select_node_id := -1\<rparr>) (u\<lparr>prev_node := cur_node u\<rparr>)))"
      if u: "good K u" for u
    proof -
      have "goes K u (u\<lparr>prev_node := cur_node u\<rparr>)" using u by (intro prev_goes) (simp_all add: good_def)
      from goes_trans [OF this select_id_goes [OF goes_good [OF this]]] show ?thesis by simp
    qed
    have d: "run K u (if blocking then Ok u
        else default_case dfsbb parent (fn_blocks (prog K) (here w)) cs sel (int ?size - 1) u)"
      if "good K u" for u using default_case_run [OF b that] goes_refl [OF that] by simp
    have "run K ?w (bindR (loopR (select_case dfsbb (prog K) E parent cs sel)
          (map (\<lambda>(i, st). (int i, st)) (enumerate 0 sts)) ?w)
        (\<lambda>w'. bindR (if blocking then Ok w'
             else default_case dfsbb parent (fn_blocks (prog K) (here w)) cs sel (int ?size - 1) w')
          (\<lambda>w'. Ok (on_helper (\<lambda>h. h\<lparr>h_select_node_id := -1\<rparr>) (w'\<lparr>prev_node := cur_node w'\<rparr>)))))"
      by (rule run_bind [OF run_loop [OF goes_good [OF m]]], rule select_case_run [OF b], assumption,
          rule run_bind [OF d], assumption, rule fin)
    then show ?thesis unfolding Let_def by (rule post_mono) (rule goes_trans [OF m])
  qed
  then show ?thesis
    unfolding step_Select_def Let_def
    unfolding s_def [symmetric] sel_def [symmetric] v_def [symmetric] post_bind [of _ "getCaseBBs _ _ _ _"]
    by (auto intro: post_mono [OF cb])
qed

section \<open>Blocks\<close>

lemma step_Return_run:
  assumes P: "program_ok K" and w: "good K w" and f: "chains K \<le> fuel"
  shows "run K w (step_Return fuel (prog K) E parent bb inst w)"
  unfolding step_Return_def
proof (rule run_bind [OF step_rw_run [OF w _ f]])
  show "\<forall>v. chain_ends (prog K) (chains K) v" using P by (simp add: program_ok_def)
next
  fix v assume v: "good K v"
  let ?r = "(fresh v parent NReturn)\<lparr>ret_inst := Some inst\<rparr>"
  let ?v = "on_graph (updateNodes (Some (prev_node v)) ?r False) v"
  have "fresh_for v ?r" by (simp add: fresh_for_def new_ok_def)
  note r = register_goes [OF v this, of "Some (prev_node v)" False]
  note r2 = goes_trans [OF r(1) prev_goes [OF goes_good [OF r(1)] r(2)]]
  have "goes K v (append_node n (?v\<lparr>prev_node := node_id ?r\<rparr>))"
    if "fresh_for (?v\<lparr>prev_node := node_id ?r\<rparr>) n" for n
    by (rule goes_trans [OF r2 append_node_goes [OF goes_good [OF r2] that]])
  with r2 show "run K v (let r = (fresh v parent NReturn)\<lparr>ret_inst := Some inst\<rparr>;
         w' = (on_graph (updateNodes (Some (prev_node v)) r False) v)\<lparr>prev_node := node_id r\<rparr> in
     if h_in_for_loop (helper v) then
       Ok (append_node ((fresh w' parent NLoop)\<lparr>loop_name := h_for_loop_name (helper w'),
         enterLoop := False\<rparr>) w')
     else if bb_comment bb = ''rangechan.done'' then Ok w'
     else Ok v)"
    using goes_refl [OF v] by (simp add: Let_def fresh_for_def new_ok_def)
qed

lemma on_channel_goes:
  assumes w: "good K w" shows "goes K w (on_graph (updateChannelPTS ch (here w)) w)"
  by (rule on_graph_goes [OF w], rule updateChannelPTS_ext [OF good_graph [OF w]])

lemma step_Send_goes:
  assumes w: "good K w" shows "goes K w (step_Send P E parent inst chan x w)"
  unfolding step_Send_def Let_def
  by (rule goes_trans [OF on_channel_goes [OF w]],
      rule append_sync_node_goes [OF goes_good [OF on_channel_goes [OF w]]])
    (simp add: fresh_for_def new_ok_def)

lemma step_Receive_run:
  assumes w: "good K w" shows "run K w (step_Receive E parent bb j inst channel w)"
  unfolding step_Receive_def post_bind [of _ "checkCtxDone _ _ _ _"]
proof (rule post_mono [OF checkCtxDone_run [OF w]])
  fix x :: "bool \<times> walk" assume x: "goes K w (snd x)"
  note ch = on_channel_goes [OF goes_good [OF x], of channel]
  note wch = goes_trans [OF x ch]
  have "goes K w (append_sync_node E channel n (on_graph (updateChannelPTS channel (here (snd x))) (snd x)))"
    if "fresh_for (on_graph (updateChannelPTS channel (here (snd x))) (snd x)) n" for n
    by (rule goes_trans [OF wch append_sync_node_goes [OF goes_good [OF wch] that]])
  with x show "run K w (case x of (is_done, w) \<Rightarrow> if is_done then Ok w
     else bindR (returnChannel bb inst j) (\<lambda>ret. if ret then Ok w
       else let w = on_graph (updateChannelPTS channel (here w)) w in
         Ok (append_sync_node E channel ((fresh w parent NChannel)\<lparr>
           ch_name := ''receive@channel '' @ val_str channel, ch_rec_inst := Some inst,
           ch_ptr := Some channel, isSender := False\<rparr>) w)))"
    by (simp add: case_prod_beta returnChannel_def Let_def fresh_for_def new_ok_def)
qed

lemma step_RunDefers_run:
  assumes P: "program_ok K" and d: "dfs_ok K dfs" and w: "good K w"
  shows "run K w (step_RunDefers dfs (prog K) E parent w)"
  unfolding step_RunDefers_def
proof (rule run_bind)
  show "run K w (run_copies E (defer_closes (helper w)) w)"
    using good_deferred [OF w] by (intro run_copies_run [OF w]) (auto simp: deferred_ok_def)
next
  fix v assume v: "good K v"
  show "run K v (bindR (run_copies E (defer_unlocks (helper v)) v) (\<lambda>w.
       loopR (traverseCallee dfs (prog K) parent None) (rev (defer_calls (helper w))) w))"
  proof (rule run_bind)
    show "run K v (run_copies E (defer_unlocks (helper v)) v)"
      using good_deferred [OF v] by (intro run_copies_run [OF v]) (auto simp: deferred_ok_def)
  next
    fix u assume u: "good K u"
    show "run K u (loopR (traverseCallee dfs (prog K) parent None) (rev (defer_calls (helper u))) u)"
      by (rule run_loop [OF u]) (rule traverseCallee_run [OF P d _ known_None])
  qed
qed

lemma step_instr_run:
  assumes P: "program_ok K" and d: "dfs_ok K dfs" and b: "bb_ok K dfsbb" and w: "good K w"
    and k: "known K (Some inst)" and f: "chains K \<le> fuel" and i: "0 \<le> bb_index bb"
  shows "run K w (step_instr dfs dfsbb fuel (prog K) E parent bb j inst w)"
proof -
  have rw: "run K w (step_rw fuel (prog K) E parent inst w)"
    using P by (intro step_rw_run [OF w _ f]) (simp add: program_ok_def)
  show ?thesis
    unfolding step_instr_def
    by (cases "inst_kind inst"; (simp only: instr_kind.case)?)
      (auto split: unop.split simp del: post_bind intro: rw step_Send_goes [OF w] step_Go_run [OF P d w k] step_RunDefers_run [OF P d w]
        step_Defer_run [OF w] step_Call_run [OF P d w k f] step_Return_run [OF P w f]
        step_Receive_run [OF w] step_Select_run [OF P b w i])
qed

lemma mark_select_goes:
  assumes w: "good K w" shows "goes K w (mark_select w)"
proof -
  have "goes K w (on_graph (modify_node (prev_node w) (\<lambda>n. n\<lparr>select_node_id := i\<rparr>)) w)" for i
    by (rule on_graph_goes [OF w], rule modify_node_ext [OF good_graph [OF w]]) (simp add: mild_def)
  with goes_refl [OF w] show ?thesis by (simp add: mark_select_def Let_def)
qed

definition bounded :: "bounds \<Rightarrow> nat \<Rightarrow> bounds" where
  "bounded K f = K\<lparr>fuel_left := f\<rparr>"

lemma bounded_fields [simp]: "prog (bounded K f) = prog K" "funs (bounded K f) = funs K"
  "chains (bounded K f) = chains K" "fuel_left (bounded K f) = f"
  "program_ok (bounded K f) = program_ok K" "known (bounded K f) = known K"
  "dfs_need (bounded K f) = dfs_need K" "bb_need (bounded K f) = bb_need K"
  by (simp_all add: bounded_def program_ok_def known_def dfs_need_def bb_need_def fun_eq_iff)

lemma good_chains: "good K w \<Longrightarrow> chains K \<le> fuel_left K"
  by (simp add: good_def bb_need_def dfs_need_def)

lemma known_instr:
  assumes "n \<in> set (funs K)" and "bb \<in> set (fn_blocks (prog K) n)" and "inst \<in> set (bb_instrs bb)"
  shows "known K (Some inst)"
  using assms by (auto simp: known_def texts_def)

lemma walk_block_run:
  assumes P: "program_ok K" and d: "dfs_ok K dfs" and b: "bb_ok K dfsbb" and w: "good K w"
    and bb: "bb \<in> set (fn_blocks (prog K) (here w))" and i: "0 \<le> bb_index bb" and f: "fuel = fuel_left K"
  shows "run K w (walk_block dfs dfsbb fuel (prog K) E parent bb w)"
  unfolding walk_block_def
proof (rule run_loop [OF w])
  fix x v assume x: "x \<in> set (enumerate 0 (bb_instrs bb))" and v: "good K v"
  obtain j inst where e: "x = (j, inst)" by fastforce
  have "here w \<in> set (funs K)" using w by (simp add: good_def)
  moreover have "inst \<in> set (bb_instrs bb)" using x e by (auto simp: in_set_enumerate_eq)
  ultimately have k: "known K (Some inst)" using bb by (intro known_instr)
  have "run K v (bindR (step_instr dfs dfsbb fuel (prog K) E parent bb (int j) inst v) (\<lambda>w. Ok (mark_select w)))"
    by (rule run_bind [OF step_instr_run [OF P d b v k _ i]])
      (use good_chains [OF v] f mark_select_goes in simp_all)
  then show "run K v ((case x of (j, inst) \<Rightarrow> \<lambda>w.
       bindR (step_instr dfs dfsbb fuel (prog K) E parent bb (int j) inst w) (\<lambda>w. Ok (mark_select w))) v)"
    unfolding e prod.case .
qed

end
