(* ===== verification/Detect.thy ===== *)
theory Detect
  imports ExploreProps RaceClaims RFGBuild
begin

text \<open>
  \<open>concurrency/detect.go\<close>: the analysis of one entry and the results kept over all entries, without
  the time measurements and the printing. The graph of the entry is the one \<open>CreateGraph\<close> built.
\<close>

section \<open>Removing duplicates\<close>

definition mapsEqual :: "(int, string) gomap \<Rightarrow> (int, string) gomap \<Rightarrow> bool" where
  "mapsEqual a b =
     (if length a \<noteq> length b then False
      else list_all (\<lambda>(key, v). case mget b key of None \<Rightarrow> False | Some w \<Rightarrow> v = w) a)"

definition exist :: "BlockError \<Rightarrow> BlockError list \<Rightarrow> bool" where
  "exist gberr errs = list_ex (\<lambda>berr. mapsEqual (tid2loc berr) (tid2loc gberr)) errs"

definition filterStates :: "BlockError list \<Rightarrow> BlockError list \<Rightarrow> BlockError list" where
  "filterStates gberrs errs =
     fold (\<lambda>gberr errs. if exist gberr errs then errs else errs @ [gberr]) gberrs errs"

definition filterCFErrs :: "CFError list \<Rightarrow> (int, CFError) gomap \<Rightarrow> (int, CFError) gomap" where
  "filterCFErrs gcferrs m =
     fold (\<lambda>err m. if mhas m (cf_inst_pos err) then m else mput (cf_inst_pos err) err m) gcferrs m"

section \<open>Accesses with the same points-to set\<close>

text \<open>
  The loop over the accesses of one node, with \<open>prev_pts\<close>; the last component is false after the
  \<open>break\<close>. \<open>IntArrayEquals\<close> also sorts the two slices, which nothing observes afterwards.
\<close>

fun same_pts :: "RWNode list \<Rightarrow> int list \<Rightarrow> int list \<times> bool" where
  "same_pts [] prev = (prev, True)"
| "same_pts (r # rs) prev =
     (if prev = [] then same_pts rs (rw_pts r)
      else if fst (IntArrayEquals prev (rw_pts r)) then same_pts rs prev else (prev, False))"

definition CollectSamePTSInSyncRange :: "RFGraph \<Rightarrow> int \<times> int" where
  "CollectSamePTSInSyncRange g = fold (\<lambda>(_, n) (same, empty).
     if typId n \<noteq> NRW then (same, empty)
     else case same_pts (rws n) [] of (prev, eq) \<Rightarrow>
       if eq then (same + 1, if prev = [] then empty + 1 else empty) else (same, empty))
     (id2node g) (0, 0)"

section \<open>One entry\<close>

record flags =
  DoBlocking :: bool
  AppPkg :: string

text \<open>The package variables that keep the results of all entries.\<close>

record results =
  pos2cferr :: "(int, CFError) gomap"
  all_berrs :: "BlockError list"
  total_nums :: "(int, int) gomap"
  counter :: int
  all_races :: summary

definition InitialPerformance :: "summary \<Rightarrow> results" where
  "InitialPerformance s =
     \<lparr>pos2cferr = [], all_berrs = [], total_nums = [], counter = 0, all_races = s\<rparr>"

definition add_num :: "int \<Rightarrow> int \<Rightarrow> results \<Rightarrow> results" where
  "add_num k v r = r\<lparr>total_nums := mput k (mget0 0 (total_nums r) k + v) (total_nums r)\<rparr>"

definition detect_blocking ::
  "nat \<Rightarrow> flags \<Rightarrow> env \<Rightarrow> source \<Rightarrow> RFGraph \<times> results \<Rightarrow> (RFGraph \<times> results) res" where
  "detect_blocking fuel F E src = (\<lambda>(g, r).
     if DoBlocking F then
       bindR (DFSDetectBlockingBugs fuel E src g) (\<lambda>g.
         Ok (g, r\<lparr>all_berrs := filterStates (RFGModel.berrs g) (all_berrs r),
                pos2cferr := filterCFErrs (cferrs g) (pos2cferr r)\<rparr>))
     else Ok (g, r))"

definition detect_races ::
  "env \<Rightarrow> source \<Rightarrow> string \<Rightarrow> RFGraph \<times> results \<Rightarrow> (RFGraph \<times> results) res" where
  "detect_races E src entry = (\<lambda>(g, r).
     if DoRace E then
       bindR (if Plus E then AddHappenBeforeEdges g else Ok g) (\<lambda>g.
       bindR (DetectRace E src g) (\<lambda>g.
         case CollectSamePTSInSyncRange g of (a, b) \<Rightarrow>
           let r = add_num 20 b (add_num 19 a r)
           in Ok (g, r\<lparr>all_races := SummarizeRaces E entry (races (rfgplus g)) (all_races r)\<rparr>)))
     else Ok (g, r))"

definition detectEntry ::
  "nat \<Rightarrow> flags \<Rightarrow> env \<Rightarrow> source \<Rightarrow> string \<Rightarrow> RFGraph \<Rightarrow> results \<Rightarrow> results res" where
  "detectEntry fuel F E src entry g r =
     (if length (roots g) = 1 \<and> AppPkg F \<noteq> [] then Ok r
      else bindR (detect_blocking fuel F E src (g, r)) (\<lambda>(g, r).
           bindR (detect_races E src entry (g, r)) (\<lambda>(g, r).
             let nums = Statistics E g; r = r\<lparr>counter := counter r + 1\<rparr>
             in Ok (fold (\<lambda>i r. add_num (int i) (mget0 0 nums (int i)) r) [0..<19] r))))"

section \<open>What the filters keep\<close>

lemma mapsEqual_eq:
  assumes "wf_map a" and "wf_map b"
  shows "mapsEqual a b \<longleftrightarrow> map_of a = map_of b"
proof
  assume e: "mapsEqual a b"
  then have len: "length a = length b" by (simp add: mapsEqual_def split: if_splits)
  have "mget b k = Some v" if "mget a k = Some v" for k v
  proof -
    have "case mget b k of None \<Rightarrow> False | Some w \<Rightarrow> v = w"
      using e len that assms(1) by (simp add: mapsEqual_def list_all_wf_map)
    then show ?thesis by (simp split: option.splits)
  qed
  then have sub: "map_of a \<subseteq>\<^sub>m map_of b" by (auto simp: map_le_def)
  have "card (dom (map_of m)) = length m" if "wf_map m" for m :: "(int, string) gomap"
    using that distinct_card [of "map fst m"] by (simp add: wf_map_def dom_map_of_conv_image_fst)
  with len assms have "card (dom (map_of a)) = card (dom (map_of b))" by simp
  moreover have "dom (map_of a) \<subseteq> dom (map_of b)" using sub by (rule map_le_implies_dom_le)
  ultimately have "dom (map_of a) = dom (map_of b)" by (simp add: card_subset_eq finite_dom_map_of)
  with sub show "map_of a = map_of b" by (metis map_le_antisym map_le_def)
next
  assume e: "map_of a = map_of b"
  have "mset (map fst a) = mset (map fst b)"
    using assms e by (metis wf_map_def dom_map_of_conv_image_fst image_set set_eq_iff_mset_eq_distinct)
  then have "length a = length b" by (metis length_map mset_eq_length)
  with e assms show "mapsEqual a b"
    by (auto simp: mapsEqual_def list_all_wf_map split: option.splits)
qed

lemma mapsEqual_refl: "wf_map m \<Longrightarrow> mapsEqual m m"
  by (simp add: mapsEqual_eq)

text \<open>
  C40: Over all entries, \<open>filterStates\<close> keeps the reports it has, appends only new
  ones, never two with the same paused goroutines at the same locations, and loses none: every
  report it is given is there with an equal map of locations. \<open>filterCFErrs\<close> keeps, for every
  position, the first error.
\<close>

theorem filters_dedupe:
  assumes "sorted_wrt (\<lambda>x y. \<not> mapsEqual (tid2loc x) (tid2loc y)) errs"
    and "\<forall>e \<in> set new. wf_map (tid2loc e)"
  shows "(\<exists>added. filterStates new errs = errs @ added \<and> set added \<subseteq> set new) \<and>
    sorted_wrt (\<lambda>x y. \<not> mapsEqual (tid2loc x) (tid2loc y)) (filterStates new errs) \<and>
    (\<forall>e \<in> set new. exist e (filterStates new errs)) \<and>
    mget (filterCFErrs cfs m) p = (case mget m p of Some e \<Rightarrow> Some e
      | None \<Rightarrow> find (\<lambda>e. cf_inst_pos e = p) cfs)"
proof -
  have cf: "mget (filterCFErrs cfs m) p = (case mget m p of Some e \<Rightarrow> Some e
      | None \<Rightarrow> find (\<lambda>e. cf_inst_pos e = p) cfs)"
    by (induction cfs arbitrary: m) (auto simp: filterCFErrs_def mhas_def split: option.splits)
  have "(\<exists>added. filterStates new errs = errs @ added \<and> set added \<subseteq> set new) \<and>
    sorted_wrt (\<lambda>x y. \<not> mapsEqual (tid2loc x) (tid2loc y)) (filterStates new errs) \<and>
    (\<forall>e \<in> set new. exist e (filterStates new errs))"
    using assms
  proof (induction new arbitrary: errs)
    case Nil
    then show ?case by (simp add: filterStates_def)
  next
    case (Cons e new)
    let ?errs = "if exist e errs then errs else errs @ [e]"
    have s: "sorted_wrt (\<lambda>x y. \<not> mapsEqual (tid2loc x) (tid2loc y)) ?errs"
      using Cons.prems(1) by (auto simp: sorted_wrt_append exist_def list_ex_iff)
    have f: "filterStates (e # new) errs = filterStates new ?errs" by (simp add: filterStates_def)
    from Cons.IH [OF s] Cons.prems(2) obtain added where
      a: "filterStates new ?errs = ?errs @ added" "set added \<subseteq> set new"
        "sorted_wrt (\<lambda>x y. \<not> mapsEqual (tid2loc x) (tid2loc y)) (filterStates new ?errs)"
        "\<forall>e \<in> set new. exist e (filterStates new ?errs)" by auto
    have "exist e ?errs" using Cons.prems(2) mapsEqual_refl by (auto simp: exist_def)
    then have "exist e (filterStates new ?errs)" using a(1) by (auto simp: exist_def)
    moreover have "\<exists>add. filterStates new ?errs = errs @ add \<and> set add \<subseteq> set (e # new)"
      using a(1,2) by (cases "exist e errs") auto
    ultimately show ?case using a(3,4) unfolding f by simp
  qed
  with cf show ?thesis by simp
qed

definition report_at :: "string \<Rightarrow> BlockError" where
  "report_at loc = \<lparr>tid2loc = [(3, loc)], be_state = initial_state blocked_graph\<rparr>"

theorem filters_dedupe_witness:
  "map tid2loc (filterStates [report_at ''a.go:1'', report_at ''b.go:2'', report_at ''a.go:1''] []) =
     [[(3, ''a.go:1'')], [(3, ''b.go:2'')]] \<and>
   exist (report_at ''b.go:2'') (filterStates [report_at ''a.go:1'', report_at ''b.go:2''] [])"
proof -
  have "\<forall>e \<in> set [report_at ''a.go:1'', report_at ''b.go:2'']. wf_map (tid2loc e)"
    by (simp add: report_at_def wf_map_def)
  from filters_dedupe [of "[]", OF _ this] show ?thesis
    by (simp add: filterStates_def exist_def mapsEqual_def report_at_def)
qed

section \<open>Races of one entry\<close>

text \<open>What an entry needs for the race detection to be exact.\<close>

definition race_ready :: "RFGraph \<Rightarrow> bool" where
  "race_ready g \<longleftrightarrow> wf_sync g \<and> wf_nodes g \<and> recorded_nodes g \<and> cache g = [] \<and>
     checked (rfgplus g) = [] \<and> races (rfgplus g) = [] \<and>
     (\<exists>root rest. roots g = root # rest \<and> root \<in> node_ids g \<and>
        (\<forall>i. reaches (kids g) root i \<longrightarrow> informs_ok g i))"

lemma all_races_add_nums [simp]:
  "all_races (fold (\<lambda>i r. add_num (f i) (h i) r) xs r) = all_races r"
  "all_races (add_num k v r) = all_races r"
  by (induction xs arbitrary: r) (auto simp: add_num_def)

text \<open>
  One entry with race detection on: for a program of several goroutines the analysis
  builds the happens-before edges, detects and summarizes without a panic, and afterwards the
  summary has exactly the races it had and those of the conflicting candidate pairs of the graph
  with its happens-before edges.
\<close>

lemma entry_races:
  assumes "proper_env E" and "DoRace E" and "Plus E" and "\<not> DoBlocking F" and "race_ready g"
    and "\<not> (length (roots g) = 1 \<and> AppPkg F \<noteq> [])"
  shows "\<exists>g1 r'. AddHappenBeforeEdges g = Ok g1 \<and> detectEntry fuel F E src entry g r = Ok r' \<and>
    (mhas (all_races r') k \<longleftrightarrow> mhas (all_races r) k \<or>
       (\<exists>a b. candidate E g1 a b \<and> conflict E src g1 a b \<and> k = race_key E a b))"
proof -
  note rr = assms(5) [unfolded race_ready_def]
  from rr obtain root rest where root: "roots g = root # rest" "root \<in> node_ids g"
    "\<forall>i. reaches (kids g) root i \<longrightarrow> informs_ok g i" by blast
  have "wf_sync g" using rr by blast
  from hb_edges_exact [OF this root, of E] obtain s sn se where
    hb: "AddHappenBeforeEdges g =
      Ok (g\<lparr>syncAdjList := s, rfgplus := (rfgplus g)\<lparr>size_node := sn, size_edge := se\<rparr>\<rparr>)"
    and wf: "wf_hb (E, g\<lparr>syncAdjList := s, rfgplus := (rfgplus g)\<lparr>size_node := sn, size_edge := se\<rparr>\<rparr>)"
    by blast
  define g1 where "g1 = g\<lparr>syncAdjList := s, rfgplus := (rfgplus g)\<lparr>size_node := sn, size_edge := se\<rparr>\<rparr>"
  have same: "cache g1 = []" "checked (rfgplus g1) = []" "races (rfgplus g1) = []"
    "node_ids g1 = node_ids g" "wf_nodes g1"
    using rr by (simp_all add: g1_def node_ids_def wf_nodes_def)
  have "recorded_nodes g" using rr by blast
  then have "recorded_nodes g1"
    unfolding recorded_nodes_def same(4) by (simp add: g1_def Let_def)
  moreover have "detectable E g1" using wf same by (simp add: detectable_def g1_def)
  moreover have "cache_sound E g1" using same by (simp add: cache_sound_def)
  ultimately obtain g2 where g2: "DetectRace E src g1 = Ok g2"
    "dom (mget (races (rfgplus g2))) = {race_key E a b | a b. candidate E g1 a b \<and> conflict E src g1 a b}"
    using races_exact [OF assms(1), of g1 src] same by blast
  have "\<exists>r'. detectEntry fuel F E src entry g r = Ok r' \<and>
      all_races r' = SummarizeRaces E entry (races (rfgplus g2)) (all_races r)"
    unfolding detectEntry_def if_not_P [OF assms(6)]
    using assms(2-4) hb g2(1)
    by (simp add: detect_blocking_def detect_races_def Let_def case_prod_beta flip: g1_def)
  then obtain r' where r': "detectEntry fuel F E src entry g r = Ok r'"
    "all_races r' = SummarizeRaces E entry (races (rfgplus g2)) (all_races r)" by blast
  have "mhas (races (rfgplus g2)) k \<longleftrightarrow>
      (\<exists>a b. candidate E g1 a b \<and> conflict E src g1 a b \<and> k = race_key E a b)"
    unfolding mhas_def domIff [symmetric] g2(2) by blast
  then have "mhas (all_races r') k \<longleftrightarrow> mhas (all_races r) k \<or>
      (\<exists>a b. candidate E g1 a b \<and> conflict E src g1 a b \<and> k = race_key E a b)"
    unfolding r'(2) by (auto simp: mhas_def SummarizeRaces_get [OF assms(1)] split: option.splits)
  with r'(1) hb show ?thesis unfolding g1_def by blast
qed

definition entry_graph :: RFGraph where
  "entry_graph = hb_graph\<lparr>rfgplus := rfgplus race_graph, roots := [1, 6]\<rparr>"

lemma entry_graph_ready: "race_ready entry_graph"
proof -
  have k: "kids entry_graph = kids hb_graph" "node_ids entry_graph = node_ids hb_graph"
    "informs_ok entry_graph = informs_ok hb_graph"
    by (auto simp: entry_graph_def kids_def node_ids_def informs_ok_def informs_def node_pts_def
        ptr_pts_def getPTS_def fun_eq_iff split: option.splits TypeOfNode.splits)
  have i: "informs entry_graph = informs hb_graph"
  proof
    fix n
    show "informs entry_graph n = informs hb_graph n"
      by (cases "typId n") (simp_all add: informs_def node_pts_def ptr_pts_def getPTS_def entry_graph_def
        split: option.splits)
  qed
  have c: "consumers_of entry_graph = consumers_of hb_graph"
    by (simp add: consumers_of_def entry_graph_def fun_eq_iff)
  have n: "id2node entry_graph = id2node hb_graph" by (simp add: entry_graph_def)
  have "sync_targets entry_graph i = sync_targets hb_graph i" for i
    unfolding sync_targets_def i c n ..
  then have "wf_sync entry_graph"
    using hb_graph_wf by (simp add: wf_sync_def wf_flow_def k) (simp add: entry_graph_def)
  moreover have "wf_nodes entry_graph" using hb_graph_wf by (simp add: entry_graph_def wf_nodes_def)
  moreover have "recorded_nodes entry_graph"
    using race_graph_ok unfolding recorded_nodes_def k
    by (simp add: entry_graph_def hb_graph_ids Let_def del: race_graph_records)
  moreover have "cache entry_graph = []" "checked (rfgplus entry_graph) = []"
    "races (rfgplus entry_graph) = []" "roots entry_graph = 1 # [6]"
    by (simp_all add: entry_graph_def) (simp add: hb_graph_def InitializeRFG_def)
  moreover have "1 \<in> node_ids entry_graph" by (simp add: k hb_graph_ids)
  ultimately show ?thesis using hb_graph_informs by (simp add: race_ready_def k)
qed

lemma entry_races_example:
  "\<exists>r'. detectEntry 0 \<lparr>DoBlocking = False, AppPkg = []\<rparr> (default_env\<lparr>DoRace := True, Plus := True\<rparr>)
      race_source ''main'' entry_graph
      (InitialPerformance [(''9-9'', race_of race_source (hb_access 2) (hb_access 5))]) = Ok r' \<and>
    mhas (all_races r') ''9-9''"
proof -
  let ?E = "default_env\<lparr>DoRace := True, Plus := True\<rparr>"
  have E: "proper_env ?E" "DoRace ?E" "Plus ?E"
    by (simp_all add: proper_env_def default_env_def is_range_order_id)
  have F: "\<not> DoBlocking \<lparr>DoBlocking = False, AppPkg = []\<rparr>" by simp
  have n: "\<not> (length (roots entry_graph) = 1 \<and> AppPkg \<lparr>DoBlocking = False, AppPkg = []\<rparr> \<noteq> [])" by (simp add: entry_graph_def)
  have "mhas (all_races (InitialPerformance [(''9-9'', race_of race_source (hb_access 2) (hb_access 5))])) ''9-9''"
    by (simp add: InitialPerformance_def mhas_def)
  with entry_races [OF E F entry_graph_ready n] show ?thesis by blast
qed

end
