(* ===== verification/ConstructProps.thy ===== *)
theory ConstructProps
  imports ConstructBlocks Detect VisitClaims
begin

text \<open>
  The construction of the graph as a whole: with enough fuel it ends, and the graph it returns satisfies
  what the exploration and the race detection need of it.
\<close>

section \<open>One level of the recursion\<close>

lemma in_range_nth: "in_range bbs i \<Longrightarrow> bbs ! nat i \<in> set bbs"
  by (simp add: in_range_def nat_less_iff)

lemma unskipped_mark:
  assumes "in_range bbs i" and "\<not> mget0 False (skips h) i" and "skips h' = mput i True (skips h)"
  shows "unskipped bbs h' < unskipped bbs h"
  unfolding unskipped_def
proof (rule psubset_card_mono)
  show "{j. in_range bbs j \<and> \<not> mget0 False (skips h') j} \<subset> {j. in_range bbs j \<and> \<not> mget0 False (skips h) j}"
    using assms by (auto simp: psubset_eq)
qed simp

lemma enter_block_ok:
  assumes P: "program_ok K" and d: "dfs_ok (bounded K f) dfs" and b: "bb_ok (bounded K f) dfsbb"
  shows "bb_ok (bounded K (Suc f)) (enter_block dfs dfsbb f (prog K) E)"
  unfolding bb_ok_def
proof (intro allI impI)
  fix w i parent prev
  assume w: "good (bounded K (Suc f)) w" and p: "prev \<in> node_ids (graph w)"
  let ?K = "bounded K f" and ?K' = "bounded K (Suc f)"
  let ?bbs = "fn_blocks (prog K) (here w)"
  let ?v = "\<lparr>prev_node = prev, cur_node = prev, helper = helper w, build = build w\<rparr>"
  let ?r = "if mget0 False (skips (helper w)) i \<or> bb_comment (?bbs ! nat i) = ''recover'' \<or>
        onlyDeferReturn (?bbs ! nat i) then Ok (prev, helper w, build w)
       else bindR (walk_block dfs dfsbb f (prog K) E parent (?bbs ! nat i) (skip_block i ?v))
            (\<lambda>w. Ok (prev_node w, helper w, build w))"
  have stay: "lands ?K' w (prev, w)" using goes_refl [OF w] p by simp
  have n: "here w \<in> set (funs K)" using w by (simp add: good_def)
  have "post (lands ?K' w) (bindR ?r (\<lambda>(l, h, b). Ok (l, w\<lparr>helper := h, build := b\<rparr>)))"
    if i: "in_range ?bbs i"
  proof (cases "mget0 False (skips (helper w)) i")
    case False
    have skip: "skip_block i ?v = ?v\<lparr>helper := (helper w)\<lparr>skips := mput i True (skips (helper w))\<rparr>\<rparr>"
      by (simp add: skip_block_def on_helper_def)
    have "unskipped ?bbs ((helper w)\<lparr>skips := mput i True (skips (helper w))\<rparr>) < unskipped ?bbs (helper w)"
      using i False by (rule unskipped_mark) simp
    moreover have "bb_need K w \<le> Suc f" using w by (simp add: good_def)
    ultimately have "bb_need K (skip_block i ?v) \<le> f" by (simp add: bb_need_def skip)
    then have v: "good ?K (skip_block i ?v)"
      using w p by (simp add: good_def skip deferred_ok_def)
    have idx: "0 \<le> bb_index (?bbs ! nat i)" using P n i by (auto simp: program_ok_def in_range_def)
    have "here (skip_block i ?v) = here w" by (simp add: skip)
    with in_range_nth [OF i] have bb: "?bbs ! nat i \<in> set (fn_blocks (prog ?K) (here (skip_block i ?v)))" by simp
    have "run ?K (skip_block i ?v) (walk_block dfs dfsbb f (prog ?K) E parent (?bbs ! nat i) (skip_block i ?v))"
      by (rule walk_block_run [OF _ d b v bb idx]) (simp_all add: P)
    then have "post (\<lambda>u. lands ?K' w (prev_node u, w\<lparr>helper := helper u, build := build u\<rparr>))
      (walk_block dfs dfsbb f (prog K) E parent (?bbs ! nat i) (skip_block i ?v))"
      unfolding bounded_fields
    proof (rule post_mono)
      fix u assume u: "goes ?K (skip_block i ?v) u"
      let ?w = "w\<lparr>helper := helper u, build := build u\<rparr>"
      have "good ?K u" using u by (rule goes_good)
      moreover have g: "enlarges (graph w) (graph u)" "here u = here w"
        "\<forall>i. mget0 False (skips (helper w)) i \<longrightarrow> mget0 False (skips (helper u)) i"
        using u by (auto simp: goes_def later_def skip)
      then have "later w ?w" by (simp add: later_def)
      ultimately show "lands ?K' w (prev_node u, ?w)"
        using w g by (auto simp: goes_def good_def bb_need_def intro: enlarges_ids [OF g(1)])
    qed
    with stay show ?thesis by simp
  qed (use stay in simp)
  then show "post (lands ?K' w) (walk_bb (enter_block dfs dfsbb f (prog K) E) i parent prev w)"
    by (cases "in_range ?bbs i") (simp_all add: walk_bb_def enter_block_def slice_get_def)
qed

section \<open>Functions\<close>

lemma start_block_run:
  assumes b: "bb_ok K dfsbb" and w: "good K w"
  shows "run K w (start_block dfsbb P parent bb w)"
proof -
  have n: "goes K w (on_helper f (append_node (loop_node w parent P bb t) w))"
    if "t \<noteq> NCancel" "\<And>h. cur_cgnode (f h) = cur_cgnode h \<and> skips (f h) = skips h \<and>
      defer_unlocks (f h) = defer_unlocks h \<and> defer_closes (f h) = defer_closes h" for t f
  proof -
    have "fresh_for w (loop_node w parent P bb t)"
      using that(1) by (simp add: fresh_for_def new_ok_def loop_node_def Let_def)
    note a = append_node_goes [OF w this]
    show ?thesis
      by (rule goes_trans [OF a helper_goes [OF goes_good [OF a]]])
        (use good_deferred [OF goes_good [OF a]] that(2) in \<open>simp_all add: deferred_ok_def\<close>)
  qed
  have p: "prev_node w \<in> node_ids (graph w)" using w by (simp add: good_def)
  have "run K w (bindR (walk_bb dfsbb (bb_index bb) (prev_node w) (prev_node w) w) (\<lambda>(l, w). Ok (w\<lparr>cur_node := l\<rparr>)))"
    unfolding post_bind
    by (rule post_mono [OF bb_okD [OF b w p]]) (auto intro: goes_trans [OF _ cur_goes [OF goes_good]])
  then show ?thesis
    by (simp add: start_block_def Let_def n del: post_bind)
qed

lemma record_gids_ext: "ok_graph g \<Longrightarrow> ext g (record_gids gids a b g)"
  unfolding record_gids_def by (rule ext_fold) (simp_all add: ext_refl)

lemma visit_loop_run:
  assumes b: "bb_ok K dfsbb" and w: "good K w" and x: "\<And>v. fresh_for v (exit_of v)"
  shows "run K w (visit_loop dfsbb P parent bb exit_of w)"
proof -
  let ?w = "w\<lparr>prev_node := cur_node w\<rparr>"
  have w1: "goes K w ?w" using w by (intro prev_goes) (simp_all add: good_def)
  have body: "run K v (bindR (walk_bb dfsbb body (prev_node v) (prev_node v) v) (\<lambda>(l, w).
           Ok (w\<lparr>cur_node := l, prev_node := l\<rparr>)))" if v: "good K v" for v body
  proof -
    have p: "prev_node v \<in> node_ids (graph v)" using v by (simp add: good_def)
    have m: "goes K v (u\<lparr>cur_node := l, prev_node := l\<rparr>)" if u: "goes K v u" "l \<in> node_ids (graph u)" for u l
    proof -
      have e: "u\<lparr>cur_node := l, prev_node := l\<rparr> = u\<lparr>prev_node := l, cur_node := l\<rparr>" by simp
      show ?thesis unfolding e by (rule goes_trans [OF u(1) move_goes [OF goes_good [OF u(1)] u(2)]])
    qed
    show ?thesis unfolding post_bind
      by (rule post_mono [OF bb_okD [OF b v p]]) (auto intro: m)
  qed
  have fin: "run K v (let w = on_graph (record_gids (gid1st (helper v)) nid_start (prev_node v)) v;
            w = on_helper (\<lambda>h. h\<lparr>gid1st := []\<rparr>) w
        in Ok (append_node (exit_of w) w))" if v: "good K v" for v nid_start
  proof -
    let ?g = "on_graph (record_gids (gid1st (helper v)) nid_start (prev_node v)) v"
    have g: "goes K v ?g"
      by (rule on_graph_goes [OF v], rule record_gids_ext [OF good_graph [OF v]])
    have h: "goes K ?g (on_helper (\<lambda>h. h\<lparr>gid1st := []\<rparr>) ?g)"
      using good_deferred [OF goes_good [OF g]]
      by (intro helper_goes [OF goes_good [OF g]]) (simp_all add: deferred_ok_def)
    note a = append_node_goes [OF goes_good [OF h] x]
    show ?thesis unfolding Let_def using goes_trans [OF goes_trans [OF g h] a] by simp
  qed
  have "run K ?w (bindR (loopR (\<lambda>body w. bindR (walk_bb dfsbb body (prev_node w) (prev_node w) w) (\<lambda>(l, w).
           Ok (w\<lparr>cur_node := l, prev_node := l\<rparr>))) bodies ?w) (\<lambda>w.
        let w = on_graph (record_gids (gid1st (helper w)) (prev_node ?w) (prev_node w)) w;
            w = on_helper (\<lambda>h. h\<lparr>gid1st := []\<rparr>) w
        in Ok (append_node (exit_of w) w)))" for bodies
    by (rule run_bind [OF run_loop [OF goes_good [OF w1]]], rule body, assumption, rule fin)
  then have "run K w (bindR (loopR (\<lambda>body w. bindR (walk_bb dfsbb body (prev_node w) (prev_node w) w) (\<lambda>(l, w).
           Ok (w\<lparr>cur_node := l, prev_node := l\<rparr>))) bodies ?w) (\<lambda>w.
        let w = on_graph (record_gids (gid1st (helper w)) (prev_node ?w) (prev_node w)) w;
            w = on_helper (\<lambda>h. h\<lparr>gid1st := []\<rparr>) w
        in Ok (append_node (exit_of w) w)))" for bodies
    by (rule post_mono) (rule goes_trans [OF w1])
  then show ?thesis
    unfolding visit_loop_def Let_def post_bind [of _ "getLoopBBs _ _ _"]
    by (rule post_mono [OF post_fuel [OF getLoopBBs_fuel]])
qed

lemma visit_block_run:
  assumes b: "bb_ok K dfsbb" and w: "good K w"
  shows "run K w (visit_block dfsbb P parent bb w)"
  unfolding visit_block_def
proof (rule run_bind [OF start_block_run [OF b w]])
  fix v assume v: "good K v"
  have h: "run K v (bindR (visit_loop dfsbb P parent bb exit_of v) (\<lambda>w. Ok (on_helper f w)))"
    if "\<And>v. fresh_for v (exit_of v)" "\<And>h. cur_cgnode (f h) = cur_cgnode h \<and> skips (f h) = skips h \<and>
      defer_unlocks (f h) = defer_unlocks h \<and> defer_closes (f h) = defer_closes h" for exit_of f
  proof (rule run_bind [OF visit_loop_run [OF b v that(1)]])
    fix u assume u: "good K u"
    have "goes K u (on_helper f u)"
      using good_deferred [OF u] that(2) by (intro helper_goes [OF u]) (simp_all add: deferred_ok_def)
    then show "run K u (Ok (on_helper f u))" by simp
  qed
  have "goes K v (v\<lparr>prev_node := cur_node v\<rparr>)" using v by (intro prev_goes) (simp_all add: good_def)
  then show "run K v (let h = helper v; loop_exit = (\<lambda>w. (fresh w parent NLoop)\<lparr>loop_name := h_loop_name (helper w)\<rparr>) in
     if h_in_roc h then
       bindR (visit_loop dfsbb P parent bb
           (\<lambda>w. (fresh w parent NROC)\<lparr>roc_name := h_roc_name (helper w), enterROC := False\<rparr>) v)
         (\<lambda>w. Ok (on_helper (\<lambda>h. h\<lparr>h_in_roc := False\<rparr>) w))
     else if h_in_loop h then
       bindR (visit_loop dfsbb P parent bb loop_exit v) (\<lambda>w. Ok (on_helper (\<lambda>h. h\<lparr>h_in_loop := False\<rparr>) w))
     else if h_in_for_loop h then
       bindR (visit_loop dfsbb P parent bb loop_exit v) (\<lambda>w. Ok (on_helper (\<lambda>h. h\<lparr>h_in_for_loop := False\<rparr>) w))
     else Ok (v\<lparr>prev_node := cur_node v\<rparr>))"
    unfolding Let_def by (intro post_if h) (simp_all add: fresh_for_def new_ok_def)
qed

lemma release_deferred_post:
  assumes "ok_graph g" shows "post (ext g) (release_deferred E ids g)"
proof -
  have l: "ok_graph h \<Longrightarrow> ext h (UpdateLockset n h)" for h n
    by (rule same_nodes_ext) (simp_all add: ok_graph_def)
  have "post (ext g) (loopR (\<lambda>i g. bindR (node_at g i) (\<lambda>n. Ok (UpdateLockset n g))) is g)" for "is"
    by (rule post_loop) (auto intro: ext_refl [OF assms] ext_trans l dest: ext_ok)
  then show ?thesis using ext_refl [OF assms] by (simp add: release_deferred_def)
qed

lemma CheckCompleteFlow_fuel: "wf_function bbs \<Longrightarrow> post (\<lambda>_. True) (CheckCompleteFlow lines g cg bbs)"
  using CheckCompleteFlow_errs [of bbs g cg lines] by (auto simp: post_is_ok)

lemma visit_function_post:
  assumes P: "program_ok K" and b: "bb_ok K dfsbb" and ok: "ok_builder bd" and i: "i \<in> node_ids (bg bd)"
    and n: "n \<in> set (funs K)" and f: "dfs_need K (bg bd) + length (fn_blocks (prog K) n) + 1 \<le> fuel_left K"
  shows "post (\<lambda>x. bext bd (snd x) \<and> fst x \<in> node_ids (bg (snd x))) (visit_function dfsbb (prog K) E n i tid bd)"
proof -
  let ?w = "\<lparr>prev_node = i, cur_node = i, helper = new_helper n tid, build = bd\<rparr>"
  have u: "unskipped (fn_blocks (prog K) n) (new_helper n tid) \<le> length (fn_blocks (prog K) n)"
  proof -
    have "{k. in_range (fn_blocks (prog K) n) k \<and> \<not> mget0 False (skips (new_helper n tid)) k} \<subseteq>
        {0..<int (length (fn_blocks (prog K) n))}" by (auto simp: in_range_def)
    from card_mono [OF _ this] show ?thesis by (simp add: unskipped_def)
  qed
  have w: "good K ?w"
    using ok i n f u by (simp add: good_def deferred_ok_def bb_need_def) (simp add: new_helper_def)
  have wf: "wf_function (fn_blocks (prog K) n)" using P n by (simp add: program_ok_def)
  have "run K ?w (loopR (visit_block dfsbb (prog K) i) (fn_blocks (prog K) n) ?w)"
    by (rule run_loop [OF w]) (rule visit_block_run [OF b])
  then show ?thesis unfolding visit_function_def post_bind [of _ "loopR _ _ _"]
  proof (rule post_mono)
    fix w assume w: "goes K ?w w"
    have g: "ok_graph (graph w)" by (rule good_graph [OF goes_good [OF w]])
    show "post (\<lambda>x. bext bd (snd x) \<and> fst x \<in> node_ids (bg (snd x)))
       (bindR (release_deferred E (defer_unlocks (helper w)) (graph w)) (\<lambda>g.
        bindR (CheckCompleteFlow (line_of (prog K)) g n (fn_blocks (prog K) n)) (\<lambda>es.
        Ok (prev_node w, (build w)\<lparr>bg := g\<lparr>cferrs := cferrs g @ es\<rparr>\<rparr>))))"
      unfolding post_bind
    proof (rule post_mono [OF release_deferred_post [OF g]])
      fix h assume h: "ext (graph w) h"
      have ok: "ok_builder (build w)" using goes_good [OF w] by (simp add: good_def)
      have e: "bext (build w) ((build w)\<lparr>bg := h\<lparr>cferrs := cferrs h @ es\<rparr>\<rparr>)" for es
        using ok by (rule bext_graph) (use h in simp)
      have "bext bd (build w)" using w ok by (simp add: goes_def later_def bext_def)
      note r = bext_trans [OF this e]
      have "prev_node w \<in> node_ids (graph w)" using goes_good [OF w] by (simp add: good_def)
      note p = bext_ids [OF e this]
      show "post (\<lambda>es. post (\<lambda>x. bext bd (snd x) \<and> fst x \<in> node_ids (bg (snd x)))
          (Ok (prev_node w, (build w)\<lparr>bg := h\<lparr>cferrs := cferrs h @ es\<rparr>\<rparr>)))
        (CheckCompleteFlow (line_of (prog K)) h n (fn_blocks (prog K) n))"
        by (rule post_mono [OF CheckCompleteFlow_fuel [OF wf]]) (use r p in simp)
    qed
  qed
qed

section \<open>The recursion\<close>

lemma sum_list_member: "n \<in> set ns \<Longrightarrow> f n \<le> sum_list (map f ns)" for f :: "cg_node \<Rightarrow> nat"
  by (induction ns) auto

lemma blocks_le: "n \<in> set ns \<Longrightarrow> length (fn_blocks P n) \<le> block_count P ns"
  using sum_list_member [of n ns "length \<circ> fn_blocks P"] by (simp add: block_count_def)

lemma budget_visit:
  assumes s: "s \<in> set (sigs P ns)" and l: "mget0 0 (g_visited g) s < limit"
    and v: "\<And>t. mget0 0 (g_visited g') t = (if t = s then mget0 0 (g_visited g) s + 1 else mget0 0 (g_visited g) t)"
  shows "budget P ns g' + 1 = budget P ns g"
proof -
  have "(\<Sum>t \<in> set (sigs P ns) - {s}. nat (limit - mget0 0 (g_visited g') t)) =
      (\<Sum>t \<in> set (sigs P ns) - {s}. nat (limit - mget0 0 (g_visited g) t))"
    by (rule sum.cong) (auto simp: v)
  then show ?thesis using l by (simp add: budget_def sum.remove [OF finite_set s] v)
qed

lemma dfs_need_visit:
  assumes "s \<in> set (sigs (prog K) (funs K))" and "mget0 0 (g_visited g) s < limit"
    and "\<And>t. mget0 0 (g_visited g') t = (if t = s then mget0 0 (g_visited g) s + 1 else mget0 0 (g_visited g) t)"
  shows "dfs_need K g' + block_count (prog K) (funs K) + 2 = dfs_need K g"
proof -
  have "budget (prog K) (funs K) g = budget (prog K) (funs K) g' + 1"
    using budget_visit [OF assms] by simp
  then show ?thesis by (simp add: dfs_need_def algebra_simps)
qed

text \<open>What \<open>DFS\<close> needs: the callee is known, its signature may be visited, and the fuel is enough.\<close>

definition may_visit :: "bounds \<Rightarrow> cg_node \<Rightarrow> int option \<Rightarrow> instruction option \<Rightarrow> bool \<Rightarrow> builder \<Rightarrow> bool" where
  "may_visit K n parent creation thread b \<longleftrightarrow> ok_builder b \<and> n \<in> set (funs K) \<and> known K creation \<and>
     (case parent of None \<Rightarrow> thread | Some p \<Rightarrow> p \<in> node_ids (bg b)) \<and>
     (\<exists>sig. getSig (site_of creation) (cg_func n) (cg_ctx (prog K) n) = Ok sig \<and>
        mget0 0 (g_visited (bg b)) sig < limit) \<and>
     dfs_need K (bg b) \<le> fuel_left K"

lemma getSig_known:
  assumes "n \<in> set (funs K)" and "known K creation"
    and "getSig (site_of creation) (cg_func n) (cg_ctx (prog K) n) = Ok sig"
  shows "sig \<in> set (sigs (prog K) (funs K))"
  using assms
  by (cases creation)
    (auto simp: getSig_def site_of_def known_def sigs_def split: instr_kind.splits intro!: bexI [of _ n])

lemma entry_node_post:
  assumes "ok_graph g"
  shows "post (\<lambda>x. node_id (fst x) = next_ID g \<and> new_ok (fst x) \<and>
      snd x = (if thread then g\<lparr>roots := roots g @ [next_ID g]\<rparr> else g)) (entry_node P n parent creation thread g)"
  by (simp add: entry_node_def new_ok_def zero_node_def split: option.split)

text \<open>Registering the first node of a goroutine, which is also a root.\<close>

lemma root_ext:
  assumes g: "ok_graph g" and n: "node_id n = next_ID g" "new_ok n"
    and h: "h = g \<or> h = g\<lparr>roots := roots g @ [next_ID g]\<rparr>"
    and l: "mget0 0 (g_visited g) s < limit"
  shows "ext g (updateNodes p n skip (h\<lparr>g_visited := mput s (mget0 0 (g_visited h) s + 1) (g_visited h)\<rparr>))"
proof -
  let ?v = "g\<lparr>g_visited := mput s (mget0 0 (g_visited g) s + 1) (g_visited g)\<rparr>"
  let ?u = "updateNodes p n skip ?v"
  have v: "ext g ?v" using g l by (rule visited_ext)
  have "ext ?v ?u" using n by (intro updateNodes_ext [OF ext_ok [OF v]]) simp_all
  then have u: "ext g ?u" using ext_trans [OF v] by blast
  have r: "updateNodes p n skip (f\<lparr>roots := rs\<rparr>) = (updateNodes p n skip f)\<lparr>roots := rs\<rparr>" for f rs
    by (simp add: updateNodes_def Let_def)
  have "ext g (?u\<lparr>roots := roots g @ [next_ID g]\<rparr>)"
  proof -
    have t: "typ_at (?u\<lparr>roots := rs\<rparr>) = typ_at ?u" "node_ids (?u\<lparr>roots := rs\<rparr>) = node_ids ?u" for rs
      by (simp_all add: typ_at_def node_ids_def fun_eq_iff)
    have k: "node_ok (?u\<lparr>roots := rs\<rparr>) = node_ok ?u" for rs by (simp add: node_ok_def t fun_eq_iff)
    have w: "wf_build (?u\<lparr>roots := rs\<rparr>) = wf_build ?u" for rs by (simp add: wf_build_def wf_nodes_def t)
    have "next_ID g \<in> node_ids ?u" by (simp add: node_ids_updateNodes)
    moreover have "set (roots g) \<subseteq> node_ids ?u" using u by (simp add: ext_def ok_graph_def)
    ultimately show ?thesis using u by (simp add: ext_def ok_graph_def enlarges_def t k w)
  qed
  with u h show ?thesis
  proof (elim disjE)
    assume "h = g\<lparr>roots := roots g @ [next_ID g]\<rparr>"
    then have "h\<lparr>g_visited := mput s (mget0 0 (g_visited h) s + 1) (g_visited h)\<rparr> =
        ?v\<lparr>roots := roots g @ [next_ID g]\<rparr>" by simp
    with \<open>ext g (?u\<lparr>roots := roots g @ [next_ID g]\<rparr>)\<close> show ?thesis by (simp only: r)
  qed simp
qed

lemma follow_calls_post:
  assumes "ok_builder b" shows "post (bext b) (follow_calls dfs P n i b)"
proof -
  have "doVisit sc g site (Some c) None = Ok False \<or> (\<exists>p. doVisit sc g site (Some c) None = Panic p)" for sc g site c
    by (cases c) (simp add: doVisit_def)
  then have v: "post (\<lambda>go_on. \<not> go_on) (doVisit sc g site (Some c) None)" for sc g site c
    by (metis post_simps(1,2))
  show ?thesis unfolding follow_calls_def
  proof (rule post_loop)
    fix e u assume u: "bext b u"
    show "post (bext b) (bindR (doVisit (in_scope P) (bg u) (call_site_of (edge_site e))
        (Some (callee_sig P (edge_callee e))) None) (\<lambda>go_on. if \<not> go_on then Ok u
         else bindR (dfs (edge_callee e) (Some i) (edge_site e) False u) (\<lambda>(_, _, b). Ok b)))"
      unfolding post_bind [of _ "doVisit _ _ _ _ _"] by (rule post_mono [OF v]) (use u in simp)
  qed (rule bext_refl [OF assms])
qed

definition returned :: "bool \<Rightarrow> builder \<Rightarrow> int \<times> int \<times> builder \<Rightarrow> bool" where
  "returned thread b x \<longleftrightarrow> bext b (snd (snd x)) \<and> (thread \<longrightarrow> roots (bg (snd (snd x))) \<noteq> []) \<and> fst x \<in> node_ids (bg (snd (snd x))) \<and>
     fst (snd x) \<in> node_ids (bg (snd (snd x)))"

lemma DFS_step:
  assumes P: "program_ok K" and b: "bb_ok (bounded K f) dfsbb" and m: "may_visit (bounded K (Suc f)) n parent creation thread bd"
  shows "post (returned thread bd) (bindR (entry_node (prog K) n parent creation thread (bg bd)) (\<lambda>(e, g).
     bindR (getSig (site_of creation) (cg_func n) (cg_ctx (prog K) n)) (\<lambda>sig.
       let g = g\<lparr>g_visited := mput sig (mget0 0 (g_visited g) sig + 1) (g_visited g)\<rparr>;
           g = updateNodes parent e (parent = None) g;
           i = node_id e; b = bd\<lparr>bg := g\<rparr> in
       if \<not> hasInterestingInsts E (fn_blocks (prog K) n) then
         bindR (follow_calls dfs (prog K) n i b) (\<lambda>b. Ok (i, i, b))
       else if cg_func n = ''context.WithCancel$1'' then Ok (i, i, b)
       else bindR (visit_function dfsbb (prog K) E n i (gid e) b) (\<lambda>(l, b). Ok (i, l, b)))))"
  unfolding post_bind [of _ "entry_node _ _ _ _ _ _"]
proof (rule post_mono [OF entry_node_post])
  have ok: "ok_builder bd" and n: "n \<in> set (funs K)" and k: "known K creation"
    and lim: "\<And>sig. getSig (site_of creation) (cg_func n) (cg_ctx (prog K) n) = Ok sig \<Longrightarrow>
        mget0 0 (g_visited (bg bd)) sig < limit"
    and need: "dfs_need K (bg bd) \<le> Suc f"
    using m by (auto simp: may_visit_def)
  show g: "ok_graph (bg bd)" using ok by (rule ok_builder_graph)
  fix x assume x: "node_id (fst x) = next_ID (bg bd) \<and> new_ok (fst x) \<and>
      snd x = (if thread then (bg bd)\<lparr>roots := roots (bg bd) @ [next_ID (bg bd)]\<rparr> else bg bd)"
  obtain e h where eh: "x = (e, h)" by (cases x)
  have "post (\<lambda>sig. post (returned thread bd) (let g = h\<lparr>g_visited := mput sig (mget0 0 (g_visited h) sig + 1) (g_visited h)\<rparr>;
           g = updateNodes parent e (parent = None) g;
           i = node_id e; b = bd\<lparr>bg := g\<rparr> in
       if \<not> hasInterestingInsts E (fn_blocks (prog K) n) then
         bindR (follow_calls dfs (prog K) n i b) (\<lambda>b. Ok (i, i, b))
       else if cg_func n = ''context.WithCancel$1'' then Ok (i, i, b)
       else bindR (visit_function dfsbb (prog K) E n i (gid e) b) (\<lambda>(l, b). Ok (i, l, b))))
     (getSig (site_of creation) (cg_func n) (cg_ctx (prog K) n))"
  proof (cases "getSig (site_of creation) (cg_func n) (cg_ctx (prog K) n)")
    case (Ok sig)
    let ?g = "updateNodes parent e (parent = None)
      (h\<lparr>g_visited := mput sig (mget0 0 (g_visited h) sig + 1) (g_visited h)\<rparr>)"
    let ?b = "bd\<lparr>bg := ?g\<rparr>" and ?i = "node_id e"
    have ext: "ext (bg bd) ?g" using x unfolding eh
      by (intro root_ext [OF g _ _ _ lim [OF Ok]]) (simp_all split: if_splits)
    have be: "bext bd ?b" by (rule bext_graph [OF ok ext])
    have i: "?i \<in> node_ids (bg ?b)" using x unfolding eh by (auto simp: node_ids_updateNodes)
    have v: "mget0 0 (g_visited ?g) t =
        (if t = sig then mget0 0 (g_visited (bg bd)) sig + 1 else mget0 0 (g_visited (bg bd)) t)" for t
      using x unfolding eh by (auto split: if_splits)
    have root: "thread \<longrightarrow> roots ?g \<noteq> []" using x unfolding eh by simp
    have "dfs_need K ?g + block_count (prog K) (funs K) + 2 = dfs_need K (bg bd)"
      by (rule dfs_need_visit [OF getSig_known [OF n k Ok] lim [OF Ok] v])
    then have fuel: "dfs_need (bounded K f) (bg ?b) + length (fn_blocks (prog (bounded K f)) n) + 1 \<le> fuel_left (bounded K f)"
      using need blocks_le [OF n, of "prog K"] by simp
    have r: "returned thread bd (?i, l, c)" if "bext ?b c" "l \<in> node_ids (bg c)" for l c
      using that bext_trans [OF be that(1)] bext_ids [OF that(1) i] root
      by (auto simp: returned_def bext_def enlarges_def)
    have stop: "returned thread bd (?i, ?i, ?b)" using i be by (intro r bext_refl) (simp_all add: bext_def)
    have follow: "post (returned thread bd) (bindR (follow_calls dfs (prog K) n ?i ?b) (\<lambda>b. Ok (?i, ?i, b)))"
      unfolding post_bind
      by (rule post_mono [OF follow_calls_post [OF bext_ok [OF be]]]) (auto intro: r bext_ids [OF _ i])
    have "post (returned thread bd) (bindR (visit_function dfsbb (prog (bounded K f)) E n ?i (gid e) ?b) (\<lambda>(l, b). Ok (?i, l, b)))"
      unfolding post_bind
      by (rule post_mono [OF visit_function_post [OF _ b bext_ok [OF be] i _ fuel]])
        (use P n in \<open>auto intro: r\<close>)
    with stop follow Ok show ?thesis by (simp add: Let_def del: post_bind)
  qed (use getSig_fuel in auto)
  then show "post (returned thread bd) (case x of (e, g) \<Rightarrow>
     bindR (getSig (site_of creation) (cg_func n) (cg_ctx (prog K) n)) (\<lambda>sig.
       let g = g\<lparr>g_visited := mput sig (mget0 0 (g_visited g) sig + 1) (g_visited g)\<rparr>;
           g = updateNodes parent e (parent = None) g;
           i = node_id e; b = bd\<lparr>bg := g\<rparr> in
       if \<not> hasInterestingInsts E (fn_blocks (prog K) n) then
         bindR (follow_calls dfs (prog K) n i b) (\<lambda>b. Ok (i, i, b))
       else if cg_func n = ''context.WithCancel$1'' then Ok (i, i, b)
       else bindR (visit_function dfsbb (prog K) E n i (gid e) b) (\<lambda>(l, b). Ok (i, l, b))))"
    unfolding eh prod.case post_bind [of _ "getSig _ _ _"] .
qed

lemma visits_sig:
  assumes "visits P site (Some c) w = Ok True"
  shows "\<exists>sig. getSig site (cg_func c) (cg_ctx P c) = Ok sig \<and> mget0 0 (g_visited (graph w)) sig < limit"
  using assms by (auto simp: visits_def doVisit_def callee_sig_def split: if_splits)

lemma dfs_ok_of_returned:
  assumes "\<And>n parent creation thread b. may_visit K n parent creation thread b \<Longrightarrow>
      post (returned thread b) (dfs n parent creation thread b)"
  shows "dfs_ok K dfs"
  unfolding dfs_ok_def
proof (intro allI impI)
  fix w callee prev inst thread
  assume w: "good K w" and p: "prev \<in> node_ids (graph w)" and c: "callee \<in> set (funs K)"
    and k: "known K inst" and v: "visits (prog K) (site_of inst) (Some callee) w = Ok True"
  have "may_visit K callee (Some prev) inst thread (build w)"
    using w p c k visits_sig [OF v] by (simp add: may_visit_def good_def bb_need_def)
  from assms [OF this] show "post (\<lambda>x. goes K w (snd (snd x)) \<and> fst x \<in> node_ids (graph (snd (snd x))) \<and>
         fst (snd x) \<in> node_ids (graph (snd (snd x)))) (call_DFS dfs callee prev inst thread w)"
    unfolding call_DFS_def post_bind
    by (rule post_mono) (auto simp: returned_def intro: build_goes [OF w])
qed

lemma walk_post:
  assumes P: "program_ok K"
  shows "bb_ok (bounded K f) (DFSBB f (prog K) E)"
    "may_visit (bounded K f) n parent creation thread b \<Longrightarrow>
       post (returned thread b) (DFS f (prog K) E n parent creation thread b)"
proof (induction f arbitrary: n parent creation thread b)
  case 0
  {
    case 1
    show ?case by (simp add: bb_ok_def good_def bb_need_def)
  next
    case 2
    then obtain sig where "getSig (site_of creation) (cg_func n) (cg_ctx (prog K) n) = Ok sig"
      "mget0 0 (g_visited (bg b)) sig < limit" and m: "n \<in> set (funs K)" "known K creation" "dfs_need K (bg b) = 0"
      by (auto simp: may_visit_def)
    with dfs_need_visit [OF getSig_known [OF m(1,2)], of sig "bg b" "(bg b)\<lparr>g_visited :=
          mput sig (mget0 0 (g_visited (bg b)) sig + 1) (g_visited (bg b))\<rparr>"] show ?case by simp
  }
next
  case (Suc f)
  {
    case 1
    have "dfs_ok (bounded K f) (DFS f (prog K) E)"
      using Suc.IH(2) by (intro dfs_ok_of_returned) simp
    from enter_block_ok [OF P this Suc.IH(1), of E] show ?case
      by (simp add: fun_eq_iff bb_ok_def walk_bb_def)
  next
    case 2
    from DFS_step [OF P Suc.IH(1) 2] show ?case by simp
  }
qed

section \<open>The finished graph\<close>

lemma ok_graph_sync:
  assumes g: "ok_graph g" shows "wf_sync g"
proof -
  have w: "wf_build g" using g by (simp add: ok_graph_def)
  have "set (kids g i) \<subseteq> node_ids g" for i using w by (simp add: wf_build_def kids_def)
  moreover have "set (consumers_of g obj) \<subseteq> node_ids g" for obj
    using w by (cases "mget (resources g) obj") (auto simp: wf_build_def consumers_of_def)
  then have "set (sync_targets g i) \<subseteq> node_ids g" for i
    by (fastforce simp: sync_targets_def split: option.splits res.splits)
  moreover have "set (case_ids n) \<subseteq> node_ids g" if "mget (id2node g) i = Some n" for i n
  proof -
    have "node_ok g n" using g that by (simp add: ok_graph_def)
    then show ?thesis by (auto simp: case_ids_def node_ok_def node_ids_typ split: option.splits)
  qed
  ultimately show ?thesis using g by (simp add: wf_sync_def wf_flow_def ok_graph_def)
qed

lemma ok_graph_informs:
  assumes "ok_graph g" and "i \<in> node_ids g" shows "informs_ok g i"
proof -
  from assms(2) obtain n where n: "mget (id2node g) i = Some n" by (auto simp: node_ids_iff)
  with assms(1) have "node_ok g n" by (simp add: ok_graph_def)
  then show ?thesis using n
    by (auto simp: informs_ok_def informs_def node_pts_def node_ok_def split: TypeOfNode.split)
qed

lemma ok_graph_ready:
  assumes g: "ok_graph g" and r: "roots g \<noteq> []"
  shows "race_ready g"
proof -
  obtain root rest where root: "roots g = root # rest" using r by (cases "roots g") auto
  with g have i: "root \<in> node_ids g" by (simp add: ok_graph_def)
  have w: "wf_sync g" using g by (rule ok_graph_sync)
  then have "wf_flow g" by (simp add: wf_sync_def)
  then have "\<forall>i. reaches (kids g) root i \<longrightarrow> informs_ok g i"
    using flow.reaches_nodes [OF _ i] ok_graph_informs [OF g] by blast
  moreover have "recorded_nodes g"
    using g unfolding ok_graph_def access_nodes_def nodes_in_def recorded_nodes_def Let_def by blast
  ultimately show ?thesis using g w root i by (simp add: race_ready_def ok_graph_def wf_build_def)
qed

lemma ok_graph_selects:
  assumes "ok_graph g" shows "wf_selects g"
proof -
  have "ids_ok g" using ok_graph_id [OF assms] by (simp add: ids_ok_def)
  moreover have "typId cn \<noteq> NSelect"
    if "mget (id2node g) i = Some n" "Some c \<in> set (sel_cases n)" "mget (id2node g) c = Some cn" for i n c cn
  proof -
    have "node_ok g n" using assms that(1) by (simp add: ok_graph_def)
    with that(2,3) show ?thesis by (auto simp: node_ok_def typ_at_def)
  qed
  ultimately show ?thesis unfolding wf_selects_def by blast
qed

lemma ok_graph_initial: "ok_graph (InitializeRFG pta)"
  by (simp add: ok_graph_def InitializeRFG_def InitializeRFGPlus_def wf_build_def wf_nodes_def node_ids_def
      access_nodes_def nodes_in_def accesses_at_def limit_def)

lemma CreateGraph_post:
  assumes P: "program_ok K" and n: "entry \<in> set (funs K)" and f: "dfs_need K (InitializeRFG pta) \<le> fuel"
  shows "post (\<lambda>b. ok_graph (bg b) \<and> roots (bg b) \<noteq> []) (CreateGraph fuel (prog K) E rw pta entry)"
proof -
  let ?b = "\<lparr>bg = InitializeRFG pta, next_RW = rw, inst2rwnode = []\<rparr>"
  have "may_visit (bounded K fuel) entry None None True ?b"
    using ok_graph_initial n f
    by (simp add: may_visit_def ok_builder_def getSig_def site_of_def limit_def) (simp add: InitializeRFG_def)
  from walk_post(2) [OF P this, of E] show ?thesis
    unfolding CreateGraph_def post_bind [of _ "DFS _ _ _ _ _ _ _ _"]
  proof (rule post_mono)
    fix x assume x: "returned True ?b x"
    obtain p l b where e: "x = (p, l, b)" by (cases x)
    let ?ex = "zero_node\<lparr>node_id := next_ID (bg b), typId := NExit, cgnode := entry, parent_id := -1, gid := 0\<rparr>"
    have ok: "ok_graph (bg b)" "roots (bg b) \<noteq> []" using x e by (auto simp: returned_def bext_def ok_builder_def)
    have "ext (bg b) (updateNodes (Some l) ?ex False (bg b))"
      by (rule updateNodes_ext [OF ok(1)]) (simp_all add: new_ok_def zero_node_def)
    with ok show "post (\<lambda>b. ok_graph (bg b) \<and> roots (bg b) \<noteq> []) (case x of (_, last_id, b) \<Rightarrow>
       let ex = zero_node\<lparr>node_id := next_ID (bg b), typId := NExit, cgnode := entry, parent_id := -1, gid := 0\<rparr>
       in Ok (b\<lparr>bg := updateNodes (Some last_id) ex False (bg b)\<rparr>))"
      by (simp add: e Let_def ext_def)
  qed
qed

text \<open>The fuel: a level per allowed visit and per block of the function visited, and the address chains.\<close>

definition construction_fuel :: "program \<Rightarrow> cg_node list \<Rightarrow> nat \<Rightarrow> nat" where
  "construction_fuel P ns d = nat limit * card (set (sigs P ns)) * (block_count P ns + 2) + d"

lemma construction_fuel_enough:
  "construction_fuel (prog K) (funs K) (chains K) = dfs_need K (InitializeRFG pta)"
  by (simp add: construction_fuel_def dfs_need_def budget_def InitializeRFG_def)

end
