(* ===== verification/Analysis.thy ===== *)
theory Analysis
  imports RFGWalk Detect
begin

text \<open>
  \<open>concurrency/detect.go\<close>: the analysis of an entry from its graph on, and of all entries of the analysed
  packages. The positions of reports, which \<open>DetectBugs\<close> prints at the end, are left out.
\<close>

text \<open>The graph is created first; \<open>detectEntry\<close> of theory \<open>Detect\<close> goes on from there.\<close>

definition analyzeEntry ::
  "nat \<Rightarrow> nat \<Rightarrow> flags \<Rightarrow> env \<Rightarrow> source \<Rightarrow> program \<Rightarrow> pta_result \<Rightarrow> cg_node \<Rightarrow> int \<times> results \<Rightarrow> (int \<times> results) res" where
  "analyzeEntry fuel explore_fuel F E src P ptResult entry = (\<lambda>(ID_RW, r).
     bindR (CreateGraph fuel P E ID_RW ptResult entry) (\<lambda>b.
     bindR (detectEntry explore_fuel F E src (cg_func entry) (bg b) r) (\<lambda>r. Ok (next_RW b, r))))"

text \<open>The result of the pointer analysis for one package, with the call graph it contains.\<close>

record pta_package =
  pkg_prog :: program
  pkg_pta :: pta_result
  IsTest :: bool
  TestEntries :: "cg_node list"
  root_out :: "cg_edge list"     \<comment> \<open>\<open>CallGraph.Root.Out\<close>\<close>

definition pkg_entries :: "pta_package \<Rightarrow> cg_node list res" where
  "pkg_entries res' = (if IsTest res' then Ok (TestEntries res')
     else bindR (slice_get (root_out res') 1) (\<lambda>e. Ok [edge_callee e]))"

text \<open>The loop over the packages, in the order in which the range visits them.\<close>

definition DetectBugs ::
  "nat \<Rightarrow> nat \<Rightarrow> flags \<Rightarrow> env \<Rightarrow> source \<Rightarrow> pta_package list \<Rightarrow> int \<times> results \<Rightarrow> (int \<times> results) res" where
  "DetectBugs fuel explore_fuel F E src = loopR (\<lambda>res' s. bindR (pkg_entries res') (\<lambda>entries.
     loopR (analyzeEntry fuel explore_fuel F E src (pkg_prog res') (pkg_pta res')) entries s))"

end
