(* ===== verification/ConstructClaims.thy ===== *)
theory ConstructClaims
  imports ConstructProps Analysis
begin

text \<open>
  The properties of the construction of the graph, from the entry function to the reported races.
\<close>

section \<open>A program\<close>

text \<open>
  \<open>main\<close> starts \<open>worker\<close> with \<open>go\<close>, writes \<open>x\<close>, receives from \<open>c\<close> and returns; \<open>worker\<close> writes \<open>x\<close> and
  sends on \<open>c\<close>. The object of a value is its identity.
\<close>

definition demo_value :: "nat \<Rightarrow> ssa_value" where
  "demo_value i = \<lparr>val_id = i, val_global = False, val_type = ''int'', val_str = ''v'', val_name = ''t''\<rparr>"

definition demo_main :: cg_node where
  "demo_main = \<lparr>cg_id = 0, cg_func = ''m''\<rparr>"

definition demo_worker :: cg_node where
  "demo_worker = \<lparr>cg_id = 1, cg_func = ''w''\<rparr>"

definition demo_call :: call_common where
  "demo_call = \<lparr>cc_id = 1, cc_name = ''w'', cc_args = [], cc_value = demo_value 1, cc_method = None, cc_str = ''w()''\<rparr>"

definition demo_instr :: "nat \<Rightarrow> instr_kind \<Rightarrow> instruction" where
  "demo_instr i k = \<lparr>inst_id = i, inst_pos = int i, inst_str = ''i'', inst_block = 0, inst_kind = k,
     inst_val = demo_value (100 + i)\<rparr>"

definition demo_block :: "instruction list \<Rightarrow> basic_block" where
  "demo_block is = \<lparr>bb_index = 0, bb_comment = ''entry'', bb_instrs = is, bb_succs = []\<rparr>"

definition demo_blocks :: "cg_node \<Rightarrow> basic_block list" where
  "demo_blocks n = (if cg_id n = 0 then
       [demo_block [demo_instr 1 (KGo demo_call), demo_instr 2 (KStore (demo_value 9)),
          demo_instr 3 (KUnOp ARROW (demo_value 8)), demo_instr 4 (KReturn [])]]
     else [demo_block [demo_instr 5 (KStore (demo_value 9)), demo_instr 6 (KSend (demo_value 8) (demo_value 7)),
          demo_instr 7 (KReturn [])]])"

definition demo_program :: program where
  "demo_program = \<lparr>fn_blocks = demo_blocks,
     cg_out = (\<lambda>n. if cg_id n = 0 then [\<lparr>edge_site = Some (demo_instr 1 (KGo demo_call)), edge_callee = demo_worker\<rparr>] else []),
     cg_text = cg_func, cg_ctx = (\<lambda>n. ''[]''), GetCalleeByID = (\<lambda>i. None), GetPTSByPtrID = (\<lambda>i. []),
     in_scope = (\<lambda>f. True), val_kind = (\<lambda>v. VOther), Referrers = (\<lambda>v. []), val_instr = (\<lambda>v. None),
     line_of = (\<lambda>p. p)\<rparr>"

definition demo_pta :: pta_result where
  "demo_pta = \<lparr>PointsTo = (\<lambda>v c. [int (val_id v)]), GetGlobalVarID = (\<lambda>v. []), GetPTSByObjID = (\<lambda>i. [])\<rparr>"

definition race_env :: env where
  "race_env = default_env\<lparr>DoRace := True, Plus := True\<rparr>"

definition demo_funs :: "cg_node list" where
  "demo_funs = [demo_main, demo_worker]"

lemma demo_built: "(case CreateGraph 200 demo_program race_env 0 demo_pta demo_main of
    Ok b \<Rightarrow> roots (bg b) = [0, 1] \<and> next_ID (bg b) = 8 | _ \<Rightarrow> False)"
  by code_simp

section \<open>Termination\<close>

text \<open>
  A closed program: its functions contain the callees, and the conditions of \<open>program_ok\<close> hold.
\<close>

definition program_closed :: "program \<Rightarrow> cg_node list \<Rightarrow> nat \<Rightarrow> bool" where
  "program_closed P ns d \<longleftrightarrow> program_ok \<lparr>prog = P, funs = ns, chains = d, fuel_left = 0\<rparr>"

lemma CreateGraph_closed:
  assumes "program_closed P ns d" and "entry \<in> set ns" and "construction_fuel P ns d \<le> fuel"
  shows "post (\<lambda>b. ok_graph (bg b) \<and> roots (bg b) \<noteq> []) (CreateGraph fuel P E rw pta entry)"
proof -
  let ?K = "\<lparr>prog = P, funs = ns, chains = d, fuel_left = 0\<rparr>"
  have "dfs_need ?K (InitializeRFG pta) \<le> fuel"
    using assms(3) construction_fuel_enough [of ?K pta] by simp
  from CreateGraph_post [of ?K, OF _ _ this] assms(1,2) show ?thesis by (simp add: program_closed_def)
qed

lemma demo_closed: "program_closed demo_program demo_funs 1"
proof -
  have w: "wf_function (demo_blocks n)" "forward_selects (demo_blocks n)"
      "\<forall>k. in_range (demo_blocks n) k \<longrightarrow> bb_index (demo_blocks n ! nat k) = k" for n
    by (auto simp: wf_function_def wf_blocks_def forward_selects_def demo_blocks_def demo_block_def
        demo_instr_def demo_call_def has_receiver_def in_range_def)
  show ?thesis
    using w by (auto simp: program_closed_def program_ok_def demo_program_def demo_funs_def)
qed

text \<open>
  C4: The construction of the graph of an entry ends: however often functions call each
  other or themselves, and however loops and selects nest, the limit on the visits of a signature and the
  blocks that are skipped bound the nesting of \<open>DFS\<close> and \<open>DFSBB\<close> by the number of signatures, of blocks
  and the length of address chains.
\<close>

theorem construction_ends:
  assumes "program_closed P ns d" and "entry \<in> set ns" and "construction_fuel P ns d \<le> fuel"
  shows "CreateGraph fuel P E rw pta entry \<noteq> OutOfFuel"
  using CreateGraph_closed [OF assms, of E rw pta] by auto

theorem construction_ends_witness:
  "construction_fuel demo_program demo_funs 1 \<le> 200 \<and>
   CreateGraph 200 demo_program race_env 0 demo_pta demo_main \<noteq> OutOfFuel"
proof -
  have f: "construction_fuel demo_program demo_funs 1 \<le> 200" by code_simp
  have "demo_main \<in> set demo_funs" by (simp add: demo_funs_def)
  from construction_ends [OF demo_closed this f] f show ?thesis by blast
qed

section \<open>The graph\<close>

text \<open>
  C5: A graph that the construction returns is what the detectors need: its edges,
  users of objects, cases of selects and recorded accesses name registered nodes, cancel nodes carry
  their context, no case is a select, the main goroutine is its first root, and no signature was visited
  more often than the limit.
\<close>

theorem constructed_graph_ready:
  assumes "program_closed P ns d" and "entry \<in> set ns" and "construction_fuel P ns d \<le> fuel"
    and "CreateGraph fuel P E rw pta entry = Ok b"
  shows "wf_build (bg b) \<and> race_ready (bg b) \<and> wf_selects (bg b) \<and>
    (\<forall>sig. mget0 0 (g_visited (bg b)) sig \<le> limit)"
proof -
  have "ok_graph (bg b)" "roots (bg b) \<noteq> []"
    using CreateGraph_closed [OF assms(1-3), of E rw pta] assms(4) by simp_all
  then show ?thesis using ok_graph_ready ok_graph_selects by (simp add: ok_graph_def)
qed

theorem constructed_graph_ready_witness:
  "\<exists>b. CreateGraph 200 demo_program race_env 0 demo_pta demo_main = Ok b \<and> race_ready (bg b) \<and>
    next_ID (bg b) = 8"
proof -
  from demo_built obtain b where b: "CreateGraph 200 demo_program race_env 0 demo_pta demo_main = Ok b"
    "next_ID (bg b) = 8" by (auto split: res.splits)
  have f: "construction_fuel demo_program demo_funs 1 \<le> 200" by code_simp
  have "demo_main \<in> set demo_funs" by (simp add: demo_funs_def)
  from constructed_graph_ready [OF demo_closed this f b(1)] b show ?thesis by blast
qed

section \<open>Cases of selects\<close>



section \<open>All entries\<close>

text \<open>The entries of all packages in order, and the graphs built for them.\<close>

definition all_entries :: "pta_package list \<Rightarrow> (pta_package \<times> cg_node) list" where
  "all_entries ps = concat (map (\<lambda>p. case pkg_entries p of Ok es \<Rightarrow> map (Pair p) es | _ \<Rightarrow> []) ps)"

definition graph_of :: "nat \<Rightarrow> env \<Rightarrow> pta_package \<times> cg_node \<Rightarrow> RFGraph \<Rightarrow> bool" where
  "graph_of fuel E = (\<lambda>(p, entry) g. \<exists>rw b. CreateGraph fuel (pkg_prog p) E rw (pkg_pta p) entry = Ok b \<and> g = bg b)"

text \<open>The keys of the races of one graph; graphs of one goroutine are left out for applications.\<close>

definition entry_race :: "flags \<Rightarrow> env \<Rightarrow> source \<Rightarrow> RFGraph \<Rightarrow> string \<Rightarrow> bool" where
  "entry_race F E src g k \<longleftrightarrow> \<not> (length (roots g) = 1 \<and> AppPkg F \<noteq> []) \<and>
     (\<exists>g1 a b. AddHappenBeforeEdges g = Ok g1 \<and> candidate E g1 a b \<and> conflict E src g1 a b \<and> k = race_key E a b)"

definition packages_ready :: "nat \<Rightarrow> pta_package list \<Rightarrow> bool" where
  "packages_ready fuel ps \<longleftrightarrow> (\<forall>p \<in> set ps. \<exists>ns d. program_closed (pkg_prog p) ns d \<and>
     construction_fuel (pkg_prog p) ns d \<le> fuel \<and> (\<forall>es. pkg_entries p = Ok es \<longrightarrow> set es \<subseteq> set ns))"

definition adds_races :: "flags \<Rightarrow> env \<Rightarrow> source \<Rightarrow> results \<Rightarrow> RFGraph list \<Rightarrow> results \<Rightarrow> bool" where
  "adds_races F E src r gs r' \<longleftrightarrow>
     (\<forall>k. mhas (all_races r') k \<longleftrightarrow> mhas (all_races r) k \<or> (\<exists>g \<in> set gs. entry_race F E src g k))"

lemma adds_races_Nil: "adds_races F E src r [] r"
  by (simp add: adds_races_def)

lemma adds_races_append:
  "adds_races F E src r gs r1 \<Longrightarrow> adds_races F E src r1 hs r2 \<Longrightarrow> adds_races F E src r (gs @ hs) r2"
  by (auto simp: adds_races_def)

lemma analyzeEntry_post:
  assumes E: "proper_env E" "DoRace E" "Plus E" "\<not> DoBlocking F"
    and c: "program_closed (pkg_prog p) ns d" "entry \<in> set ns" "construction_fuel (pkg_prog p) ns d \<le> fuel"
  shows "post (\<lambda>x. \<exists>g. graph_of fuel E (p, entry) g \<and> adds_races F E src r [g] (snd x))
    (analyzeEntry fuel explore_fuel F E src (pkg_prog p) (pkg_pta p) entry (rw, r))"
  unfolding analyzeEntry_def prod.case post_bind [of _ "CreateGraph _ _ _ _ _ _"]
proof (rule post_mono [OF CreateGraph_closed [OF c]])
  fix b assume b: "CreateGraph fuel (pkg_prog p) E rw (pkg_pta p) entry = Ok b"
    and g: "ok_graph (bg b) \<and> roots (bg b) \<noteq> []"
  have of: "graph_of fuel E (p, entry) (bg b)" using b by (auto simp: graph_of_def)
  have "post (\<lambda>r'. adds_races F E src r [bg b] r') (detectEntry explore_fuel F E src (cg_func entry) (bg b) r)"
  proof (cases "length (roots (bg b)) = 1 \<and> AppPkg F \<noteq> []")
    case True
    then have "detectEntry explore_fuel F E src (cg_func entry) (bg b) r = Ok r"
      unfolding detectEntry_def by (rule if_P)
    with True show ?thesis by (simp add: adds_races_def entry_race_def)
  next
    case False
    have ready: "race_ready (bg b)" using g by (intro ok_graph_ready) blast+
    from entry_races [OF E ready False, of explore_fuel src "cg_func entry" r] obtain g1 r' where
      r': "AddHappenBeforeEdges (bg b) = Ok g1" "detectEntry explore_fuel F E src (cg_func entry) (bg b) r = Ok r'"
      by blast
    have "mhas (all_races r') k \<longleftrightarrow> mhas (all_races r) k \<or> entry_race F E src (bg b) k" for k
      using entry_races [OF E ready False, of explore_fuel src "cg_func entry" r k] r' False
      by (auto simp: entry_race_def)
    with r'(2) show ?thesis by (simp add: adds_races_def)
  qed
  then show "post (\<lambda>x. \<exists>g. graph_of fuel E (p, entry) g \<and> adds_races F E src r [g] (snd x))
      (bindR (detectEntry explore_fuel F E src (cg_func entry) (bg b) r) (\<lambda>r. Ok (next_RW b, r)))"
    unfolding post_bind by (rule post_mono) (use of in auto)
qed

lemma post_seq:
  assumes "post Q r" and "\<And>x. Q x \<Longrightarrow> post R (f x)"
  shows "post R (bindR r f)"
  unfolding post_bind using assms by (rule post_mono)

lemma analyze_entries_post:
  assumes E: "proper_env E" "DoRace E" "Plus E" "\<not> DoBlocking F"
    and c: "program_closed (pkg_prog p) ns d" "construction_fuel (pkg_prog p) ns d \<le> fuel"
  shows "set es \<subseteq> set ns \<Longrightarrow> post (\<lambda>x. \<exists>gs. list_all2 (graph_of fuel E) (map (Pair p) es) gs \<and>
      adds_races F E src r gs (snd x))
    (loopR (analyzeEntry fuel explore_fuel F E src (pkg_prog p) (pkg_pta p)) es (rw, r))"
proof (induction es arbitrary: rw r)
  case (Cons entry es)
  show ?case unfolding loopR.simps
  proof (rule post_seq [OF analyzeEntry_post [OF E c(1) _ c(2)]])
    show "entry \<in> set ns" using Cons.prems by simp
  next
    fix x :: "int \<times> results" assume "\<exists>g. graph_of fuel E (p, entry) g \<and> adds_races F E src r [g] (snd x)"
    then obtain g where g: "graph_of fuel E (p, entry) g" "adds_races F E src r [g] (snd x)" by blast
    have "set es \<subseteq> set ns" using Cons.prems by simp
    from Cons.IH [OF this, of "snd x" "fst x"]
    show "post (\<lambda>x. \<exists>gs. list_all2 (graph_of fuel E) (map (Pair p) (entry # es)) gs \<and>
        adds_races F E src r gs (snd x))
      (loopR (analyzeEntry fuel explore_fuel F E src (pkg_prog p) (pkg_pta p)) es x)"
      unfolding prod.collapse
    proof (rule post_mono)
      fix y assume "\<exists>gs. list_all2 (graph_of fuel E) (map (Pair p) es) gs \<and> adds_races F E src (snd x) gs (snd y)"
      then obtain gs where "list_all2 (graph_of fuel E) (map (Pair p) es) gs" "adds_races F E src (snd x) gs (snd y)"
        by blast
      with g adds_races_append [OF g(2)] show "\<exists>gs. list_all2 (graph_of fuel E) (map (Pair p) (entry # es)) gs \<and>
          adds_races F E src r gs (snd y)"
        by (intro exI [of _ "g # gs"]) simp
    qed
  qed
qed (simp add: adds_races_Nil)

lemma DetectBugs_post:
  assumes E: "proper_env E" "DoRace E" "Plus E" "\<not> DoBlocking F"
  shows "packages_ready fuel ps \<Longrightarrow> post (\<lambda>x. \<exists>gs. list_all2 (graph_of fuel E) (all_entries ps) gs \<and>
      adds_races F E src r gs (snd x)) (DetectBugs fuel explore_fuel F E src ps (rw, r))"
  unfolding DetectBugs_def
proof (induction ps arbitrary: rw r)
  case Nil
  show ?case by (simp add: all_entries_def adds_races_Nil)
next
  case (Cons p ps)
  from Cons.prems obtain ns d where c: "program_closed (pkg_prog p) ns d" "construction_fuel (pkg_prog p) ns d \<le> fuel"
    "\<forall>es. pkg_entries p = Ok es \<longrightarrow> set es \<subseteq> set ns" by (auto simp: packages_ready_def)
  have ready: "packages_ready fuel ps" using Cons.prems by (simp add: packages_ready_def)
  let ?loop = "loopR (analyzeEntry fuel explore_fuel F E src (pkg_prog p) (pkg_pta p))"
  let ?bugs = "loopR (\<lambda>res' s. bindR (pkg_entries res') (\<lambda>entries.
     loopR (analyzeEntry fuel explore_fuel F E src (pkg_prog res') (pkg_pta res')) entries s)) ps"
  have "post (\<lambda>x. \<exists>gs. list_all2 (graph_of fuel E) (all_entries (p # ps)) gs \<and> adds_races F E src r gs (snd x))
      (bindR (bindR (pkg_entries p) (\<lambda>entries. ?loop entries (rw, r))) ?bugs)"
  proof (cases "pkg_entries p")
    case (Ok es)
    have all: "all_entries (p # ps) = map (Pair p) es @ all_entries ps" by (simp add: all_entries_def Ok)
    have sub: "set es \<subseteq> set ns" using c(3) Ok by blast
    have "post (\<lambda>x. \<exists>gs. list_all2 (graph_of fuel E) (all_entries (p # ps)) gs \<and> adds_races F E src r gs (snd x))
        (bindR (?loop es (rw, r)) ?bugs)"
    proof (rule post_seq [OF analyze_entries_post [OF E c(1,2) sub]])
      fix x :: "int \<times> results" assume "\<exists>gs. list_all2 (graph_of fuel E) (map (Pair p) es) gs \<and> adds_races F E src r gs (snd x)"
      then obtain gs where g: "list_all2 (graph_of fuel E) (map (Pair p) es) gs" "adds_races F E src r gs (snd x)"
        by blast
      from Cons.IH [OF ready, of "snd x" "fst x"]
      show "post (\<lambda>x. \<exists>gs. list_all2 (graph_of fuel E) (all_entries (p # ps)) gs \<and> adds_races F E src r gs (snd x)) (?bugs x)"
        unfolding prod.collapse
      proof (rule post_mono)
        fix y assume "\<exists>gs. list_all2 (graph_of fuel E) (all_entries ps) gs \<and> adds_races F E src (snd x) gs (snd y)"
        then obtain hs where h: "list_all2 (graph_of fuel E) (all_entries ps) hs" "adds_races F E src (snd x) hs (snd y)"
          by blast
        from list_all2_appendI [OF g(1) h(1)] adds_races_append [OF g(2) h(2)]
        show "\<exists>gs. list_all2 (graph_of fuel E) (all_entries (p # ps)) gs \<and> adds_races F E src r gs (snd y)"
          unfolding all by blast
      qed
    qed
    then show ?thesis by (simp add: Ok del: post_bind)
  next
    case OutOfFuel
    then show ?thesis by (simp add: pkg_entries_def slice_get_def split: if_splits)
  qed simp
  then show ?case by simp
qed

text \<open>
  C3: Race detection over all entries of all packages, from their SSA form to the summary: it
  ends, and if it returns, it has built one graph for each entry, in order, and the keys of the summary are
  those it had and those of the conflicting candidate pairs of the graphs with their happens-before edges,
  whatever order the ranges over maps take.
\<close>

theorem detect_bugs_races:
  assumes "proper_env E" and "DoRace E" and "Plus E" and "\<not> DoBlocking F" and "packages_ready fuel ps"
  shows "case DetectBugs fuel explore_fuel F E src ps (rw, r) of OutOfFuel \<Rightarrow> False | Panic p \<Rightarrow> True
    | Ok (rw', r') \<Rightarrow> \<exists>gs. list_all2 (graph_of fuel E) (all_entries ps) gs \<and>
        (\<forall>k. mhas (all_races r') k \<longleftrightarrow> mhas (all_races r) k \<or> (\<exists>g \<in> set gs. entry_race F E src g k))"
  using DetectBugs_post [OF assms, of src r explore_fuel rw]
  by (cases "DetectBugs fuel explore_fuel F E src ps (rw, r)") (auto simp: adds_races_def)

definition demo_package :: pta_package where
  "demo_package = \<lparr>pkg_prog = demo_program, pkg_pta = demo_pta, IsTest = False, TestEntries = [],
     root_out = [\<lparr>edge_site = None, edge_callee = demo_worker\<rparr>, \<lparr>edge_site = None, edge_callee = demo_main\<rparr>]\<rparr>"

definition demo_flags :: flags where
  "demo_flags = \<lparr>DoBlocking = False, AppPkg = ''m''\<rparr>"

lemma detectEntry_races:
  assumes "\<not> DoBlocking F" and "\<not> (length (roots g) = 1 \<and> AppPkg F \<noteq> [])"
    and "detect_races E src entry (g, r) = Ok (g', r')"
  shows "\<exists>r''. detectEntry explore_fuel F E src entry g r = Ok r'' \<and> all_races r'' = all_races r'"
proof -
  have "all_races (r'\<lparr>counter := c\<rparr>) = all_races r'" for c by simp
  then show ?thesis
    unfolding detectEntry_def if_not_P [OF assms(2)]
    using assms(1,3) by (simp add: detect_blocking_def Let_def)
qed

text \<open>The two writes of \<open>x\<close> race.\<close>

lemma demo_races: "case CreateGraph 200 demo_program race_env 0 demo_pta demo_main of
    Ok b \<Rightarrow> (case detect_races race_env race_source ''m'' (bg b, InitialPerformance []) of
       Ok (g, r) \<Rightarrow> mhas (all_races r) ''2-5'' \<and> length (roots (bg b)) = 2 | _ \<Rightarrow> False) | _ \<Rightarrow> False"
  by code_simp

theorem detect_bugs_races_witness:
  "\<exists>rw r g. DetectBugs 200 0 demo_flags race_env race_source [demo_package] (0, InitialPerformance []) = Ok (rw, r) \<and>
    mhas (all_races r) ''2-5'' \<and> graph_of 200 race_env (demo_package, demo_main) g \<and>
    entry_race demo_flags race_env race_source g ''2-5''"
proof -
  have E: "proper_env race_env" "DoRace race_env" "Plus race_env" "\<not> DoBlocking demo_flags"
    by (simp_all add: race_env_def proper_env_def default_env_def is_range_order_id demo_flags_def)
  have p: "pkg_entries demo_package = Ok [demo_main]" "pkg_prog demo_package = demo_program"
    "pkg_pta demo_package = demo_pta" "cg_func demo_main = ''m''"
    by (simp_all add: pkg_entries_def demo_package_def slice_get_def in_range_def demo_main_def)
  from demo_races obtain b g r where b: "CreateGraph 200 demo_program race_env 0 demo_pta demo_main = Ok b"
    "detect_races race_env race_source ''m'' (bg b, InitialPerformance []) = Ok (g, r)"
    "mhas (all_races r) ''2-5''" "length (roots (bg b)) = 2" by (auto split: res.splits)
  from detectEntry_races [OF E(4) _ b(2), of 0] b(4) obtain r' where
    "detectEntry 0 demo_flags race_env race_source ''m'' (bg b) (InitialPerformance []) = Ok r'"
    "all_races r' = all_races r" by auto
  then have d: "DetectBugs 200 0 demo_flags race_env race_source [demo_package] (0, InitialPerformance []) = Ok (next_RW b, r')"
    "mhas (all_races r') ''2-5''"
    using b(1,3) by (simp_all add: DetectBugs_def analyzeEntry_def p)
  have f: "construction_fuel demo_program demo_funs 1 \<le> 200" by code_simp
  have "set [demo_main] \<subseteq> set demo_funs" by (simp add: demo_funs_def)
  then have "packages_ready 200 [demo_package]"
    using demo_closed f unfolding packages_ready_def by (auto simp: p)
  from detect_bugs_races [OF E this, where explore_fuel = 0 and src = race_source and rw = 0 and r = "InitialPerformance []"] d obtain gs where
    "list_all2 (graph_of 200 race_env) (all_entries [demo_package]) gs"
    "mhas (all_races (InitialPerformance [])) ''2-5'' \<or> (\<exists>g \<in> set gs. entry_race demo_flags race_env race_source g ''2-5'')"
    by auto
  moreover have "\<not> mhas (all_races (InitialPerformance [])) ''2-5''" by (simp add: InitialPerformance_def)
  moreover have "all_entries [demo_package] = [(demo_package, demo_main)]" by (simp add: all_entries_def p)
  ultimately show ?thesis using d by (auto simp: list_all2_Cons1)
qed

end
