(* ===== verification/PtrTypes.thy ===== *)
theory PtrTypes
  imports GoPrelude GoFmt "HOL-Library.Word"
begin

text \<open>
  \<open>go/pointer/util.go\<close>: the types of the analysed program, and their flattening into the scalar
  nodes of the pointer analysis.

  A type is what \<open>flatten\<close> descends into: named types carry their underlying type, arrays, structs
  and tuples their components. Everything \<open>flatten\<close> does not look into (the element of a pointer,
  slice, map or channel, the parts of a signature, the methods of an interface) is a reference, so
  that recursive types, which Go allows only through those, are finite. The table \<open>flattenMemo\<close> is
  a cache; only its preset entry for \<open>reflect.Value\<close> matters, and is the argument \<open>rv\<close>.
\<close>

type_synonym tref = int

datatype gotype =
    TBasic string
  | TNamed string string gotype    \<comment> \<open>package path, name, underlying type\<close>
  | TPointer tref
  | TSlice tref
  | TChan tref
  | TMap tref tref
  | TSignature tref
  | TInterface tref
  | TArray int gotype
  | TStruct "(string \<times> gotype) list"
  | TTuple "gotype list"
  | TOther string

fun Underlying :: "gotype \<Rightarrow> gotype" where
  "Underlying (TNamed path name u) = Underlying u"
| "Underlying t = t"

definition isInterface :: "gotype \<Rightarrow> bool" where
  "isInterface T = (case Underlying T of TInterface _ \<Rightarrow> True | _ \<Rightarrow> False)"

definition is_reflect_Value :: "string \<Rightarrow> string \<Rightarrow> bool" where
  "is_reflect_Value path name \<longleftrightarrow> name = ''Value'' \<and> path = ''reflect''"

fun CanPoint :: "gotype \<Rightarrow> bool" where
  "CanPoint (TNamed path name u) = (if is_reflect_Value path name then True else CanPoint u)"
| "CanPoint (TPointer _) = True"
| "CanPoint (TInterface _) = True"
| "CanPoint (TMap _ _) = True"
| "CanPoint (TChan _) = True"
| "CanPoint (TSignature _) = True"
| "CanPoint (TSlice _) = True"
| "CanPoint _ = False"

fun CanHaveDynamicTypes :: "gotype \<Rightarrow> bool" where
  "CanHaveDynamicTypes (TNamed path name u) =
     (if is_reflect_Value path name then True else CanHaveDynamicTypes u)"
| "CanHaveDynamicTypes (TInterface _) = True"
| "CanHaveDynamicTypes _ = False"

text \<open>\<open>mustDeref\<close> and \<open>deref\<close> read the element type through the reference.\<close>

definition mustDeref :: "(tref \<Rightarrow> gotype) \<Rightarrow> gotype \<Rightarrow> gotype res" where
  "mustDeref Elem typ = (case Underlying typ of TPointer r \<Rightarrow> Ok (Elem r) | _ \<Rightarrow> Panic TypeAssertion)"

definition deref_type :: "(tref \<Rightarrow> gotype) \<Rightarrow> gotype \<Rightarrow> gotype" where
  "deref_type Elem typ = (case Underlying typ of TPointer r \<Rightarrow> Elem r | _ \<Rightarrow> typ)"

section \<open>Flattening\<close>

datatype field_op = OpNone | OpArray | OpTuple int | OpField string

datatype fieldInfo = FieldInfo (fi_typ: gotype) (fi_op: field_op) (fi_tail: "fieldInfo option")

fun path :: "fieldInfo option \<Rightarrow> string" where
  "path None = []"
| "path (Some (FieldInfo t op tail)) =
     (case op of OpArray \<Rightarrow> ''[*]'' | OpTuple i \<Rightarrow> CHR ''#'' # itoa i | OpField f \<Rightarrow> CHR ''.'' # f
      | OpNone \<Rightarrow> []) @ path tail"

definition scalar_info :: "gotype \<Rightarrow> fieldInfo" where
  "scalar_info t = FieldInfo t OpNone None"

definition within :: "field_op \<Rightarrow> fieldInfo \<Rightarrow> fieldInfo" where
  "within op fi = FieldInfo (fi_typ fi) op (Some fi)"

fun flatten :: "gotype option \<Rightarrow> gotype \<Rightarrow> fieldInfo list res"
  and flatten_fields :: "gotype option \<Rightarrow> (string \<times> gotype) list \<Rightarrow> fieldInfo list res"
  and flatten_items :: "gotype option \<Rightarrow> int \<Rightarrow> gotype list \<Rightarrow> fieldInfo list res" where
  "flatten rv (TNamed p n u) =
     (if rv = Some (TNamed p n u) \<or> isInterface u then Ok [scalar_info (TNamed p n u)]
      else flatten rv u)"
| "flatten rv (TBasic b) = Ok [scalar_info (TBasic b)]"
| "flatten rv (TSignature r) = Ok [scalar_info (TSignature r)]"
| "flatten rv (TChan r) = Ok [scalar_info (TChan r)]"
| "flatten rv (TMap k v) = Ok [scalar_info (TMap k v)]"
| "flatten rv (TInterface r) = Ok [scalar_info (TInterface r)]"
| "flatten rv (TSlice r) = Ok [scalar_info (TSlice r)]"
| "flatten rv (TPointer r) = Ok [scalar_info (TPointer r)]"
| "flatten rv (TArray len e) =
     bindR (flatten rv e) (\<lambda>fl. Ok (scalar_info (TArray len e) # map (within OpArray) fl))"
| "flatten rv (TStruct fs) =
     bindR (flatten_fields rv fs) (\<lambda>fl. Ok (scalar_info (TStruct fs) # fl))"
| "flatten rv (TTuple [t]) = flatten rv t"
| "flatten rv (TTuple ts) = flatten_items rv 0 ts"
| "flatten rv (TOther s) = Panic (ExplicitPanic (''cannot flatten unsupported type '' @ s))"
| "flatten_fields rv [] = Ok []"
| "flatten_fields rv ((f, t) # fs) =
     bindR (flatten rv t) (\<lambda>fl. bindR (flatten_fields rv fs) (\<lambda>rest.
       Ok (map (within (OpField f)) fl @ rest)))"
| "flatten_items rv i [] = Ok []"
| "flatten_items rv i (t # ts) =
     bindR (flatten rv t) (\<lambda>fl. bindR (flatten_items rv (i + 1) ts) (\<lambda>rest.
       Ok (map (within (OpTuple i)) fl @ rest)))"

definition sizeof :: "gotype option \<Rightarrow> gotype \<Rightarrow> 32 word res" where
  "sizeof rv t = bindR (flatten rv t) (\<lambda>fl. Ok (of_nat (length fl)))"

text \<open>The loops over the components before \<open>index\<close>; \<open>t.At(i)\<close> and \<open>t.Field(i)\<close> panic past the end.\<close>

definition offset_loop :: "gotype option \<Rightarrow> gotype list \<Rightarrow> int \<Rightarrow> 32 word \<Rightarrow> 32 word res" where
  "offset_loop rv ts index off =
     loopR (\<lambda>i off. bindR (slice_get ts (int i)) (\<lambda>t. bindR (sizeof rv t) (\<lambda>n. Ok (off + n))))
       [0..<nat index] off"

definition offsetOf :: "gotype option \<Rightarrow> gotype \<Rightarrow> int \<Rightarrow> 32 word res" where
  "offsetOf rv typ index = (case Underlying typ of
       TTuple ts \<Rightarrow> offset_loop rv ts index 0
     | TStruct fs \<Rightarrow> offset_loop rv (map snd fs) index 1
     | _ \<Rightarrow> Panic (ExplicitPanic ''offsetOf''))"

section \<open>What flattening gives\<close>

text \<open>A scalar type, or a struct or array identity node.\<close>

definition node_type :: "gotype \<Rightarrow> bool" where
  "node_type t \<longleftrightarrow> (case Underlying t of TTuple _ \<Rightarrow> False | TOther _ \<Rightarrow> False | _ \<Rightarrow> True)"

lemma Underlying_idem [simp]: "Underlying (Underlying t) = Underlying t"
  by (induction t rule: Underlying.induct) simp_all

definition rv_ok :: "gotype option \<Rightarrow> bool" where
  "rv_ok rv \<longleftrightarrow> (case rv of None \<Rightarrow> True | Some t \<Rightarrow> node_type t)"

lemma node_type_Named [simp]: "node_type (TNamed p n u) = node_type u"
  by (simp add: node_type_def)

lemma isInterface_node: "isInterface t \<Longrightarrow> node_type t"
  by (auto simp: isInterface_def node_type_def split: gotype.splits)

lemma fi_typ_simps [simp]: "fi_typ (scalar_info t) = t" "fi_typ (within op fi) = fi_typ fi"
  by (simp_all add: scalar_info_def within_def)

lemma flatten_node_types:
  "rv_ok rv \<Longrightarrow> flatten rv t = Ok fl \<Longrightarrow> fi \<in> set fl \<Longrightarrow> node_type (fi_typ fi)"
  "rv_ok rv \<Longrightarrow> flatten_fields rv fs = Ok fl \<Longrightarrow> fi \<in> set fl \<Longrightarrow> node_type (fi_typ fi)"
  "rv_ok rv \<Longrightarrow> flatten_items rv i ts = Ok fl \<Longrightarrow> fi \<in> set fl \<Longrightarrow> node_type (fi_typ fi)"
proof (induction rv t and rv fs and rv i ts arbitrary: fl fi and fl fi and fl fi
    rule: flatten_flatten_fields_flatten_items.induct)
  case (1 rv p n u)
  show ?case
  proof (cases "rv = Some (TNamed p n u) \<or> isInterface u")
    case True
    then have "node_type u" using 1(2) isInterface_node by (auto simp: rv_ok_def)
    with True 1(3,4) show ?thesis by auto
  next
    case False
    with 1(3) have "flatten rv u = Ok fl" by simp
    with False 1 show ?thesis by blast
  qed
next
  case (15 rv f t fs)
  from "15.prems"(2) obtain l r where "flatten rv t = Ok l" "flatten_fields rv fs = Ok r"
    "fl = map (within (OpField f)) l @ r" by (auto simp: res_simps)
  with "15.prems"(3) show ?case using "15.IH" "15.prems"(1) by auto
next
  case (17 rv i t ts)
  from "17.prems"(2) obtain l r where "flatten rv t = Ok l" "flatten_items rv (i + 1) ts = Ok r"
    "fl = map (within (OpTuple i)) l @ r" by (auto simp: res_simps)
  with "17.prems"(3) show ?case using "17.IH" "17.prems"(1) by auto
qed (auto simp: node_type_def res_simps)

lemma flatten_fields_nth:
  assumes "flatten_fields rv fs = Ok fl" and "k < length fs"
  shows "\<exists>pre mid post. flatten rv (snd (fs ! k)) = Ok mid \<and>
    fl = pre @ map (within (OpField (fst (fs ! k)))) mid @ post \<and>
    offset_loop rv (map snd fs) (int k) off = Ok (off + of_nat (length pre))"
  using assms
proof (induction k arbitrary: fs fl off)
  case 0
  then obtain f t fs' where "fs = (f, t) # fs'" by (cases fs) auto
  with 0(1) obtain l r where l: "flatten rv t = Ok l" "fl = map (within (OpField f)) l @ r"
    by (auto simp: res_simps)
  then show ?case unfolding \<open>fs = (f, t) # fs'\<close>
    by (intro exI [of _ "[]"] exI [of _ l] exI [of _ r]) (simp add: offset_loop_def)
next
  case (Suc k)
  from Suc.prems(2) obtain f t fs' where fs: "fs = (f, t) # fs'" by (cases fs) auto
  with Suc.prems obtain fl1 fl2 where fl: "flatten rv t = Ok fl1" "flatten_fields rv fs' = Ok fl2"
    "fl = map (within (OpField f)) fl1 @ fl2" and k: "k < length fs'"
    by (auto simp: res_simps)
  from Suc.IH [OF fl(2) k, of "off + of_nat (length fl1)"] obtain pre mid post where
    ih: "flatten rv (snd (fs' ! k)) = Ok mid"
      "fl2 = pre @ map (within (OpField (fst (fs' ! k)))) mid @ post"
      "offset_loop rv (map snd fs') (int k) (off + of_nat (length fl1)) =
         Ok (off + of_nat (length fl1) + of_nat (length pre))" by blast
  have up: "[0..<Suc k] = 0 # map Suc [0..<k]" by (simp add: map_Suc_upt upt_conv_Cons del: upt_Suc)
  have "loopR body (map Suc is) s = loopR (\<lambda>i. body (Suc i)) is s"
    for body :: "nat \<Rightarrow> 32 word \<Rightarrow> 32 word res" and "is" s
    by (induction "is" arbitrary: s) (simp_all cong: bindR_cong)
  then have "offset_loop rv (map snd fs) (int (Suc k)) off =
      offset_loop rv (map snd fs') (int k) (off + of_nat (length fl1))"
    unfolding fs offset_loop_def
    by (simp add: up fl(1) sizeof_def slice_get_def in_range_def nat_add_distrib del: upt_Suc cong: if_cong)
  with ih fl(3) show ?case unfolding fs
    by (intro exI [of _ "map (within (OpField f)) fl1 @ pre"] exI [of _ mid] exI [of _ post])
      (simp add: add.assoc)
qed

end
