(* ===== verification/PtrModel.thy ===== *)
theory PtrModel
  imports PtrTypes SparseSet
begin

unbundle bit_operations_syntax

text \<open>
  The state of the pointer analysis in \<open>go/pointer\<close>: nodes, objects, constraints and points-to sets
  (\<open>analysis.go\<close>, \<open>constraint.go\<close>), and the functions of \<open>gen.go\<close> that create nodes, objects and
  constraints.

  A \<open>nodeid\<close> is a 32-bit word that indexes \<open>nodes\<close>. The \<open>*solverState\<close> of a node is a key of the map
  \<open>heap\<close>, so that nodes may share one. \<open>tracking\<close> is \<open>trackAll\<close>, as the analysis sets it, so that
  \<open>shouldTrack\<close> is true for every type. Log output, the rendering of constraints, the data and the
  call-graph node of an object, which are only carried along, are left out.
\<close>

type_synonym nodeid = "32 word"

text \<open>\<open>nodeset\<close> embeds a \<open>Sparse\<close>; its elements are node ids as \<open>int\<close>.\<close>

type_synonym nodeset = sparse

definition nodeset_IsEmpty :: "nodeset \<Rightarrow> bool" where
  "nodeset_IsEmpty ns = (Len ns = 0)"

definition nodeset_add :: "nodeset \<Rightarrow> nodeid \<Rightarrow> bool \<times> nodeset" where
  "nodeset_add ns n = set_Insert ns (uint n)"

definition nodeset_addAll :: "nodeset \<Rightarrow> nodeset \<Rightarrow> bool \<times> nodeset" where
  "nodeset_addAll ns y = (case UnionWith (\<lambda>i. if i = 0 then ns else y) 0 1 of (b, st) \<Rightarrow> (b, st 0))"

text \<open>\<open>range ns.AppendTo(space[:0])\<close>, each element converted to a \<open>nodeid\<close>.\<close>

definition node_list :: "nodeset \<Rightarrow> nodeid list" where
  "node_list ns = map word_of_int (AppendTo ns [])"

section \<open>Objects and nodes\<close>

definition otTagged :: "32 word" where "otTagged = 1"
definition otIndirect :: "32 word" where "otIndirect = 2"
definition otFunction :: "32 word" where "otFunction = 4"

record object =
  obj_flags :: "32 word"
  obj_size :: "32 word"

record pnode =
  node_obj :: "object option"
  node_typ :: gotype
  subelement :: "fieldInfo option"
  solve_ptr :: nat

text \<open>
  The constraints with their fields in the order of the source. The constraints for method
  invocations and for reflection are not modelled.
\<close>

datatype constr =
    AddrConstraint nodeid nodeid                  \<comment> \<open>\<open>dst = &src\<close>\<close>
  | CopyConstraint nodeid nodeid                  \<comment> \<open>\<open>dst = src\<close>\<close>
  | LoadConstraint "32 word" nodeid nodeid        \<comment> \<open>offset, dst, src: \<open>dst = src[offset]\<close>\<close>
  | StoreConstraint "32 word" nodeid nodeid       \<comment> \<open>offset, dst, src: \<open>dst[offset] = src\<close>\<close>
  | OffsetAddrConstraint "32 word" nodeid nodeid  \<comment> \<open>offset, dst, src: \<open>dst = &src.f\<close>\<close>
  | TypeFilterConstraint gotype nodeid nodeid     \<comment> \<open>typ, dst, src\<close>
  | UntagConstraint gotype nodeid nodeid bool     \<comment> \<open>typ, dst, src, exact\<close>

fun constr_ptr :: "constr \<Rightarrow> nodeid" where
  "constr_ptr (AddrConstraint dst src) = dst"
| "constr_ptr (CopyConstraint dst src) = dst"
| "constr_ptr (LoadConstraint off dst src) = src"
| "constr_ptr (StoreConstraint off dst src) = dst"
| "constr_ptr (OffsetAddrConstraint off dst src) = src"
| "constr_ptr (TypeFilterConstraint typ dst src) = src"
| "constr_ptr (UntagConstraint typ dst src exact) = src"

record solverState =
  complex :: "constr list"
  copyTo :: nodeset
  pts :: nodeset
  prevPTS :: nodeset

definition new_solverState :: solverState where
  "new_solverState = \<lparr>complex = [], copyTo = [], pts = [], prevPTS = []\<rparr>"

text \<open>
  What \<open>go/types\<close> says about the types of the program, and the configuration: the type of
  \<open>reflect.Value\<close> if the program imports \<open>reflect\<close>, assignability and identity, and the parts of a
  signature (receiver, parameters and results, the last two as tuples).
\<close>

record config =
  reflect_Value :: "gotype option"
  AssignableTo :: "gotype \<Rightarrow> gotype \<Rightarrow> bool"
  Identical :: "gotype \<Rightarrow> gotype \<Rightarrow> bool"
  Signature :: "tref \<Rightarrow> gotype option \<times> gotype \<times> gotype"
  Reflection :: bool

record analysis =
  nodes :: "pnode list"
  heap :: "nat \<Rightarrow> solverState"
  next_ptr :: nat
  constraints :: "constr list"
  work :: nodeset

definition node_ref :: "analysis \<Rightarrow> nodeid \<Rightarrow> pnode res" where
  "node_ref a nid = slice_get (nodes a) (uint nid)"

section \<open>Creating nodes and objects\<close>

definition nextNode :: "analysis \<Rightarrow> nodeid" where
  "nextNode a = of_nat (length (nodes a))"

definition addOneNode :: "gotype \<Rightarrow> fieldInfo option \<Rightarrow> analysis \<Rightarrow> nodeid \<times> analysis" where
  "addOneNode typ sub a =
     (nextNode a,
      a\<lparr>nodes := nodes a @ [\<lparr>node_obj = None, node_typ = typ, subelement = sub, solve_ptr = next_ptr a\<rparr>],
        heap := (heap a)(next_ptr a := new_solverState), next_ptr := next_ptr a + 1\<rparr>)"

definition addNodes :: "config \<Rightarrow> gotype \<Rightarrow> analysis \<Rightarrow> (nodeid \<times> analysis) res" where
  "addNodes C typ a = bindR (flatten (reflect_Value C) typ) (\<lambda>fl.
     let nid = nextNode a;
         a = fold (\<lambda>fi a. snd (addOneNode (fi_typ fi) (Some fi) a)) fl a
     in Ok (if nid = nextNode a then 0 else nid, a))"

text \<open>\<open>endObject\<close>, with the flags its callers add to the object it returns.\<close>

definition endObject :: "nodeid \<Rightarrow> 32 word \<Rightarrow> analysis \<Rightarrow> analysis res" where
  "endObject obj flags a =
     (let sz = nextNode a - obj;
          a = (if sz = 0 then snd (addOneNode (TBasic ''invalid type'') None a) else a)
      in bindR (node_ref a obj) (\<lambda>n.
           Ok (a\<lparr>nodes := (nodes a)[unat obj :=
             n\<lparr>node_obj := Some \<lparr>obj_flags = flags, obj_size = sz\<rparr>\<rparr>]\<rparr>)))"

definition makeTagged :: "config \<Rightarrow> gotype \<Rightarrow> analysis \<Rightarrow> (nodeid \<times> analysis) res" where
  "makeTagged C typ a =
     (case addOneNode typ None a of (obj, a) \<Rightarrow>
        bindR (addNodes C typ a) (\<lambda>(_, a).
        bindR (endObject obj otTagged a) (\<lambda>a. Ok (obj, a))))"

text \<open>
  The nodes of a function object: identity, receiver, parameters, results. \<open>sig\<close> is the reference of
  the signature.
\<close>

definition makeParamResultNodes :: "config \<Rightarrow> tref \<Rightarrow> nodeid \<Rightarrow> analysis \<Rightarrow> analysis res" where
  "makeParamResultNodes C sig obj a =
     (case Signature C sig of (recv, params, results) \<Rightarrow>
        let a = snd (addOneNode (TSignature sig) None a) in
        bindR (case recv of None \<Rightarrow> Ok a | Some t \<Rightarrow> bindR (addNodes C t a) (\<lambda>(_, a). Ok a)) (\<lambda>a.
        bindR (addNodes C params a) (\<lambda>(_, a).
        bindR (addNodes C results a) (\<lambda>(_, a).
          endObject obj otFunction a))))"

section \<open>Reading objects\<close>

definition isTaggedObject :: "analysis \<Rightarrow> nodeid \<Rightarrow> bool res" where
  "isTaggedObject a obj = bindR (node_ref a obj) (\<lambda>n. bindR (deref (node_obj n)) (\<lambda>ob.
     Ok (obj_flags ob AND otTagged \<noteq> 0)))"

definition taggedValue :: "analysis \<Rightarrow> nodeid \<Rightarrow> (gotype \<times> nodeid \<times> bool) res" where
  "taggedValue a obj = bindR (node_ref a obj) (\<lambda>n. bindR (deref (node_obj n)) (\<lambda>ob.
     if obj_flags ob AND otTagged = 0 then Panic (ExplicitPanic ''not a tagged object'')
     else Ok (node_typ n, obj + 1, obj_flags ob AND otIndirect \<noteq> 0)))"

definition is_function_node :: "pnode \<Rightarrow> bool" where
  "is_function_node n \<longleftrightarrow> (case node_obj n of None \<Rightarrow> False | Some ob \<Rightarrow> obj_flags ob AND otFunction \<noteq> 0)"

definition taggedFunc :: "analysis \<Rightarrow> nodeid \<Rightarrow> gotype option res" where
  "taggedFunc a obj = bindR (node_ref a obj) (\<lambda>n.
     Ok (if is_function_node n then Some (node_typ n) else None))"

definition funcParams :: "analysis \<Rightarrow> nodeid \<Rightarrow> nodeid res" where
  "funcParams a nid = bindR (node_ref a nid) (\<lambda>n.
     if is_function_node n then Ok (nid + 1)
     else Panic (ExplicitPanic ''funcParams: not a function object block''))"

definition funcResults :: "config \<Rightarrow> analysis \<Rightarrow> nodeid \<Rightarrow> nodeid res" where
  "funcResults C a nid = bindR (node_ref a nid) (\<lambda>n.
     if is_function_node n then
       (case node_typ n of
          TSignature sig \<Rightarrow>
            (case Signature C sig of (recv, params, results) \<Rightarrow>
               bindR (sizeof (reflect_Value C) params) (\<lambda>ps.
               bindR (case recv of None \<Rightarrow> Ok 0 | Some t \<Rightarrow> sizeof (reflect_Value C) t) (\<lambda>rs.
                 Ok (nid + (1 + ps) + rs))))
        | _ \<Rightarrow> Panic TypeAssertion)
     else Panic (ExplicitPanic ''funcResults: not a function object block''))"

text \<open>
  \<open>enclosingObj\<close> scans back and, after a \<open>break\<close>, forward. The first loop tests \<open>i >= 0\<close> of an
  unsigned \<open>i\<close>, which is always true: past node 0 the index wraps around.
\<close>

fun scan_back :: "nat \<Rightarrow> analysis \<Rightarrow> nodeid \<Rightarrow> nodeid \<Rightarrow> nodeid option res" where
  "scan_back 0 a nid i = OutOfFuel"
| "scan_back (Suc fuel) a nid i = bindR (node_ref a i) (\<lambda>n.
     case node_obj n of
       Some ob \<Rightarrow> if i + obj_size ob \<le> nid then Ok None else Ok (Some i)
     | None \<Rightarrow> scan_back fuel a nid (i - 1))"

fun scan_forward :: "pnode list \<Rightarrow> nodeid \<Rightarrow> nodeid option" where
  "scan_forward [] i = None"
| "scan_forward (n # ns) i = (if node_obj n \<noteq> None then Some i else scan_forward ns (i + 1))"

definition enclosingObj :: "analysis \<Rightarrow> nodeid \<Rightarrow> nodeid res" where
  "enclosingObj a nid = bindR (scan_back (unat nid + 2) a nid nid) (\<lambda>r. case r of
       Some i \<Rightarrow> Ok i
     | None \<Rightarrow> (case scan_forward (drop (unat nid) (nodes a)) nid of
         Some i \<Rightarrow> Ok i
       | None \<Rightarrow> Panic (ExplicitPanic ''node has no enclosing object'')))"

section \<open>Creating constraints\<close>

definition addConstraint :: "constr \<Rightarrow> analysis \<Rightarrow> analysis" where
  "addConstraint c a = a\<lparr>constraints := constraints a @ [c]\<rparr>"

text \<open>\<open>for i := uint32(0); i < sizeof; i++\<close>: the index as a word.\<close>

definition each_field :: "(32 word \<Rightarrow> constr) \<Rightarrow> 32 word \<Rightarrow> analysis \<Rightarrow> analysis" where
  "each_field c sz a = fold (\<lambda>i a. addConstraint (c (of_nat i)) a) [0..<unat sz] a"

definition copy_nodes :: "nodeid \<Rightarrow> nodeid \<Rightarrow> 32 word \<Rightarrow> analysis \<Rightarrow> analysis res" where
  "copy_nodes dst src sz a =
     (if src = dst \<or> sz = 0 then Ok a
      else if src = 0 \<or> dst = 0 then Panic (ExplicitPanic ''ill-typed copy'')
      else Ok (each_field (\<lambda>i. CopyConstraint (dst + i) (src + i)) sz a))"

definition addressOf :: "nodeid \<Rightarrow> nodeid \<Rightarrow> analysis \<Rightarrow> analysis res" where
  "addressOf nid obj a =
     (if nid = 0 then Panic (ExplicitPanic ''addressOf: zero nid'')
      else if obj = 0 then Panic (ExplicitPanic ''addressOf: zero obj'')
      else Ok (addConstraint (AddrConstraint nid obj) a))"

definition load :: "nodeid \<Rightarrow> nodeid \<Rightarrow> 32 word \<Rightarrow> 32 word \<Rightarrow> analysis \<Rightarrow> analysis res" where
  "load dst src off sz a =
     (if dst = 0 then Ok a
      else if src = 0 \<and> dst = 0 then Ok a
      else if src = 0 \<or> dst = 0 then Panic (ExplicitPanic ''ill-typed load'')
      else Ok (each_field (\<lambda>i. LoadConstraint (off + i) (dst + i) src) sz a))"

definition store_nodes :: "nodeid \<Rightarrow> nodeid \<Rightarrow> 32 word \<Rightarrow> 32 word \<Rightarrow> analysis \<Rightarrow> analysis res" where
  "store_nodes dst src off sz a =
     (if src = 0 then Ok a
      else if src = 0 \<and> dst = 0 then Ok a
      else if src = 0 \<or> dst = 0 then Panic (ExplicitPanic ''ill-typed store'')
      else Ok (each_field (\<lambda>i. StoreConstraint (off + i) dst (src + i)) sz a))"

definition offsetAddr :: "nodeid \<Rightarrow> nodeid \<Rightarrow> 32 word \<Rightarrow> analysis \<Rightarrow> analysis res" where
  "offsetAddr dst src off a =
     (if off = 0 then copy_nodes dst src 1 a
      else Ok (addConstraint (OffsetAddrConstraint off dst src) a))"

definition typeAssert :: "gotype \<Rightarrow> nodeid \<Rightarrow> nodeid \<Rightarrow> bool \<Rightarrow> analysis \<Rightarrow> analysis" where
  "typeAssert T dst src exact a =
     (if isInterface T then addConstraint (TypeFilterConstraint T dst src) a
      else addConstraint (UntagConstraint T dst src exact) a)"

end
