(* ===== verification/PtrRenumber.thy ===== *)
theory PtrRenumber
  imports PtrModel
begin

text \<open>
  \<open>go/pointer/opt.go\<close>: renumbering, which permutes the nodes so that those of addressable objects come
  first, and then replaces every node id the analysis keeps (the maps of values and objects, the
  constraints, the call-graph nodes with their call sites, the tables of closures).

  Call sites are shared objects: \<open>site_targets\<close> maps the address of a \<open>*callsite\<close> to its field
  \<open>targets\<close>. A range over a map that overwrites the entries it visits is a pass over the entries.
  \<open>UpdateMainID\<close>, which only serves a log, is left out. \<open>renumberHVN\<close> of \<open>callgraph.go\<close> is the variant
  that the hash-value numbering of \<open>hvn.go\<close> applies to the same tables.
\<close>

record pcgnode =
  cg_obj :: nodeid
  cg_sites :: "nat list"
  actualCallerSite :: "nat list list"
  localval :: "(nat, nodeid) gomap"
  localobj :: "(nat, nodeid) gomap"

record node_tables =
  globalobj :: "(nat, nodeid) gomap"
  globalval :: "(nat, nodeid) gomap"
  pcgnodes :: "pcgnode list"
  site_targets :: "nat \<Rightarrow> nodeid"
  closureWOGo :: "(nodeid, nodeid) gomap"
  closures :: "(nat, (nat, nodeid list) gomap) gomap"

section \<open>The permutation\<close>

text \<open>The loop variables \<open>i\<close> and \<open>j\<close>, \<open>newNodes\<close> with its nil entries, and \<open>renumbering\<close>.\<close>

type_synonym numbering = "nodeid \<times> nodeid \<times> pnode option list \<times> nodeid list"

definition place_node :: "analysis \<Rightarrow> numbering \<Rightarrow> numbering res" where
  "place_node a = (\<lambda>(i, j, newNodes, renumbering).
     bindR (node_ref a i) (\<lambda>n.
     bindR (slice_set newNodes (uint j) (Some n)) (\<lambda>newNodes.
     bindR (slice_set renumbering (uint i) j) (\<lambda>renumbering.
       Ok (i + 1, j + 1, newNodes, renumbering)))))"

fun place_block :: "nat \<Rightarrow> analysis \<Rightarrow> nodeid \<Rightarrow> numbering \<Rightarrow> numbering res" where
  "place_block 0 a end_id s = OutOfFuel"
| "place_block (Suc fuel) a end_id s =
     (if fst s < end_id then bindR (place_node a s) (place_block fuel a end_id) else Ok s)"

text \<open>The two passes; an object of size 0 would keep either of them where it is.\<close>

fun object_pass :: "nat \<Rightarrow> analysis \<Rightarrow> nodeid \<Rightarrow> numbering \<Rightarrow> numbering res" where
  "object_pass 0 a N s = OutOfFuel"
| "object_pass (Suc fuel) a N (i, s) =
     (if i < N then bindR (node_ref a i) (\<lambda>n. case node_obj n of
          None \<Rightarrow> object_pass fuel a N (i + 1, s)
        | Some ob \<Rightarrow> bindR (place_block (Suc (unat (obj_size ob))) a (i + obj_size ob) (i, s))
            (object_pass fuel a N))
      else Ok (i, s))"

fun value_pass :: "nat \<Rightarrow> analysis \<Rightarrow> nodeid \<Rightarrow> numbering \<Rightarrow> numbering res" where
  "value_pass 0 a N s = OutOfFuel"
| "value_pass (Suc fuel) a N (i, s) =
     (if i < N then bindR (node_ref a i) (\<lambda>n. case node_obj n of
          Some ob \<Rightarrow> value_pass fuel a N (i + obj_size ob, s)
        | None \<Rightarrow> bindR (place_node a (i, s)) (value_pass fuel a N))
      else Ok (i, s))"

definition permute_nodes :: "nat \<Rightarrow> analysis \<Rightarrow> (pnode option list \<times> nodeid list) res" where
  "permute_nodes fuel a =
     (let N = nextNode a in
      bindR (place_node a (0, 0, replicate (unat N) None, replicate (unat N) 0)) (\<lambda>s.
      bindR (object_pass fuel a N s) (\<lambda>(_, s).
      bindR (value_pass fuel a N (1, s)) (\<lambda>(_, j, newNodes, renumbering).
        if j \<noteq> N then Panic (ExplicitPanic ''internal error'') else Ok (newNodes, renumbering)))))"

section \<open>Renaming the tables\<close>

definition new_id :: "nodeid list \<Rightarrow> nodeid \<Rightarrow> nodeid res" where
  "new_id r k = slice_get r (uint k)"

primrec mapR :: "('a \<Rightarrow> 'b res) \<Rightarrow> 'a list \<Rightarrow> 'b list res" where
  "mapR f [] = Ok []"
| "mapR f (x # xs) = bindR (f x) (\<lambda>y. bindR (mapR f xs) (\<lambda>ys. Ok (y # ys)))"

definition rename_values :: "('v \<Rightarrow> 'v res) \<Rightarrow> ('k, 'v) gomap \<Rightarrow> ('k, 'v) gomap res" where
  "rename_values f = mapR (\<lambda>(k, v). bindR (f v) (\<lambda>v. Ok (k, v)))"

fun rename_constr :: "nodeid list \<Rightarrow> constr \<Rightarrow> constr res" where
  "rename_constr r (AddrConstraint dst src) =
     bindR (new_id r dst) (\<lambda>d. bindR (new_id r src) (\<lambda>s. Ok (AddrConstraint d s)))"
| "rename_constr r (CopyConstraint dst src) =
     bindR (new_id r dst) (\<lambda>d. bindR (new_id r src) (\<lambda>s. Ok (CopyConstraint d s)))"
| "rename_constr r (LoadConstraint off dst src) =
     bindR (new_id r dst) (\<lambda>d. bindR (new_id r src) (\<lambda>s. Ok (LoadConstraint off d s)))"
| "rename_constr r (StoreConstraint off dst src) =
     bindR (new_id r dst) (\<lambda>d. bindR (new_id r src) (\<lambda>s. Ok (StoreConstraint off d s)))"
| "rename_constr r (OffsetAddrConstraint off dst src) =
     bindR (new_id r dst) (\<lambda>d. bindR (new_id r src) (\<lambda>s. Ok (OffsetAddrConstraint off d s)))"
| "rename_constr r (TypeFilterConstraint typ dst src) =
     bindR (new_id r dst) (\<lambda>d. bindR (new_id r src) (\<lambda>s. Ok (TypeFilterConstraint typ d s)))"
| "rename_constr r (UntagConstraint typ dst src exact) =
     bindR (new_id r dst) (\<lambda>d. bindR (new_id r src) (\<lambda>s. Ok (UntagConstraint typ d s exact)))"

definition rename_site :: "nodeid list \<Rightarrow> nat \<Rightarrow> (nat \<Rightarrow> nodeid) \<Rightarrow> (nat \<Rightarrow> nodeid) res" where
  "rename_site r site t = bindR (new_id r (t site)) (\<lambda>k. Ok (t(site := k)))"

definition rename_locals :: "nodeid list \<Rightarrow> pcgnode \<Rightarrow> pcgnode res" where
  "rename_locals r n =
     bindR (rename_values (new_id r) (localval n)) (\<lambda>lv.
     bindR (rename_values (new_id r) (localobj n)) (\<lambda>lo.
       Ok (n\<lparr>localval := lv, localobj := lo\<rparr>)))"

definition rename_cgnode :: "nodeid list \<Rightarrow> pcgnode \<Rightarrow> (nat \<Rightarrow> nodeid) \<Rightarrow> (pcgnode \<times> (nat \<Rightarrow> nodeid)) res" where
  "rename_cgnode r n t =
     bindR (new_id r (cg_obj n)) (\<lambda>obj.
     bindR (loopR (rename_site r) (cg_sites n) t) (\<lambda>t.
     bindR (loopR (\<lambda>sites. loopR (rename_site r) sites) (actualCallerSite n) t) (\<lambda>t.
     bindR (rename_locals r (n\<lparr>cg_obj := obj\<rparr>)) (\<lambda>n. Ok (n, t)))))"

fun rename_cgnodes ::
  "nodeid list \<Rightarrow> pcgnode list \<Rightarrow> (nat \<Rightarrow> nodeid) \<Rightarrow> (pcgnode list \<times> (nat \<Rightarrow> nodeid)) res" where
  "rename_cgnodes r [] t = Ok ([], t)"
| "rename_cgnodes r (n # ns) t =
     bindR (rename_cgnode r n t) (\<lambda>(n, t). bindR (rename_cgnodes r ns t) (\<lambda>(ns, t). Ok (n # ns, t)))"

definition rename_keys :: "nodeid list \<Rightarrow> (nodeid, nodeid) gomap \<Rightarrow> (nodeid, nodeid) gomap res" where
  "rename_keys r m = loopR (\<lambda>(key, val) tmp. bindR (new_id r key) (\<lambda>k. bindR (new_id r val) (\<lambda>v.
     Ok (mput k v tmp)))) m []"

definition rename_ctx :: "nodeid list \<Rightarrow> (nat, nodeid list) gomap \<Rightarrow> (nat, nodeid list) gomap res" where
  "rename_ctx r = rename_values (mapR (new_id r))"

definition renumber :: "nat \<Rightarrow> analysis \<Rightarrow> node_tables \<Rightarrow> (analysis \<times> node_tables) res" where
  "renumber fuel a g =
     bindR (permute_nodes fuel a) (\<lambda>(newNodes, r).
     bindR (rename_values (new_id r) (globalobj g)) (\<lambda>gobj.
     bindR (rename_values (new_id r) (globalval g)) (\<lambda>gval.
     bindR (mapR (rename_constr r) (constraints a)) (\<lambda>cs.
     bindR (rename_cgnodes r (pcgnodes g) (site_targets g)) (\<lambda>(ns, t).
     bindR (rename_keys r (closureWOGo g)) (\<lambda>cl.
     bindR (rename_values (rename_ctx r) (closures g)) (\<lambda>cls.
       Ok (a\<lparr>nodes := map the newNodes, constraints := cs\<rparr>,
           \<lparr>globalobj = gobj, globalval = gval, pcgnodes = ns, site_targets = t,
            closureWOGo = cl, closures = cls\<rparr>))))))))"

section \<open>Renumbering for hash-value numbering\<close>

definition hvn_id :: "nodeid list \<Rightarrow> nodeid \<Rightarrow> nodeid res" where
  "hvn_id mapping old = bindR (new_id mapping old) (\<lambda>nid.
     Ok (if nid = 0 \<or> nid = old then old else nid))"

definition renumberHVN_locals :: "nodeid list \<Rightarrow> pcgnode \<Rightarrow> pcgnode res" where
  "renumberHVN_locals mapping n =
     bindR (rename_values (hvn_id mapping) (localval n)) (\<lambda>lv.
     bindR (rename_values (hvn_id mapping) (localobj n)) (\<lambda>lo.
       Ok (n\<lparr>localval := lv, localobj := lo\<rparr>)))"

text \<open>The slice of new ids starts with zeros, and an id that is not remapped is skipped.\<close>

definition hvn_ids :: "nodeid list \<Rightarrow> nodeid list \<Rightarrow> nodeid list res" where
  "hvn_ids mapping array = loopR (\<lambda>(idx, ele) objs. bindR (new_id mapping ele) (\<lambda>nid.
     if nid = 0 \<or> nid = ele then Ok objs else slice_set objs (int idx) nid))
     (zip [0..<length array] array) (replicate (length array) 0)"

definition renumberHVN_ctx ::
  "nodeid list \<Rightarrow> (nat, nodeid list) gomap \<Rightarrow> (nat, nodeid list) gomap res" where
  "renumberHVN_ctx mapping = rename_values (hvn_ids mapping)"

section \<open>Labels\<close>

text \<open>A label is an object and the path to a scalar in it.\<close>

definition labelFor :: "analysis \<Rightarrow> nodeid \<Rightarrow> (object option \<times> fieldInfo option) res" where
  "labelFor a nid = bindR (enclosingObj a nid) (\<lambda>i. bindR (node_ref a i) (\<lambda>n.
     bindR (node_ref a nid) (\<lambda>m. Ok (node_obj n, subelement m))))"

end
