(* ===== verification/PtrSolve.thy ===== *)
theory PtrSolve
  imports PtrModel
begin

text \<open>
  \<open>go/pointer/solve.go\<close>: the solver of the inclusion constraints, with difference propagation: a node
  on the worklist passes the labels it has gained since it was last processed to its complex
  constraints and along its copy edges. The main loops take a step budget.
\<close>

definition state_of :: "analysis \<Rightarrow> pnode \<Rightarrow> solverState" where
  "state_of a n = heap a (solve_ptr n)"

definition set_state :: "pnode \<Rightarrow> solverState \<Rightarrow> analysis \<Rightarrow> analysis" where
  "set_state n s a = a\<lparr>heap := (heap a)(solve_ptr n := s)\<rparr>"

section \<open>Labels, work and online copies\<close>

definition addLabel :: "nodeid \<Rightarrow> nodeid \<Rightarrow> analysis \<Rightarrow> (bool \<times> analysis) res" where
  "addLabel ptr label a = bindR (node_ref a ptr) (\<lambda>n.
     case nodeset_add (pts (state_of a n)) label of (b, ps) \<Rightarrow>
       Ok (b, set_state n ((state_of a n)\<lparr>pts := ps\<rparr>) a))"

definition addWork :: "nodeid \<Rightarrow> analysis \<Rightarrow> analysis" where
  "addWork nid a = a\<lparr>work := snd (nodeset_add (work a) nid)\<rparr>"

definition addAll_to :: "pnode \<Rightarrow> nodeset \<Rightarrow> analysis \<Rightarrow> bool \<times> analysis" where
  "addAll_to n y a = (case nodeset_addAll (pts (state_of a n)) y of (b, ps) \<Rightarrow>
     (b, set_state n ((state_of a n)\<lparr>pts := ps\<rparr>) a))"

definition onlineCopy :: "nodeid \<Rightarrow> nodeid \<Rightarrow> analysis \<Rightarrow> (bool \<times> analysis) res" where
  "onlineCopy dst src a =
     (if dst \<noteq> src then bindR (node_ref a src) (\<lambda>nsrc.
        case nodeset_add (copyTo (state_of a nsrc)) dst of (b, ct) \<Rightarrow>
          let a = set_state nsrc ((state_of a nsrc)\<lparr>copyTo := ct\<rparr>) a in
          if b then bindR (node_ref a dst) (\<lambda>ndst.
            if solve_ptr ndst = solve_ptr nsrc then Ok (False, a)
            else Ok (addAll_to ndst (pts (state_of a nsrc)) a))
          else Ok (False, a))
      else Ok (False, a))"

definition onlineCopyN :: "nodeid \<Rightarrow> nodeid \<Rightarrow> 32 word \<Rightarrow> analysis \<Rightarrow> analysis res" where
  "onlineCopyN dst src sz a = loopR (\<lambda>i a.
     bindR (onlineCopy (dst + of_nat i) (src + of_nat i) a) (\<lambda>(b, a).
       Ok (if b then addWork (dst + of_nat i) a else a))) [0..<unat sz] a"

section \<open>Complex constraints\<close>

text \<open>The label \<open>x\<close> of \<open>delta\<close>, for each kind of constraint.\<close>

definition load_label ::
  "32 word \<Rightarrow> nodeid \<Rightarrow> nodeid \<Rightarrow> bool \<times> analysis \<Rightarrow> (bool \<times> analysis) res" where
  "load_label off dst k = (\<lambda>(changed, a).
     bindR (onlineCopy dst (k + off) a) (\<lambda>(b, a). Ok (changed \<or> b, a)))"

definition store_label :: "32 word \<Rightarrow> nodeid \<Rightarrow> nodeid \<Rightarrow> analysis \<Rightarrow> analysis res" where
  "store_label off src k a =
     bindR (onlineCopy (k + off) src a) (\<lambda>(b, a). Ok (if b then addWork (k + off) a else a))"

definition add_and_work :: "nodeid \<Rightarrow> nodeid \<Rightarrow> analysis \<Rightarrow> analysis res" where
  "add_and_work dst label a =
     bindR (addLabel dst label a) (\<lambda>(b, a). Ok (if b then addWork dst a else a))"

definition tagged_type :: "analysis \<Rightarrow> nodeid \<Rightarrow> (gotype \<times> nodeid) res" where
  "tagged_type a k = bindR (taggedValue a k) (\<lambda>(tDyn, v, indirect).
     if indirect then Panic (ExplicitPanic ''indirect tagged object'') else Ok (tDyn, v))"

text \<open>
  With \<open>config.Reflection\<close> the loop returns at an assignable label unless the type of the assertion
  is a pointer.
\<close>

fun filter_labels :: "config \<Rightarrow> gotype \<Rightarrow> nodeid \<Rightarrow> nodeid list \<Rightarrow> analysis \<Rightarrow> analysis res" where
  "filter_labels C typ dst [] a = Ok a"
| "filter_labels C typ dst (k # ks) a = bindR (tagged_type a k) (\<lambda>(tDyn, _).
     if AssignableTo C tDyn typ then
       if Reflection C \<and> (case typ of TPointer _ \<Rightarrow> False | _ \<Rightarrow> True) then Ok a
       else bindR (add_and_work dst k a) (filter_labels C typ dst ks)
     else filter_labels C typ dst ks a)"

definition untag_label ::
  "config \<Rightarrow> gotype \<Rightarrow> nodeid \<Rightarrow> bool \<Rightarrow> nodeid \<Rightarrow> analysis \<Rightarrow> analysis res" where
  "untag_label C typ dst exact k a = bindR (tagged_type a k) (\<lambda>(tDyn, v).
     if (if exact then Identical C else AssignableTo C) tDyn typ then
       bindR (sizeof (reflect_Value C) tDyn) (\<lambda>sz. onlineCopyN dst v sz a)
     else Ok a)"

definition solve_constr :: "config \<Rightarrow> constr \<Rightarrow> nodeset \<Rightarrow> analysis \<Rightarrow> analysis res" where
  "solve_constr C c delta a = (case c of
       LoadConstraint off dst src \<Rightarrow>
         bindR (loopR (load_label off dst) (node_list delta) (False, a)) (\<lambda>(changed, a).
           Ok (if changed then addWork dst a else a))
     | StoreConstraint off dst src \<Rightarrow> loopR (store_label off src) (node_list delta) a
     | OffsetAddrConstraint off dst src \<Rightarrow>
         bindR (node_ref a dst) (\<lambda>_. loopR (\<lambda>k. add_and_work dst (k + off)) (node_list delta) a)
     | TypeFilterConstraint typ dst src \<Rightarrow> filter_labels C typ dst (node_list delta) a
     | UntagConstraint typ dst src exact \<Rightarrow>
         loopR (untag_label C typ dst exact) (node_list delta) a
     | AddrConstraint dst src \<Rightarrow> Panic (ExplicitPanic ''addr is not a complex constraint'')
     | CopyConstraint dst src \<Rightarrow> Panic (ExplicitPanic ''copy is not a complex constraint''))"

section \<open>Propagation\<close>

definition copy_edge :: "nodeset \<Rightarrow> nodeid \<Rightarrow> nodeset \<times> analysis \<Rightarrow> (nodeset \<times> analysis) res" where
  "copy_edge delta mid = (\<lambda>(copySeen, a).
     case nodeset_add copySeen mid of (fresh, copySeen) \<Rightarrow>
       if fresh then bindR (node_ref a mid) (\<lambda>n. case addAll_to n delta a of (b, a) \<Rightarrow>
         Ok (copySeen, if b then addWork mid a else a))
       else Ok (copySeen, a))"

definition solveConstraints :: "config \<Rightarrow> pnode \<Rightarrow> nodeset \<Rightarrow> analysis \<Rightarrow> analysis res" where
  "solveConstraints C n delta a =
     (if nodeset_IsEmpty delta then Ok a
      else bindR (loopR (\<lambda>c a. solve_constr C c delta a) (complex (state_of a n)) a) (\<lambda>a.
           bindR (loopR (copy_edge delta) (node_list (copyTo (state_of a n))) ([], a)) (\<lambda>(_, a).
             Ok a)))"

section \<open>New constraints\<close>

definition has_constraints :: "solverState \<Rightarrow> bool" where
  "has_constraints s \<longleftrightarrow> \<not> nodeset_IsEmpty (copyTo s) \<or> complex s \<noteq> []"

definition init_addr :: "constr \<Rightarrow> analysis \<Rightarrow> analysis res" where
  "init_addr c a = (case c of
       AddrConstraint dst src \<Rightarrow> bindR (node_ref a dst) (\<lambda>n.
         let a = set_state n ((state_of a n)\<lparr>pts := snd (nodeset_add (pts (state_of a n)) src)\<rparr>) a
         in Ok (if has_constraints (state_of a n) then addWork dst a else a))
     | _ \<Rightarrow> Ok a)"

definition attach_copy :: "nodeid \<Rightarrow> nodeid \<Rightarrow> analysis \<Rightarrow> analysis res" where
  "attach_copy dst src a = bindR (node_ref a src) (\<lambda>n. Ok (set_state n
     ((state_of a n)\<lparr>copyTo := snd (nodeset_add (copyTo (state_of a n)) dst)\<rparr>) a))"

definition attach_complex :: "constr \<Rightarrow> analysis \<Rightarrow> analysis res" where
  "attach_complex c a = bindR (node_ref a (constr_ptr c)) (\<lambda>n. Ok (set_state n
     ((state_of a n)\<lparr>complex := complex (state_of a n) @ [c]\<rparr>) a))"

definition note_pending :: "nodeid \<Rightarrow> nodeset \<times> analysis \<Rightarrow> (nodeset \<times> analysis) res" where
  "note_pending nid = (\<lambda>(stale, a). bindR (node_ref a nid) (\<lambda>n.
     if \<not> nodeset_IsEmpty (pts (state_of a n)) then
       Ok (if \<not> nodeset_IsEmpty (prevPTS (state_of a n)) then snd (nodeset_add stale nid) else stale,
           addWork nid a)
     else Ok (stale, a)))"

definition attach :: "constr \<Rightarrow> nodeset \<times> analysis \<Rightarrow> (nodeset \<times> analysis) res" where
  "attach c = (\<lambda>(stale, a). case c of
       AddrConstraint dst src \<Rightarrow> Ok (stale, a)
     | CopyConstraint dst src \<Rightarrow> bindR (attach_copy dst src a) (\<lambda>a. note_pending src (stale, a))
     | _ \<Rightarrow> bindR (attach_complex c a) (\<lambda>a. note_pending (constr_ptr c) (stale, a)))"

definition solve_stale :: "config \<Rightarrow> nodeid \<Rightarrow> analysis \<Rightarrow> analysis res" where
  "solve_stale C nid a =
     bindR (node_ref a nid) (\<lambda>n. solveConstraints C n (prevPTS (state_of a n)) a)"

definition processNewConstraints :: "config \<Rightarrow> analysis \<Rightarrow> analysis res" where
  "processNewConstraints C a =
     (let cs = constraints a; a = a\<lparr>constraints := []\<rparr> in
      bindR (loopR init_addr cs a) (\<lambda>a.
      bindR (loopR attach cs ([], a)) (\<lambda>(stale, a).
        loopR (solve_stale C) (node_list stale) a)))"

section \<open>The main loop\<close>

text \<open>
  The result of one round: the worklist was empty, or the state to go on with. \<open>delta\<close> is the
  variable of the loop, which \<open>Difference\<close> overwrites.
\<close>

definition delta_of :: "solverState \<Rightarrow> nodeset \<Rightarrow> nodeset" where
  "delta_of s delta = Difference
     (\<lambda>i. if i = 0 then delta else if i = 1 then pts s else prevPTS s) 0 1 2 0"

definition copy_pts :: "solverState \<Rightarrow> solverState" where
  "copy_pts s = s\<lparr>prevPTS := Copy (\<lambda>i. if i = 0 then prevPTS s else pts s) 0 1 0\<rparr>"

definition solve_node :: "config \<Rightarrow> nodeid \<Rightarrow> nodeset \<times> analysis \<Rightarrow> (nodeset \<times> analysis) res" where
  "solve_node C nid = (\<lambda>(delta, a). bindR (node_ref a nid) (\<lambda>n.
     let delta = delta_of (state_of a n) delta in
     if nodeset_IsEmpty delta then Ok (delta, a)
     else bindR (solveConstraints C n delta (set_state n (copy_pts (state_of a n)) a)) (\<lambda>a.
       Ok (delta, a))))"

fun solveDefault :: "nat \<Rightarrow> config \<Rightarrow> nodeset \<times> analysis \<Rightarrow> analysis res" where
  "solveDefault 0 C s = OutOfFuel"
| "solveDefault (Suc fuel) C (delta, a) =
     bindR (processNewConstraints C a) (\<lambda>a.
     bindR (TakeMin (work a)) (\<lambda>m. case m of None \<Rightarrow> Ok a
       | Some (x, w) \<Rightarrow>
           bindR (solve_node C (word_of_int x) (delta, a\<lparr>work := w\<rparr>)) (solveDefault fuel C)))"

text \<open>The variant with a limit on the size of points-to sets; \<open>skip\<close> is \<open>skipIDs\<close>.\<close>

definition solve_node_limit ::
  "config \<Rightarrow> int \<Rightarrow> nodeid \<Rightarrow> int set \<times> nodeset \<times> analysis \<Rightarrow> (int set \<times> nodeset \<times> analysis) res" where
  "solve_node_limit C limit nid = (\<lambda>(skip, delta, a). bindR (node_ref a nid) (\<lambda>n.
     let delta = delta_of (state_of a n) delta in
     if nodeset_IsEmpty delta then Ok (skip, delta, a)
     else if Len (pts (state_of a n)) \<ge> limit then
       Ok (insert (uint nid) skip, delta, set_state n ((state_of a n)\<lparr>prevPTS := Clear\<rparr>) a)
     else bindR (solveConstraints C n delta (set_state n (copy_pts (state_of a n)) a)) (\<lambda>a.
       Ok (skip, delta, a))))"

fun solveLimit :: "nat \<Rightarrow> config \<Rightarrow> int \<Rightarrow> int set \<times> nodeset \<times> analysis \<Rightarrow> analysis res" where
  "solveLimit 0 C limit s = OutOfFuel"
| "solveLimit (Suc fuel) C limit (skip, delta, a) =
     bindR (processNewConstraints C a) (\<lambda>a.
     bindR (TakeMin (work a)) (\<lambda>m. case m of None \<Rightarrow> Ok a
       | Some (x, w) \<Rightarrow>
           let a = a\<lparr>work := w\<rparr> in
           if x \<in> skip then solveLimit fuel C limit (skip, delta, a)
           else bindR (solve_node_limit C limit (word_of_int x) (skip, delta, a))
             (solveLimit fuel C limit)))"

text \<open>The release of the working state, and \<open>solve\<close> for a limit of 0 or more.\<close>

definition release :: "analysis \<Rightarrow> analysis" where
  "release a = fold (\<lambda>n a. set_state n
     ((state_of a n)\<lparr>complex := [], copyTo := Clear, prevPTS := Clear\<rparr>) a) (nodes a) a"

definition solve :: "nat \<Rightarrow> config \<Rightarrow> int \<Rightarrow> analysis \<Rightarrow> analysis res" where
  "solve fuel C PTSLimit a =
     bindR (if PTSLimit = 0 then solveDefault fuel C ([], a) else solveLimit fuel C PTSLimit ({}, [], a)) (\<lambda>a.
     bindR (node_ref a 0) (\<lambda>n.
       if \<not> nodeset_IsEmpty (pts (state_of a n)) then Panic (ExplicitPanic ''pts(0) is nonempty'')
       else Ok (release a)))"

end
