(* ===== verification/PtrSets.thy ===== *)
theory PtrSets
  imports PtrSolve SparseProps
begin

text \<open>
  The sets of node ids behind \<open>nodeset\<close>, and the interface the solver's proofs use for its loops.
\<close>

section \<open>Node sets\<close>

text \<open>A \<open>nodeset\<close> that holds node ids, and the set of its node ids.\<close>

definition wf_ns :: "nodeset \<Rightarrow> bool" where
  "wf_ns s \<longleftrightarrow> wf_sparse s \<and> elems s \<subseteq> {0..<2 ^ 32}"

definition nset :: "nodeset \<Rightarrow> nodeid set" where
  "nset s = {k. uint k \<in> elems s}"

named_theorems ns_simps \<open>operations on node sets\<close>

lemma wf_ns_Nil [simp]: "wf_ns []" "nset [] = {}"
  by (simp_all add: wf_ns_def nset_def)

lemma uint_range [simp]: "uint (k :: nodeid) \<in> {0..<2 ^ 32}"
  using uint_bounded [of k] by simp

lemma elems_nset: "wf_ns s \<Longrightarrow> elems s = uint ` nset s"
  unfolding wf_ns_def nset_def
proof (intro equalityI subsetI)
  fix x assume s: "wf_sparse s \<and> elems s \<subseteq> {0..<2 ^ 32}" and x: "x \<in> elems s"
  then have "uint (word_of_int x :: nodeid) = x" by (auto simp: uint_word_of_int)
  with x show "x \<in> uint ` {k :: nodeid. uint k \<in> elems s}" by (metis image_eqI mem_Collect_eq)
qed auto

lemma nset_elems: "wf_ns s \<Longrightarrow> nset s = word_of_int ` elems s"
  by (simp add: elems_nset image_image)

lemma nset_empty [ns_simps]: "wf_ns s \<Longrightarrow> nodeset_IsEmpty s \<longleftrightarrow> nset s = {}"
  using Len_spec [of s] elems_nset [of s] by (auto simp: nodeset_IsEmpty_def wf_ns_def)

lemma nodeset_add_spec:
  assumes "wf_ns s" and "nodeset_add s k = (b, s')"
  shows "wf_ns s' \<and> nset s' = insert k (nset s) \<and> (b \<longleftrightarrow> k \<notin> nset s)"
proof -
  have "MinInt \<le> 0" "(2::int) ^ 32 \<le> MaxInt" by (simp_all add: MaxInt_def MinInt_def)
  with uint_range [of k] have "go_int (uint k)" unfolding go_int_def atLeastLessThan_iff by linarith
  with assms have "wf_sparse s' \<and> elems s' = insert (uint k) (elems s) \<and> b = (uint k \<notin> elems s)"
    by (intro set_Insert_spec) (auto simp: wf_ns_def nodeset_add_def)
  with assms(1) show ?thesis using uint_range [of k]
    by (auto simp: wf_ns_def nset_def simp flip: word_uint_eq_iff)
qed

lemma nodeset_add_snd [ns_simps]:
  "wf_ns s \<Longrightarrow> wf_ns (snd (nodeset_add s k))" "wf_ns s \<Longrightarrow> nset (snd (nodeset_add s k)) = insert k (nset s)"
  using nodeset_add_spec [of s k] by (cases "nodeset_add s k", simp)+

lemma nodeset_addAll_spec:
  assumes "wf_ns s" and "wf_ns y" and "nodeset_addAll s y = (b, s')"
  shows "wf_ns s' \<and> nset s' = nset s \<union> nset y \<and> (b \<or> nset y \<subseteq> nset s)"
proof -
  have r: "b = fst (union_with s y)" "s' = snd (union_with s y)"
    using assms(3) by (auto simp: nodeset_addAll_def UnionWith_def split: prod.splits)
  have w: "wf_sparse s" "wf_sparse y" using assms by (auto simp: wf_ns_def)
  from union_with_result [OF w] have "wf_sparse s'" "elems s' = elems s \<union> elems y"
    unfolding r result_def by auto
  moreover have "elems y \<subseteq> elems s" if "\<not> b"
    using that union_with_flag [of s y] w r(1) by (auto simp: wf_sparse_ordered elems_def)
  ultimately show ?thesis using assms(1,2) by (auto simp: wf_ns_def nset_def)
qed

lemma set_node_list [ns_simps]: "wf_ns s \<Longrightarrow> set (node_list s) = nset s"
  using forEach_spec [of s] by (simp add: node_list_def AppendTo_eq nset_elems wf_ns_def)

lemma delta_of_spec [ns_simps]:
  assumes "wf_ns (pts s)" and "wf_ns (prevPTS s)"
  shows "wf_ns (delta_of s d)" "nset (delta_of s d) = nset (pts s) - nset (prevPTS s)"
proof -
  have e: "delta_of s d = diff_loop (pts s) (prevPTS s) d" by (simp add: delta_of_def Difference_def)
  have w: "wf_sparse (pts s)" "ordered (prevPTS s)" using assms by (auto simp: wf_ns_def wf_sparse_ordered)
  from diff_loop_result [OF this, of d]
  have "wf_sparse (delta_of s d)" "elems (delta_of s d) = elems (pts s) - elems (prevPTS s)"
    by (simp_all add: result_def e)
  with assms show "wf_ns (delta_of s d)" "nset (delta_of s d) = nset (pts s) - nset (prevPTS s)"
    by (auto simp: wf_ns_def nset_def)
qed

lemma copy_pts_eq [simp]: "copy_pts s = s\<lparr>prevPTS := pts s\<rparr>"
  by (simp add: copy_pts_def Copy_def)

lemma TakeMin_nset:
  assumes "wf_ns s" and "TakeMin s = Ok r"
  shows "case r of None \<Rightarrow> nset s = {}
    | Some (x, s') \<Rightarrow> word_of_int x \<in> nset s \<and> wf_ns s' \<and> nset s' = nset s - {word_of_int x}"
proof (cases "elems s = {}")
  case True
  with TakeMin_spec [of s] assms show ?thesis by (auto simp: wf_ns_def nset_def)
next
  case False
  with TakeMin_spec [of s] assms obtain s' where t: "r = Some (Min (elems s), s')" "wf_sparse s'"
    "elems s' = elems s - {Min (elems s)}" by (auto simp: wf_ns_def)
  have "Min (elems s) \<in> uint ` nset s" using False elems_nset [OF assms(1)] by (metis Min_in finite_elems)
  then obtain k where k: "Min (elems s) = uint k" "k \<in> nset s" by auto
  with t have "nset s' = nset s - {k}" by (auto simp: nset_def simp flip: word_uint_eq_iff)
  with t k show ?thesis using assms(1) by (auto simp: wf_ns_def)
qed

lemma TakeMin_total: "wf_ns s \<Longrightarrow> \<exists>r. TakeMin s = Ok r"
  using TakeMin_spec [of s] by (auto simp: wf_ns_def split: if_splits)

section \<open>Loops that accumulate\<close>

text \<open>
  The loops of the solver keep an invariant and only add to the state. Whatever an iteration
  establishes is monotone, so that it still holds at the end of the loop.
\<close>

locale accumulating =
  fixes inv :: "'s \<Rightarrow> bool" and le :: "'s \<Rightarrow> 's \<Rightarrow> bool"
  assumes le_refl: "le s s" and le_trans: "inv t \<Longrightarrow> le s t \<Longrightarrow> le t u \<Longrightarrow> le s u"
begin

lemma loop_all:
  assumes "inv s"
    and step: "\<And>x s. x \<in> set xs \<Longrightarrow> inv s \<Longrightarrow> \<exists>t. body x s = Ok t \<and> inv t \<and> le s t \<and> goal x t"
    and mono: "\<And>x s t. x \<in> set xs \<Longrightarrow> inv s \<Longrightarrow> inv t \<Longrightarrow> goal x s \<Longrightarrow> le s t \<Longrightarrow> goal x t"
  shows "\<exists>t. loopR body xs s = Ok t \<and> inv t \<and> le s t \<and> (\<forall>x \<in> set xs. goal x t)"
  using assms
proof (induction xs arbitrary: s)
  case Nil
  then show ?case by (simp add: le_refl)
next
  case (Cons x xs)
  from Cons.prems(1,2) obtain u where u: "body x s = Ok u" "inv u" "le s u" "goal x u"
    by (meson list.set_intros(1))
  have "\<exists>t. loopR body xs u = Ok t \<and> inv t \<and> le u t \<and> (\<forall>x \<in> set xs. goal x t)"
  proof (rule Cons.IH [OF u(2)])
    show "\<exists>t. body y v = Ok t \<and> inv t \<and> le v t \<and> goal y t" if "y \<in> set xs" "inv v" for y v
      using Cons.prems(2) [OF _ that(2)] that(1) by simp
    show "goal y t" if "y \<in> set xs" "inv v" "inv t" "goal y v" "le v t" for y v t
      using Cons.prems(3) [OF _ that(2-5)] that(1) by simp
  qed
  then obtain t where t: "loopR body xs u = Ok t" "inv t" "le u t" "\<forall>x \<in> set xs. goal x t" by blast
  have "goal x t" using Cons.prems(3) [OF _ u(2) t(2) u(4) t(3)] by simp
  with u t le_trans [OF u(2,3) t(3)] show ?case by auto
qed

end

end
