(* ===== verification/PtrInv.thy ===== *)
theory PtrInv
  imports PtrSets
begin

text \<open>
  What the solver keeps. A candidate solution \<open>P\<close> gives a set of labels to every solver state; the
  solver stays below every solution (\<open>within_solution\<close>), and every state is closed under its
  constraints for the labels it has processed (\<open>closed\<close>): all its labels if it is not on the
  worklist, the previous ones otherwise.
\<close>

section \<open>Views of the state\<close>

definition rep :: "analysis \<Rightarrow> nodeid \<Rightarrow> nat" where
  "rep a k = solve_ptr (nodes a ! unat k)"

definition valid :: "analysis \<Rightarrow> nodeid \<Rightarrow> bool" where
  "valid a k \<longleftrightarrow> unat k < length (nodes a)"

definition pts_at :: "analysis \<Rightarrow> nat \<Rightarrow> nodeid set" where
  "pts_at a s = nset (pts (heap a s))"

definition prev_at :: "analysis \<Rightarrow> nat \<Rightarrow> nodeid set" where
  "prev_at a s = nset (prevPTS (heap a s))"

definition copy_at :: "analysis \<Rightarrow> nat \<Rightarrow> nodeid set" where
  "copy_at a s = nset (copyTo (heap a s))"

definition dirty :: "analysis \<Rightarrow> nat set" where
  "dirty a = rep a ` nset (work a)"

lemma node_ref_eq:
  "node_ref a k = (if valid a k then Ok (nodes a ! unat k) else Panic IndexOutOfRange)"
proof -
  have "uint k < int (length (nodes a)) \<longleftrightarrow> unat k < length (nodes a)" by (metis of_nat_less_iff uint_nat)
  then show ?thesis by (simp add: node_ref_def slice_get_def in_range_def valid_def)
qed

lemma node_ref_valid: "valid a k \<Longrightarrow> node_ref a k = Ok (nodes a ! unat k)"
  by (simp add: node_ref_eq)

lemma node_ref_rep: "node_ref a k = Ok n \<Longrightarrow> valid a k \<and> solve_ptr n = rep a k"
  by (auto simp: node_ref_eq rep_def split: if_splits)

section \<open>Constraints as conditions on a candidate solution\<close>

definition untag_applies :: "config \<Rightarrow> bool \<Rightarrow> gotype \<Rightarrow> gotype \<Rightarrow> bool" where
  "untag_applies C exact tDyn typ = (if exact then Identical C else AssignableTo C) tDyn typ"

fun satisfies :: "config \<Rightarrow> analysis \<Rightarrow> (nat \<Rightarrow> nodeid set) \<Rightarrow> constr \<Rightarrow> bool" where
  "satisfies C a P (AddrConstraint dst src) \<longleftrightarrow> valid a dst \<and> src \<in> P (rep a dst)"
| "satisfies C a P (CopyConstraint dst src) \<longleftrightarrow>
     valid a dst \<and> valid a src \<and> P (rep a src) \<subseteq> P (rep a dst)"
| "satisfies C a P (LoadConstraint off dst src) \<longleftrightarrow> valid a dst \<and> valid a src \<and>
     (\<forall>k \<in> P (rep a src). valid a (k + off) \<and> P (rep a (k + off)) \<subseteq> P (rep a dst))"
| "satisfies C a P (StoreConstraint off dst src) \<longleftrightarrow> valid a dst \<and> valid a src \<and>
     (\<forall>k \<in> P (rep a dst). valid a (k + off) \<and> P (rep a src) \<subseteq> P (rep a (k + off)))"
| "satisfies C a P (OffsetAddrConstraint off dst src) \<longleftrightarrow> valid a dst \<and> valid a src \<and>
     (\<forall>k \<in> P (rep a src). k + off \<in> P (rep a dst))"
| "satisfies C a P (TypeFilterConstraint typ dst src) \<longleftrightarrow> valid a dst \<and> valid a src \<and>
     (\<forall>k \<in> P (rep a src). \<exists>tDyn v. tagged_type a k = Ok (tDyn, v) \<and>
        (AssignableTo C tDyn typ \<longrightarrow> k \<in> P (rep a dst)))"
| "satisfies C a P (UntagConstraint typ dst src exact) \<longleftrightarrow> valid a dst \<and> valid a src \<and>
     (\<forall>k \<in> P (rep a src). \<exists>tDyn v. tagged_type a k = Ok (tDyn, v) \<and>
        (untag_applies C exact tDyn typ \<longrightarrow> (\<exists>sz. sizeof (reflect_Value C) tDyn = Ok sz \<and>
          (\<forall>i < unat sz. valid a (v + of_nat i) \<and> valid a (dst + of_nat i) \<and>
             P (rep a (v + of_nat i)) \<subseteq> P (rep a (dst + of_nat i))))))"

fun is_complex :: "constr \<Rightarrow> bool" where
  "is_complex (AddrConstraint dst src) = False"
| "is_complex (CopyConstraint dst src) = False"
| "is_complex c = True"

lemma satisfies_nodes: "nodes a = nodes b \<Longrightarrow> satisfies C a P c = satisfies C b P c"
proof -
  assume n: "nodes a = nodes b"
  then have "valid a = valid b" "rep a = rep b" "tagged_type a = tagged_type b"
    by (simp_all add: valid_def rep_def tagged_type_def taggedValue_def node_ref_def fun_eq_iff)
  then show ?thesis by (cases c) simp_all
qed

section \<open>The invariant below a solution\<close>

text \<open>The labels and edges the solver may have, for a solution \<open>P\<close>.\<close>

definition state_ok :: "config \<Rightarrow> analysis \<Rightarrow> (nat \<Rightarrow> nodeid set) \<Rightarrow> nat \<Rightarrow> bool" where
  "state_ok C a P s \<longleftrightarrow> wf_ns (pts (heap a s)) \<and> wf_ns (prevPTS (heap a s)) \<and> wf_ns (copyTo (heap a s)) \<and>
     prev_at a s \<subseteq> pts_at a s \<and> pts_at a s \<subseteq> P s \<and>
     (\<forall>d \<in> copy_at a s. valid a d \<and> P s \<subseteq> P (rep a d)) \<and>
     (\<forall>c \<in> set (complex (heap a s)). is_complex c \<and> rep a (constr_ptr c) = s \<and> satisfies C a P c)"

definition within_solution :: "config \<Rightarrow> (nat \<Rightarrow> nodeid set) \<Rightarrow> analysis \<Rightarrow> bool" where
  "within_solution C P a \<longleftrightarrow> (\<forall>s. state_ok C a P s) \<and>
     wf_ns (work a) \<and> (\<forall>w \<in> nset (work a). valid a w) \<and>
     (\<forall>c \<in> set (constraints a). valid a (constr_ptr c) \<and> satisfies C a P c)"

lemma within_wf:
  "within_solution C P a \<Longrightarrow> wf_ns (pts (heap a s))" "within_solution C P a \<Longrightarrow> wf_ns (prevPTS (heap a s))"
  "within_solution C P a \<Longrightarrow> wf_ns (copyTo (heap a s))" "within_solution C P a \<Longrightarrow> wf_ns (work a)"
  by (simp_all add: within_solution_def state_ok_def)

text \<open>
  Replacing one solver state, and changing the worklist: everything else that \<open>within_solution\<close>
  speaks about depends on the nodes only.
\<close>

lemma same_nodes:
  assumes "nodes a' = nodes a"
  shows "rep a' = rep a" "valid a' = valid a" "tagged_type a' = tagged_type a"
    "satisfies C a' P c = satisfies C a P c"
  using assms satisfies_nodes [OF assms]
  by (simp_all add: valid_def rep_def tagged_type_def taggedValue_def node_ref_def fun_eq_iff)

lemma set_state_simps [simp]:
  "nodes (set_state n s a) = nodes a" "work (set_state n s a) = work a"
  "constraints (set_state n s a) = constraints a"
  "heap (set_state n s a) = (heap a)(solve_ptr n := s)"
  by (simp_all add: set_state_def)

lemma set_state_same [simp]:
  "rep (set_state n s a) = rep a" "valid (set_state n s a) = valid a"
  "tagged_type (set_state n s a) = tagged_type a"
  "satisfies C (set_state n s a) P c = satisfies C a P c" "dirty (set_state n s a) = dirty a"
  using same_nodes [of "set_state n s a" a] by (simp_all add: dirty_def)

lemma addWork_same [simp]:
  "nodes (addWork k a) = nodes a" "heap (addWork k a) = heap a"
  "constraints (addWork k a) = constraints a"
  "rep (addWork k a) = rep a" "valid (addWork k a) = valid a"
  "tagged_type (addWork k a) = tagged_type a" "satisfies C (addWork k a) P c = satisfies C a P c"
  "pts_at (addWork k a) = pts_at a" "prev_at (addWork k a) = prev_at a"
  "copy_at (addWork k a) = copy_at a"
  using same_nodes [of "addWork k a" a]
  by (simp_all add: addWork_def pts_at_def prev_at_def copy_at_def fun_eq_iff)

lemma within_set_state:
  assumes "within_solution C P a" and "state_ok C (set_state n s a) P (solve_ptr n)"
  shows "within_solution C P (set_state n s a)"
  using assms by (auto simp: within_solution_def state_ok_def pts_at_def prev_at_def copy_at_def)

lemma within_addWork:
  assumes "within_solution C P a" and "valid a k"
  shows "within_solution C P (addWork k a) \<and> dirty (addWork k a) = insert (rep a k) (dirty a)"
proof -
  have w: "wf_ns (work a)" using assms(1) by (rule within_wf)
  have "state_ok C (addWork k a) P s = state_ok C a P s" for s
    by (simp add: state_ok_def)
  then have "within_solution C P (addWork k a)"
    using assms by (simp add: within_solution_def) (simp add: addWork_def ns_simps w)
  moreover have "nset (work (addWork k a)) = insert k (nset (work a))"
    by (simp add: addWork_def ns_simps w)
  ultimately show ?thesis by (simp add: dirty_def)
qed

section \<open>Growth\<close>

text \<open>
  The labels of a state that count as processed when \<open>D\<close> are the states with pending work, and the
  relation between the state before and after a part of the solver: labels and edges are added,
  states that gain labels become pending, and new edges have carried the processed labels.
\<close>

definition processed :: "nat set \<Rightarrow> analysis \<Rightarrow> nat \<Rightarrow> nodeid set" where
  "processed D a s = (if s \<in> D then prev_at a s else pts_at a s)"

definition grows :: "nat set \<Rightarrow> analysis \<Rightarrow> nat set \<Rightarrow> analysis \<Rightarrow> bool" where
  "grows D a D' a' \<longleftrightarrow> nodes a' = nodes a \<and> constraints a' = constraints a \<and> D \<subseteq> D' \<and>
     (\<forall>s. prev_at a' s = prev_at a s \<and> complex (heap a' s) = complex (heap a s) \<and>
        pts_at a s \<subseteq> pts_at a' s \<and> copy_at a s \<subseteq> copy_at a' s \<and>
        (s \<notin> D' \<longrightarrow> pts_at a' s = pts_at a s) \<and>
        (\<forall>d \<in> copy_at a' s - copy_at a s. processed D' a' s \<subseteq> pts_at a' (rep a d)))"

lemma grows_refl: "grows D a D a"
  by (simp add: grows_def)

lemma processed_mono:
  "within_solution C P a \<Longrightarrow> processed D a s \<subseteq> pts_at a s"
  by (auto simp: processed_def within_solution_def state_ok_def)

lemma grows_processed:
  assumes "grows D a D' a'" and "within_solution C P a"
  shows "processed D' a' s \<subseteq> processed D a s"
  using assms by (auto simp: grows_def processed_def within_solution_def state_ok_def)

lemma growth_trans:
  assumes 1: "grows D a D1 a1" and 2: "grows D1 a1 D2 a2" and w: "within_solution C P a1"
  shows "grows D a D2 a2"
  unfolding grows_def
proof (intro conjI allI ballI)
  show "nodes a2 = nodes a" "constraints a2 = constraints a" "D \<subseteq> D2"
    using 1 2 by (simp_all add: grows_def) blast
  fix s
  from 1 have s1: "prev_at a1 s = prev_at a s" "complex (heap a1 s) = complex (heap a s)"
    "pts_at a s \<subseteq> pts_at a1 s" "copy_at a s \<subseteq> copy_at a1 s" "s \<notin> D1 \<longrightarrow> pts_at a1 s = pts_at a s"
    by (simp_all add: grows_def)
  from 2 have s2: "prev_at a2 s = prev_at a1 s" "complex (heap a2 s) = complex (heap a1 s)"
    "pts_at a1 s \<subseteq> pts_at a2 s" "copy_at a1 s \<subseteq> copy_at a2 s" "s \<notin> D2 \<longrightarrow> pts_at a2 s = pts_at a1 s"
    "D1 \<subseteq> D2" by (simp_all add: grows_def)
  show "prev_at a2 s = prev_at a s" "complex (heap a2 s) = complex (heap a s)"
    using s1 s2 by simp_all
  show "pts_at a s \<subseteq> pts_at a2 s" "copy_at a s \<subseteq> copy_at a2 s" using s1 s2 by blast+
  show "s \<notin> D2 \<longrightarrow> pts_at a2 s = pts_at a s" using s1(5) s2(5,6) by blast
  fix d assume d: "d \<in> copy_at a2 s - copy_at a s"
  show "processed D2 a2 s \<subseteq> pts_at a2 (rep a d)"
  proof (cases "d \<in> copy_at a1 s")
    case True
    with d 1 have "processed D1 a1 s \<subseteq> pts_at a1 (rep a d)" by (simp add: grows_def)
    moreover have "processed D2 a2 s \<subseteq> processed D1 a1 s" by (rule grows_processed [OF 2 w])
    moreover have "pts_at a1 (rep a d) \<subseteq> pts_at a2 (rep a d)" using 2 by (simp add: grows_def)
    ultimately show ?thesis by blast
  next
    case False
    with d 2 have "processed D2 a2 s \<subseteq> pts_at a2 (rep a1 d)" by (simp add: grows_def)
    moreover have "rep a1 = rep a" using 1 same_nodes(1) [of a1 a] by (simp add: grows_def)
    ultimately show ?thesis by simp
  qed
qed

lemma grows_more: "grows D a D' a' \<Longrightarrow> D' \<subseteq> D'' \<Longrightarrow> within_solution C P a' \<Longrightarrow> grows D a D'' a'"
  by (rule growth_trans [where ?D1.0 = D' and ?a1.0 = a']) (auto simp: grows_def)

end
