(* ===== verification/PtrPermute.thy ===== *)
theory PtrPermute
  imports PtrRenumber PtrInv
begin

text \<open>
  Blocks of nodes and the permutation that renumbering computes: the order in which the two passes
  visit the nodes is a permutation of the ids, and the arrays they fill are that permutation and its
  inverse.
\<close>

section \<open>Object blocks\<close>

fun object_blocks :: "pnode list \<Rightarrow> bool" where
  "object_blocks [] = True"
| "object_blocks (n # ns) = (case node_obj n of
       None \<Rightarrow> object_blocks ns
     | Some ob \<Rightarrow> (let sz = unat (obj_size ob) in
         1 \<le> sz \<and> sz \<le> Suc (length ns) \<and> list_all (\<lambda>m. node_obj m = None) (take (sz - 1) ns) \<and>
         object_blocks (drop (sz - 1) ns)))"

text \<open>The ids of the nodes inside and outside objects, for a suffix of the nodes that starts at \<open>i\<close>.\<close>

function object_ids :: "pnode list \<Rightarrow> nat \<Rightarrow> nat list" where
  "object_ids [] i = []"
| "object_ids (n # ns) i = (case node_obj n of
       None \<Rightarrow> object_ids ns (i + 1)
     | Some ob \<Rightarrow> [i..<i + unat (obj_size ob)] @
         object_ids (drop (unat (obj_size ob) - 1) ns) (i + unat (obj_size ob)))"
  by pat_completeness auto
termination by (relation "measure (length \<circ> fst)") auto

function value_ids :: "pnode list \<Rightarrow> nat \<Rightarrow> nat list" where
  "value_ids [] i = []"
| "value_ids (n # ns) i = (case node_obj n of
       None \<Rightarrow> i # value_ids ns (i + 1)
     | Some ob \<Rightarrow> value_ids (drop (unat (obj_size ob) - 1) ns) (i + unat (obj_size ob)))"
  by pat_completeness auto
termination by (relation "measure (length \<circ> fst)") auto

lemma ids_mset:
  "object_blocks ns \<Longrightarrow> mset (object_ids ns i) + mset (value_ids ns i) = mset [i..<i + length ns]"
proof (induction ns i rule: object_ids.induct)
  case (2 n ns i)
  show ?case
  proof (cases "node_obj n")
    case None
    with 2 show ?thesis by (simp add: upt_conv_Cons del: upt_Suc)
  next
    case (Some ob)
    let ?s = "unat (obj_size ob)"
    from 2(3) Some have s: "1 \<le> ?s" "?s \<le> Suc (length ns)" "object_blocks (drop (?s - 1) ns)"
      by (simp_all add: Let_def)
    then have "i + length (n # ns) = i + ?s + length (drop (?s - 1) ns)" by simp
    then have "[i..<i + length (n # ns)] = [i..<i + ?s] @ [i + ?s..<i + ?s + length (drop (?s - 1) ns)]"
      by (metis le_add1 upt_add_eq_append)
    with Some 2(2) [OF Some s(3)] show ?thesis by simp
  qed
qed simp

lemma ids_bounds:
  assumes "object_blocks ns"
  shows "set (object_ids ns i) \<union> set (value_ids ns i) = {i..<i + length ns}"
    "distinct (object_ids ns i @ value_ids ns i)"
    "length (object_ids ns i) + length (value_ids ns i) = length ns"
proof -
  have m: "mset (object_ids ns i @ value_ids ns i) = mset [i..<i + length ns]"
    using ids_mset [OF assms] by simp
  from mset_eq_setD [OF m] show "set (object_ids ns i) \<union> set (value_ids ns i) = {i..<i + length ns}" by simp
  from m show "distinct (object_ids ns i @ value_ids ns i)" by (metis distinct_upt mset_eq_imp_distinct_iff)
  from mset_eq_length [OF m] show "length (object_ids ns i) + length (value_ids ns i) = length ns" by simp
qed

section \<open>Placing nodes\<close>

text \<open>What placing the nodes \<open>ids\<close> one after another does to the arrays.\<close>

definition put :: "analysis \<Rightarrow> nat \<Rightarrow> nat \<times> pnode option list \<times> nodeid list \<Rightarrow>
    nat \<times> pnode option list \<times> nodeid list" where
  "put a i = (\<lambda>(j, nn, r). (j + 1, nn[j := Some (nodes a ! i)], r[i := of_nat j]))"

text \<open>The placed ids \<open>ids\<close> fill the new positions from \<open>j\<close>.\<close>

definition placed :: "analysis \<Rightarrow> nat list \<Rightarrow> nat \<Rightarrow> pnode option list \<Rightarrow> nodeid list \<Rightarrow> bool" where
  "placed a ids j nn r \<longleftrightarrow> (\<forall>p < length ids. nn ! (j + p) = Some (nodes a ! (ids ! p)) \<and> r ! (ids ! p) = of_nat (j + p))"

lemma fold_put:
  assumes "distinct ids" and "\<forall>i \<in> set ids. i < length r" and "j + length ids \<le> length nn"
    and "fold (put a) ids (j, nn, r) = (j', nn', r')"
  shows "j' = j + length ids \<and> length nn' = length nn \<and> length r' = length r \<and>
    (\<forall>q < j. nn' ! q = nn ! q) \<and> (\<forall>i. i \<notin> set ids \<longrightarrow> r' ! i = r ! i) \<and> placed a ids j nn' r'"
  using assms
proof (induction ids arbitrary: j nn r)
  case (Cons i ids)
  let ?nn = "nn[j := Some (nodes a ! i)]" and ?r = "r[i := of_nat j]"
  have "put a i (j, nn, r) = (j + 1, ?nn, ?r)" by (simp add: put_def)
  with Cons.prems(4) have "fold (put a) ids (j + 1, ?nn, ?r) = (j', nn', r')" by simp
  with Cons.prems(1-3) Cons.IH [of ?r "j + 1" ?nn] have ih:
    "j' = j + 1 + length ids" "length nn' = length nn" "length r' = length r"
    "\<forall>q < j + 1. nn' ! q = ?nn ! q" "\<forall>k. k \<notin> set ids \<longrightarrow> r' ! k = ?r ! k" "placed a ids (j + 1) nn' r'"
    by simp_all
  have "placed a (i # ids) j nn' r'"
    unfolding placed_def
  proof (intro allI impI)
    fix p assume p: "p < length (i # ids)"
    show "nn' ! (j + p) = Some (nodes a ! ((i # ids) ! p)) \<and> r' ! ((i # ids) ! p) = of_nat (j + p)"
    proof (cases p)
      case 0
      with ih(4,5) Cons.prems(1-3) show ?thesis by simp
    next
      case (Suc k)
      with ih(6) p show ?thesis by (simp add: placed_def)
    qed
  qed
  with ih Cons.prems(1) show ?case by auto
qed (simp add: placed_def)

lemma unat_of_nat_len: "n < 2 ^ 32 \<Longrightarrow> unat (of_nat n :: nodeid) = n"
  by (simp add: unat_of_nat)

lemma word_le: "n < 2 ^ 32 \<Longrightarrow> m \<le> n \<Longrightarrow> (of_nat m < (of_nat n :: nodeid)) = (m < n)"
  by (simp add: word_less_nat_alt unat_of_nat_len)

text \<open>Within the arrays, one placement is \<open>put\<close>.\<close>

definition fits :: "analysis \<Rightarrow> nat \<Rightarrow> nat \<times> pnode option list \<times> nodeid list \<Rightarrow> bool" where
  "fits a k s \<longleftrightarrow> (case s of (j, nn, r) \<Rightarrow> length (nodes a) < 2 ^ 32 \<and>
     length nn = length (nodes a) \<and> length r = length (nodes a) \<and> j + k \<le> length (nodes a))"

definition as_words :: "nat \<Rightarrow> nat \<times> pnode option list \<times> nodeid list \<Rightarrow> numbering" where
  "as_words i s = (case s of (j, nn, r) \<Rightarrow> (of_nat i, of_nat j, nn, r))"

lemma fits_put: "fits a (Suc k) s \<Longrightarrow> fits a k (put a i s)"
  by (auto simp: fits_def put_def split: prod.splits)

lemma fits_fold: "fits a (length is + k) s \<Longrightarrow> fits a k (fold (put a) is s)"
  by (induction "is" arbitrary: s) (simp_all add: fits_put)

lemma place_node_put:
  assumes "fits a (Suc k) s" and "i < length (nodes a)"
  shows "place_node a (as_words i s) = Ok (as_words (Suc i) (put a i s))"
proof -
  obtain j nn r where s: "s = (j, nn, r)" by (cases s)
  with assms have "j < length (nodes a)" "length (nodes a) < 2 ^ 32" "length nn = length (nodes a)"
    "length r = length (nodes a)" by (auto simp: fits_def)
  moreover from this assms(2) have w: "unat (of_nat i :: nodeid) = i" "unat (of_nat j :: nodeid) = j"
    by (simp_all add: unat_of_nat_len)
  moreover from w have "uint (of_nat i :: nodeid) = int i" "uint (of_nat j :: nodeid) = int j"
    by (metis uint_nat)+
  ultimately have "node_ref a (of_nat i) = Ok (nodes a ! i)"
    "slice_set nn (uint (of_nat j :: nodeid)) (Some (nodes a ! i)) = Ok (nn[j := Some (nodes a ! i)])"
    "slice_set r (uint (of_nat i :: nodeid)) (of_nat j) = Ok (r[i := of_nat j])"
    using assms(2) by (simp_all only: node_ref_eq valid_def slice_set_def in_range_def) simp_all
  then show ?thesis unfolding s as_words_def put_def place_node_def by (simp add: add.commute)
qed

lemma place_block_put:
  assumes "fits a (m + k) s" and "i + m \<le> length (nodes a)" and "m < fuel"
  shows "place_block fuel a (of_nat (i + m)) (as_words i s) = Ok (as_words (i + m) (fold (put a) [i..<i + m] s))"
  using assms
proof (induction m arbitrary: i s fuel)
  case 0
  then obtain f where "fuel = Suc f" by (cases fuel) auto
  then show ?case by (simp add: as_words_def split: prod.splits)
next
  case (Suc m)
  then obtain f where f: "fuel = Suc f" "m < f" by (cases fuel) auto
  have n: "length (nodes a) < 2 ^ 32" using Suc.prems(1) by (auto simp: fits_def split: prod.splits)
  have "fst (as_words i s) < of_nat (i + Suc m)"
    using word_le [of "i + Suc m" i] n Suc.prems(2) by (simp add: as_words_def split: prod.splits)
  moreover have "place_node a (as_words i s) = Ok (as_words (Suc i) (put a i s))"
    using Suc.prems by (intro place_node_put) auto
  moreover have "place_block f a (of_nat (Suc i + m)) (as_words (Suc i) (put a i s)) =
      Ok (as_words (Suc i + m) (fold (put a) [Suc i..<Suc i + m] (put a i s)))"
    using Suc.prems f(2) by (intro Suc.IH) (auto intro: fits_put)
  ultimately show ?case using f(1) by (simp add: upt_conv_Cons del: upt_Suc)
qed

section \<open>The passes\<close>

lemma blocks_step:
  assumes "object_blocks (n # ns)" and "node_obj n = Some ob"
  shows "1 \<le> unat (obj_size ob)" "unat (obj_size ob) \<le> Suc (length ns)"
    "object_blocks (drop (unat (obj_size ob) - 1) ns)"
  using assms by (simp_all add: Let_def)

lemma drop_block:
  assumes "1 \<le> s" and "drop i xs = n # ns"
  shows "drop (s - 1) ns = drop (i + s) xs"
proof -
  have "drop (i + s) xs = drop s (drop i xs)" by (simp add: add.commute)
  also have "\<dots> = drop (s - 1) ns" using assms by (cases s) simp_all
  finally show ?thesis ..
qed

lemma drop_next: "drop i xs = n # ns \<Longrightarrow> ns = drop (i + 1) xs \<and> i < length xs \<and> xs ! i = n"
  by (metis Cons_nth_drop_Suc Suc_eq_plus1 drop_all leI list.discI list.inject)

lemma node_at:
  assumes "length (nodes a) < 2 ^ 32" and "i < length (nodes a)"
  shows "node_ref a (of_nat i) = Ok (nodes a ! i)" "(of_nat i :: nodeid) < of_nat (length (nodes a))"
  using assms by (simp_all add: node_ref_eq valid_def unat_of_nat_len word_le)

lemma object_pass_put:
  assumes "ns = drop i (nodes a)" and "object_blocks ns" and "fits a (length (object_ids ns i) + k) s"
    and "length ns < fuel" and "i \<le> length (nodes a)"
  shows "object_pass fuel a (of_nat (length (nodes a))) (as_words i s) =
    Ok (as_words (length (nodes a)) (fold (put a) (object_ids ns i) s))"
  using assms
proof (induction ns i arbitrary: s fuel rule: object_ids.induct)
  case (1 i)
  then have "i = length (nodes a)" by simp
  with 1 show ?case by (cases fuel) (auto simp: as_words_def split: prod.splits)
next
  case (2 n ns i)
  obtain f where f: "fuel = Suc f" "length ns < f" using 2(6) by (cases fuel) auto
  have len: "length (nodes a) < 2 ^ 32" using 2(5) by (auto simp: fits_def split: prod.splits)
  note dr = 2(3) [symmetric]
  from drop_next [OF dr] have ns: "ns = drop (i + 1) (nodes a)" "i < length (nodes a)" "nodes a ! i = n"
    by blast+
  note nd = node_at [OF len ns(2)]
  obtain w where w: "as_words i s = (of_nat i, w)" "\<And>m. as_words m s = (of_nat m, w)"
    by (cases s) (simp add: as_words_def)
  show ?case
  proof (cases "node_obj n")
    case None
    have "object_pass f a (of_nat (length (nodes a))) (as_words (i + 1) s) =
        Ok (as_words (length (nodes a)) (fold (put a) (object_ids ns (i + 1)) s))"
      using 2(1) [OF None ns(1)] 2(4-6) None f ns(2) by (simp add: fits_def)
    with None f nd ns(3) show ?thesis by (simp add: w add.commute)
  next
    case (Some ob)
    let ?s = "unat (obj_size ob)" and ?t = "drop (unat (obj_size ob) - 1) ns"
    from blocks_step [OF 2(4) Some] have b: "1 \<le> ?s" "?s \<le> Suc (length ns)" "object_blocks ?t" .
    have t: "?t = drop (i + ?s) (nodes a)" by (rule drop_block [OF b(1) dr])
    have le: "i + ?s \<le> length (nodes a)" using b(2) ns by simp
    have fit: "fits a (?s + (length (object_ids ?t (i + ?s)) + k)) s" using 2(5) Some by (simp add: ac_simps)
    have p: "place_block (Suc ?s) a (of_nat (i + ?s)) (as_words i s) =
        Ok (as_words (i + ?s) (fold (put a) [i..<i + ?s] s))"
      using fit le by (rule place_block_put) simp
    have "object_pass f a (of_nat (length (nodes a))) (as_words (i + ?s) (fold (put a) [i..<i + ?s] s)) =
        Ok (as_words (length (nodes a)) (fold (put a) (object_ids ?t (i + ?s)) (fold (put a) [i..<i + ?s] s)))"
      using b(1,3) f(2) le fit by (intro 2(2) [OF Some t]) (auto intro!: fits_fold)
    with p show ?thesis using Some f nd ns(3) by (simp add: w)
  qed
qed

lemma value_pass_put:
  assumes "ns = drop i (nodes a)" and "object_blocks ns" and "fits a (length (value_ids ns i) + k) s"
    and "length ns < fuel" and "i \<le> length (nodes a)"
  shows "value_pass fuel a (of_nat (length (nodes a))) (as_words i s) =
    Ok (as_words (length (nodes a)) (fold (put a) (value_ids ns i) s))"
  using assms
proof (induction ns i arbitrary: s fuel rule: value_ids.induct)
  case (1 i)
  then have "i = length (nodes a)" by simp
  with 1 show ?case by (cases fuel) (auto simp: as_words_def split: prod.splits)
next
  case (2 n ns i)
  obtain f where f: "fuel = Suc f" "length ns < f" using 2(6) by (cases fuel) auto
  have len: "length (nodes a) < 2 ^ 32" using 2(5) by (auto simp: fits_def split: prod.splits)
  note dr = 2(3) [symmetric]
  from drop_next [OF dr] have ns: "ns = drop (i + 1) (nodes a)" "i < length (nodes a)" "nodes a ! i = n"
    by blast+
  note nd = node_at [OF len ns(2)]
  obtain w where w: "as_words i s = (of_nat i, w)" "\<And>m. as_words m s = (of_nat m, w)"
    by (cases s) (simp add: as_words_def)
  show ?case
  proof (cases "node_obj n")
    case None
    have fit: "fits a (Suc (length (value_ids ns (i + 1)) + k)) s" using 2(5) None by simp
    have p: "place_node a (as_words i s) = Ok (as_words (Suc i) (put a i s))"
      using place_node_put [OF fit ns(2)] .
    have "value_pass f a (of_nat (length (nodes a))) (as_words (i + 1) (put a i s)) =
        Ok (as_words (length (nodes a)) (fold (put a) (value_ids ns (i + 1)) (put a i s)))"
      using 2(4) None f(2) ns(2) fits_put [OF fit] by (intro 2(1) [OF None ns(1)]) auto
    with p show ?thesis using None f nd ns(3) by (simp add: w)
  next
    case (Some ob)
    let ?s = "unat (obj_size ob)" and ?t = "drop (unat (obj_size ob) - 1) ns"
    from blocks_step [OF 2(4) Some] have b: "1 \<le> ?s" "?s \<le> Suc (length ns)" "object_blocks ?t" .
    have t: "?t = drop (i + ?s) (nodes a)" by (rule drop_block [OF b(1) dr])
    have "value_pass f a (of_nat (length (nodes a))) (as_words (i + ?s) s) =
        Ok (as_words (length (nodes a)) (fold (put a) (value_ids ?t (i + ?s)) s))"
      using 2(5) Some b f(2) ns by (intro 2(2) [OF Some t]) auto
    then show ?thesis using Some f nd ns(3) by (simp add: w)
  qed
qed

section \<open>The permutation\<close>

definition id_order :: "analysis \<Rightarrow> nat list" where
  "id_order a = 0 # object_ids (tl (nodes a)) 1 @ value_ids (tl (nodes a)) 1"

lemma id_order_perm:
  assumes "nodes a \<noteq> []" and "object_blocks (tl (nodes a))"
  shows "distinct (id_order a)" "set (id_order a) = {0..<length (nodes a)}"
    "length (id_order a) = length (nodes a)"
proof -
  note b = ids_bounds [OF assms(2), of 1]
  have l: "1 + length (tl (nodes a)) = length (nodes a)" using assms(1) by (cases "nodes a") auto
  have "0 \<notin> set (object_ids (tl (nodes a)) 1) \<union> set (value_ids (tl (nodes a)) 1)" using b(1) by simp
  with b(2) show "distinct (id_order a)" by (auto simp: id_order_def)
  have "set (id_order a) = insert 0 {1..<length (nodes a)}" using b(1) l by (auto simp: id_order_def)
  also have "\<dots> = {0..<length (nodes a)}" using assms(1) by (auto simp: Suc_le_eq)
  finally show "set (id_order a) = {0..<length (nodes a)}" .
  show "length (id_order a) = length (nodes a)" using b(3) l by (simp add: id_order_def)
qed

lemma permute_nodes_spec:
  assumes "nodes a \<noteq> []" and "object_blocks (tl (nodes a))" and "length (nodes a) < 2 ^ 32"
    and "length (nodes a) < fuel"
  shows "\<exists>nn r. permute_nodes fuel a = Ok (nn, r) \<and> length nn = length (nodes a) \<and>
    length r = length (nodes a) \<and> placed a (id_order a) 0 nn r"
proof -
  let ?n = "length (nodes a)" and ?os = "object_ids (tl (nodes a)) 1" and ?vs = "value_ids (tl (nodes a)) 1"
  let ?s = "(0, replicate ?n None, replicate ?n 0) :: nat \<times> pnode option list \<times> nodeid list"
  have l: "Suc (length ?os + length ?vs) = ?n" using id_order_perm(3) [OF assms(1,2)] by (simp add: id_order_def)
  have u: "unat (nextNode a) = ?n" using assms(3) by (simp add: nextNode_def unat_of_nat_len)
  have fit: "fits a (Suc (length ?os + length ?vs)) ?s" using assms(3) l by (simp add: fits_def)
  have t: "tl (nodes a) = drop 1 (nodes a)" by (simp add: drop_Suc)
  have n1: "1 \<le> ?n" "length (tl (nodes a)) < fuel" using assms(1,4) by (cases "nodes a"; simp)+
  let ?p = "put a 0 ?s"
  have p0: "place_node a (as_words 0 ?s) = Ok (as_words 1 ?p)"
    using place_node_put [OF fit, of 0] assms(1) by simp
  have p1: "object_pass fuel a (of_nat ?n) (as_words 1 ?p) = Ok (as_words ?n (fold (put a) ?os ?p))"
    using fits_put [OF fit] n1 by (intro object_pass_put [OF t assms(2)]) auto
  have p2: "value_pass fuel a (of_nat ?n) (as_words 1 (fold (put a) ?os ?p)) =
      Ok (as_words ?n (fold (put a) ?vs (fold (put a) ?os ?p)))"
    using fits_fold [of a ?os "length ?vs" ?p] fits_put [OF fit] n1
    by (intro value_pass_put [OF t assms(2), where k = 0]) auto
  have f: "fold (put a) ?vs (fold (put a) ?os ?p) = fold (put a) (id_order a) ?s" by (simp add: id_order_def)
  obtain j nn r where e: "fold (put a) (id_order a) ?s = (j, nn, r)" by (metis prod_cases3)
  from fold_put [OF id_order_perm(1) [OF assms(1,2)] _ _ e] id_order_perm(2,3) [OF assms(1,2)]
  have res: "j = ?n" "length nn = ?n" "length r = ?n" "placed a (id_order a) 0 nn r" by auto
  obtain s1 where s1: "\<And>m. as_words m (fold (put a) ?os ?p) = (of_nat m, s1)"
    by (cases "fold (put a) ?os ?p") (simp add: as_words_def)
  obtain s0 where s0: "as_words 1 ?p = (1, s0)" by (cases ?p) (simp add: as_words_def)
  have z: "as_words 0 ?s = (0, 0, replicate ?n None, replicate ?n 0)" by (simp add: as_words_def)
  have e2: "as_words ?n (fold (put a) ?vs (fold (put a) ?os ?p)) = (of_nat ?n, of_nat ?n, nn, r)"
    unfolding f e as_words_def using res(1) by simp
  have N: "nextNode a = of_nat ?n" by (simp add: nextNode_def)
  note U = u [unfolded N]
  have "permute_nodes fuel a = Ok (nn, r)"
    using p0 p1 p2 unfolding permute_nodes_def Let_def N U z s0 s1 e2 by simp
  with res show ?thesis by blast
qed

section \<open>Neighbours\<close>

text \<open>The nodes of an object after its first have no object of their own.\<close>

lemma block_interior:
  assumes "object_blocks ns" and "h < length ns" and "node_obj (ns ! h) = Some ob"
    and "h < m" and "m < h + unat (obj_size ob)"
  shows "m < length ns \<and> node_obj (ns ! m) = None"
  using assms
proof (induction ns arbitrary: h m rule: object_blocks.induct)
  case (2 n ns)
  show ?case
  proof (cases h)
    case 0
    with 2 have "unat (obj_size ob) \<le> Suc (length ns)"
      "list_all (\<lambda>m. node_obj m = None) (take (unat (obj_size ob) - 1) ns)" by (simp_all add: Let_def)
    with 0 2(6,7) show ?thesis by (cases m) (auto simp: list_all_length)
  next
    case (Suc h')
    obtain m' where m: "m = Suc m'" using 2(6) by (cases m) auto
    show ?thesis
    proof (cases "node_obj n")
      case None
      then show ?thesis using 2(1) [OF None, of h' m'] 2(3-7) Suc m by simp
    next
      case (Some oa)
      let ?s = "unat (obj_size oa) - 1"
      have b: "1 \<le> unat (obj_size oa)" "?s \<le> length ns" "list_all (\<lambda>m. node_obj m = None) (take ?s ns)"
        "object_blocks (drop ?s ns)" using 2(3) Some by (auto simp: Let_def)
      have "?s \<le> h'"
      proof (rule ccontr)
        assume "\<not> ?s \<le> h'"
        with b(2,3) have "node_obj (ns ! h') = None" by (simp add: list_all_length)
        with 2(5) Suc show False by simp
      qed
      moreover have "m' - ?s < length (drop ?s ns) \<and> node_obj (drop ?s ns ! (m' - ?s)) = None"
        if "?s \<le> h'" using that 2(4-7) Suc m b(2,4) by (intro 2(2) [OF Some refl, of "h' - ?s"]) auto
      ultimately show ?thesis using m 2(6) Suc b(2) by auto
    qed
  qed
qed simp

text \<open>Two neighbours of the same kind stay neighbours unless the second starts an object.\<close>

lemma ids_start:
  assumes "object_blocks ns" and "ns \<noteq> []" and "node_obj (hd ns) = None"
  shows "i \<notin> set (object_ids ns i)" "\<exists>ys. value_ids ns i = i # ys"
proof -
  obtain n t where ns: "ns = n # t" using assms(2) by (cases ns) auto
  with assms have "object_blocks t" by simp
  from ids_bounds(1) [OF this, of "i + 1"] have "i \<notin> set (object_ids t (i + 1))"
    by (metis UnI1 add.right_neutral add_le_cancel_left atLeastLessThan_iff not_one_le_zero)
  with assms(3) ns show "i \<notin> set (object_ids ns i)" "\<exists>ys. value_ids ns i = i # ys" by auto
qed

lemma neighbours_append: "\<exists>xs ys. l = xs @ i # j # ys \<Longrightarrow> \<exists>xs ys. p @ l = xs @ i # j # ys"
  by (metis append.assoc)

lemma object_neighbours:
  assumes "object_blocks ns" and "i \<le> k" and "Suc k < i + length ns" and "node_obj (ns ! (Suc k - i)) = None"
    and "k \<in> set (object_ids ns i)" and "Suc k \<in> set (object_ids ns i)"
  shows "\<exists>xs ys. object_ids ns i = xs @ k # Suc k # ys"
  using assms
proof (induction ns i rule: object_ids.induct)
  case (2 n ns i)
  show ?case
  proof (cases "node_obj n")
    case None
    with 2(3) have b: "object_blocks ns" by simp
    from ids_bounds(1) [OF b, of "i + 1"] 2(7) None have "i + 1 \<le> k" by auto
    with 2(1) [OF None b] 2(5-8) None show ?thesis by (auto simp: Suc_diff_le nth_Cons')
  next
    case (Some ob)
    let ?s = "unat (obj_size ob)" and ?t = "drop (unat (obj_size ob) - 1) ns"
    from blocks_step [OF 2(3) Some] have b: "1 \<le> ?s" "?s \<le> Suc (length ns)" "object_blocks ?t" .
    note bt = ids_bounds(1) [OF b(3), of "i + ?s"]
    consider "Suc k < i + ?s" | "Suc k = i + ?s" | "i + ?s \<le> k" by linarith
    then show ?thesis
    proof cases
      case 1
      then have "[i..<i + ?s] = [i..<k] @ k # Suc k # [Suc (Suc k)..<i + ?s]"
        using 2(4) by (metis Suc_lessD le_add_diff_inverse upt_add_eq_append upt_conv_Cons less_imp_le_nat)
      with Some show ?thesis 
        by (intro exI [of _ "[i..<k]"] exI [of _ "[Suc (Suc k)..<i + ?s] @ object_ids ?t (i + ?s)"]) simp
    next
      case 2
      have "?t \<noteq> []" using b 2 \<open>Suc k < i + length (n # ns)\<close> by simp
      moreover have "ns ! (?s - 1) = (n # ns) ! (Suc k - i)" using 2 b(1) by (simp add: nth_Cons')
      then have "node_obj (hd ?t) = None" using \<open>?t \<noteq> []\<close> \<open>node_obj ((n # ns) ! (Suc k - i)) = None\<close>
        by (simp add: hd_drop_conv_nth)
      ultimately have "i + ?s \<notin> set (object_ids ?t (i + ?s))" by (rule ids_start(1) [OF b(3)])
      with 2 Some \<open>Suc k \<in> set (object_ids (n # ns) i)\<close> show ?thesis by simp
    next
      case 3
      have "?t ! (Suc k - (i + ?s)) = (n # ns) ! (Suc k - i)" using 3 b by (simp add: nth_Cons')
      with 2(2) [OF Some b(3) 3] 2(5-8) Some 3 b
      have "\<exists>xs ys. object_ids ?t (i + ?s) = xs @ k # Suc k # ys" by auto
      from neighbours_append [OF this] Some show ?thesis by simp
    qed
  qed
qed simp

lemma value_neighbours:
  assumes "object_blocks ns" and "i \<le> k" and "Suc k < i + length ns" and "node_obj (ns ! (Suc k - i)) = None"
    and "k \<in> set (value_ids ns i)" and "Suc k \<in> set (value_ids ns i)"
  shows "\<exists>xs ys. value_ids ns i = xs @ k # Suc k # ys"
  using assms
proof (induction ns i rule: value_ids.induct)
  case (2 n ns i)
  show ?case
  proof (cases "node_obj n")
    case None
    with 2(3) have b: "object_blocks ns" by simp
    show ?thesis
    proof (cases "k = i")
      case True
      with 2(5,6) have "ns \<noteq> []" "node_obj (hd ns) = None" by (cases ns; simp)+
      from ids_start(2) [OF b this, of "i + 1"] obtain ys where "value_ids ns (i + 1) = (i + 1) # ys" ..
      with True None show ?thesis by (intro exI [of _ "[]"] exI [of _ ys]) simp
    next
      case False
      then have "i + 1 \<le> k" using 2(4) by simp
      with 2(1) [OF None b] 2(5-8) None False have "\<exists>xs ys. value_ids ns (i + 1) = xs @ k # Suc k # ys"
        by (auto simp: Suc_diff_le nth_Cons')
      from neighbours_append [OF this, of "[i]"] None show ?thesis by simp
    qed
  next
    case (Some ob)
    let ?s = "unat (obj_size ob)" and ?t = "drop (unat (obj_size ob) - 1) ns"
    from blocks_step [OF 2(3) Some] have b: "1 \<le> ?s" "?s \<le> Suc (length ns)" "object_blocks ?t" .
    from ids_bounds(1) [OF b(3), of "i + ?s"] 2(7) Some have 3: "i + ?s \<le> k" by auto
    have "?t ! (Suc k - (i + ?s)) = (n # ns) ! (Suc k - i)" using 3 b by (simp add: nth_Cons')
    with 2(2) [OF Some b(3) 3] 2(5-8) Some 3 b show ?thesis by auto
  qed
qed simp

end
