(* ===== verification/PtrRenumProps.thy ===== *)
theory PtrRenumProps
  imports PtrPermute
begin

text \<open>
  What renumbering keeps: every id the analysis holds is replaced by the new id of the same node, and
  the solutions of the renamed constraints are the renamed solutions of the constraints.
\<close>

section \<open>The permutation of node ids\<close>

definition ren :: "nodeid list \<Rightarrow> nodeid \<Rightarrow> nodeid" where
  "ren r k = r ! unat k"

definition in_object :: "analysis \<Rightarrow> nat \<Rightarrow> bool" where
  "in_object a i \<longleftrightarrow> i \<in> set (object_ids (tl (nodes a)) 1)"

text \<open>The \<open>off\<close> nodes after node \<open>k\<close> belong to its object, or, like \<open>k\<close>, to none.\<close>

definition same_block :: "analysis \<Rightarrow> nodeid \<Rightarrow> 32 word \<Rightarrow> bool" where
  "same_block a k off \<longleftrightarrow> valid a k \<and> (off = 0 \<or> 0 < unat k \<and> unat k + unat off < length (nodes a) \<and>
     (\<forall>m \<in> {unat k<..unat k + unat off}. node_obj (nodes a ! m) = None \<and> in_object a m = in_object a (unat k)))"

definition permutes :: "analysis \<Rightarrow> pnode list \<Rightarrow> nodeid list \<Rightarrow> bool" where
  "permutes a nn r \<longleftrightarrow> length nn = length (nodes a) \<and> length r = length (nodes a) \<and> distinct r \<and> ren r 0 = 0 \<and>
     (\<forall>k. valid a k \<longrightarrow> unat (ren r k) < length (nodes a) \<and> nn ! unat (ren r k) = nodes a ! unat k) \<and>
     (\<forall>k off. same_block a k off \<longrightarrow> ren r (k + off) = ren r k + off) \<and>
     (\<forall>k l. valid a k \<and> valid a l \<and> in_object a (unat k) \<and> \<not> in_object a (unat l) \<and> l \<noteq> 0 \<longrightarrow> ren r k < ren r l)"

text \<open>What the two passes leave: the arrays hold the order of the ids and its inverse.\<close>

definition placement :: "analysis \<Rightarrow> pnode option list \<Rightarrow> nodeid list \<Rightarrow> bool" where
  "placement a nn r \<longleftrightarrow> nodes a \<noteq> [] \<and> object_blocks (tl (nodes a)) \<and> length (nodes a) < 2 ^ 32 \<and>
     length nn = length (nodes a) \<and> length r = length (nodes a) \<and> placed a (id_order a) 0 nn r"

lemma placementD:
  assumes "placement a nn r"
  shows "nodes a \<noteq> []" "object_blocks (tl (nodes a))" "length (nodes a) < 2 ^ 32"
    "length nn = length (nodes a)" "length r = length (nodes a)" "placed a (id_order a) 0 nn r"
    "distinct (id_order a)" "set (id_order a) = {0..<length (nodes a)}" "length (id_order a) = length (nodes a)"
  using assms id_order_perm [of a] by (simp_all add: placement_def)

lemma position:
  assumes pl: "placement a nn r" and "i < length (nodes a)"
  obtains p where "p < length (nodes a)" "id_order a ! p = i" "r ! i = of_nat p" "nn ! p = Some (nodes a ! i)"
proof -
  note d = placementD [OF pl]
  from assms(2) d(8,9) obtain p where "p < length (nodes a)" "id_order a ! p = i"
    by (metis atLeastLessThan_iff in_set_conv_nth le0)
  with that d(6,9) show ?thesis by (auto simp: placed_def)
qed

lemma at_position:
  "placement a nn r \<Longrightarrow> p < length (nodes a) \<Longrightarrow> r ! (id_order a ! p) = of_nat p"
  using placementD(6,9) [of a nn r] by (simp add: placed_def)

lemma distinct_new:
  assumes pl: "placement a nn r"
  shows "distinct r"
proof (unfold distinct_conv_nth, intro allI impI)
  fix i j assume ij: "i < length r" "j < length r" "i \<noteq> j"
  obtain p q where "p < length (nodes a)" "id_order a ! p = i" "r ! i = of_nat p"
    "q < length (nodes a)" "id_order a ! q = j" "r ! j = of_nat q" using position [OF pl] ij(1,2) placementD(5) [OF pl] by metis
  with ij(3) placementD(3) [OF pl] show "r ! i \<noteq> r ! j" by (metis of_nat_eq_iff unat_of_nat_len less_trans)
qed

lemma neighbours:
  assumes pl: "placement a nn r" and "0 < i" and "Suc i < length (nodes a)" and "node_obj (nodes a ! Suc i) = None"
    and "in_object a i = in_object a (Suc i)"
  shows "r ! Suc i = r ! i + 1"
proof -
  note blocks = placementD(2) [OF pl]
  let ?t = "tl (nodes a)"
  have b: "Suc i < 1 + length ?t" "1 \<le> i" "node_obj (?t ! (Suc i - 1)) = None"
    using assms by (simp_all add: nth_tl)
  from ids_bounds(1) [OF blocks, of 1] b have s:
    "i \<in> set (object_ids ?t 1) \<union> set (value_ids ?t 1)" "Suc i \<in> set (object_ids ?t 1) \<union> set (value_ids ?t 1)" by auto
  have "\<exists>xs ys. object_ids ?t 1 = xs @ i # Suc i # ys \<or> value_ids ?t 1 = xs @ i # Suc i # ys"
  proof (cases "in_object a i")
    case True
    with assms(5) object_neighbours [OF blocks b(2,1,3)] show ?thesis by (auto simp: in_object_def)
  next
    case False
    with assms(5) s have "i \<in> set (value_ids ?t 1)" "Suc i \<in> set (value_ids ?t 1)" by (auto simp: in_object_def)
    from value_neighbours [OF blocks b(2,1,3) this] show ?thesis by blast
  qed
  then obtain xs ys where "id_order a = xs @ i # Suc i # ys"
    unfolding id_order_def by (metis append.assoc append_Cons)
  then have "id_order a ! length xs = i" "id_order a ! Suc (length xs) = Suc i"
    "Suc (length xs) < length (nodes a)" using placementD(9) [OF pl] by (simp_all add: nth_append)
  then show ?thesis using at_position [OF pl, of "length xs"] at_position [OF pl, of "Suc (length xs)"] by simp
qed

lemma block_shift:
  assumes pl: "placement a nn r" and "0 < i" and "i + m < length (nodes a)"
    and "\<forall>k \<in> {i<..i + m}. node_obj (nodes a ! k) = None \<and> in_object a k = in_object a i"
  shows "r ! (i + m) = r ! i + of_nat m"
  using assms(2-)
proof (induction m)
  case (Suc m)
  have "in_object a (i + m) = in_object a i" using Suc.prems(3) by (cases m) auto
  then have "r ! Suc (i + m) = r ! (i + m) + 1"
    using Suc.prems by (intro neighbours [OF pl]) auto
  with Suc show ?case by simp
qed simp

lemma objects_first:
  assumes pl: "placement a nn r" and "in_object a i" and "\<not> in_object a j" and "j \<noteq> 0" and "j < length (nodes a)"
  shows "r ! i < r ! j"
proof -
  note blocks = placementD(2) [OF pl] and order = placementD(9) [OF pl] and small = placementD(3) [OF pl]
  let ?o = "object_ids (tl (nodes a)) 1" and ?v = "value_ids (tl (nodes a)) 1"
  from assms(2) obtain p where p: "p < length ?o" "?o ! p = i" by (auto simp: in_object_def in_set_conv_nth)
  from ids_bounds(1) [OF blocks, of 1] assms(3-5) have "j \<in> set ?v" by (auto simp: in_object_def)
  then obtain q where q: "q < length ?v" "?v ! q = j" by (auto simp: in_set_conv_nth)
  have o: "id_order a ! (Suc p) = i" "id_order a ! (Suc (length ?o + q)) = j"
    using p q by (simp_all add: id_order_def nth_append)
  have "Suc (length ?o + q) < length (nodes a)" using q(1) order by (simp add: id_order_def)
  with p o small show ?thesis
    using at_position [OF pl, of "Suc p"] at_position [OF pl, of "Suc (length ?o + q)"] by (simp add: word_le del: of_nat_Suc)
qed

lemma permuted:
  assumes pl: "placement a nn r"
  shows "permutes a (map the nn) r"
  unfolding permutes_def
proof (intro conjI allI impI)
  have "id_order a ! 0 = 0" by (simp add: id_order_def)
  then show "ren r 0 = 0" using at_position [OF pl, of 0] placementD(1) [OF pl] by (simp add: ren_def)
next
  fix k assume "valid a k"
  then obtain p where p: "p < length (nodes a)" "r ! unat k = of_nat p" "nn ! p = Some (nodes a ! unat k)"
    using position [OF pl] by (metis valid_def)
  then have u: "unat (ren r k) = p" using placementD(3) [OF pl] by (simp add: ren_def unat_of_nat_len)
  show "unat (ren r k) < length (nodes a)" using u p(1) by simp
  show "map the nn ! unat (ren r k) = nodes a ! unat k" using u p placementD(4) [OF pl] by simp
next
  fix k off assume s: "same_block a k off"
  show "ren r (k + off) = ren r k + off"
  proof (cases "off = 0")
    case False
    with s have b: "0 < unat k" "unat k + unat off < length (nodes a)"
      "\<forall>m \<in> {unat k<..unat k + unat off}. node_obj (nodes a ! m) = None \<and> in_object a m = in_object a (unat k)"
      by (simp_all add: same_block_def)
    then have "unat (k + off) = unat k + unat off" using placementD(3) [OF pl] by (intro unat_add_lem [THEN iffD1]) simp
    with block_shift [OF pl b] show ?thesis by (simp add: ren_def)
  qed simp
next
  fix k l assume "valid a k \<and> valid a l \<and> in_object a (unat k) \<and> \<not> in_object a (unat l) \<and> l \<noteq> 0"
  then show "ren r k < ren r l" unfolding ren_def
    by (intro objects_first [OF pl]) (auto simp: valid_def unat_eq_0)
qed (simp_all add: placementD(4,5) [OF pl] distinct_new [OF pl])

lemma permute_nodes_permutes:
  assumes "nodes a \<noteq> []" and "object_blocks (tl (nodes a))" and "length (nodes a) < 2 ^ 32"
    and "length (nodes a) < fuel"
  shows "\<exists>nn r. permute_nodes fuel a = Ok (nn, r) \<and> permutes a (map the nn) r"
proof -
  from permute_nodes_spec [OF assms] obtain nn r where
    p: "permute_nodes fuel a = Ok (nn, r)" "length nn = length (nodes a)" "length r = length (nodes a)"
      "placed a (id_order a) 0 nn r" by blast
  then have "placement a nn r" using assms by (simp add: placement_def)
  from permuted [OF this] p(1) show ?thesis by blast
qed

section \<open>Renamed constraints\<close>

fun ren_constr :: "nodeid list \<Rightarrow> constr \<Rightarrow> constr" where
  "ren_constr r (AddrConstraint dst src) = AddrConstraint (ren r dst) (ren r src)"
| "ren_constr r (CopyConstraint dst src) = CopyConstraint (ren r dst) (ren r src)"
| "ren_constr r (LoadConstraint off dst src) = LoadConstraint off (ren r dst) (ren r src)"
| "ren_constr r (StoreConstraint off dst src) = StoreConstraint off (ren r dst) (ren r src)"
| "ren_constr r (OffsetAddrConstraint off dst src) = OffsetAddrConstraint off (ren r dst) (ren r src)"
| "ren_constr r (TypeFilterConstraint typ dst src) = TypeFilterConstraint typ (ren r dst) (ren r src)"
| "ren_constr r (UntagConstraint typ dst src exact) = UntagConstraint typ (ren r dst) (ren r src) exact"

fun constr_ids :: "constr \<Rightarrow> nodeid list" where
  "constr_ids (AddrConstraint dst src) = [dst, src]"
| "constr_ids (CopyConstraint dst src) = [dst, src]"
| "constr_ids (LoadConstraint off dst src) = [dst, src]"
| "constr_ids (StoreConstraint off dst src) = [dst, src]"
| "constr_ids (OffsetAddrConstraint off dst src) = [dst, src]"
| "constr_ids (TypeFilterConstraint typ dst src) = [dst, src]"
| "constr_ids (UntagConstraint typ dst src exact) = [dst, src]"

text \<open>The accesses of a constraint stay in the block of the node they start from.\<close>

fun in_blocks :: "config \<Rightarrow> analysis \<Rightarrow> (nat \<Rightarrow> nodeid set) \<Rightarrow> constr \<Rightarrow> bool" where
  "in_blocks C a P (LoadConstraint off dst src) \<longleftrightarrow> (\<forall>k \<in> P (rep a src). same_block a k off)"
| "in_blocks C a P (StoreConstraint off dst src) \<longleftrightarrow> (\<forall>k \<in> P (rep a dst). same_block a k off)"
| "in_blocks C a P (OffsetAddrConstraint off dst src) \<longleftrightarrow> (\<forall>k \<in> P (rep a src). same_block a k off)"
| "in_blocks C a P (UntagConstraint typ dst src exact) \<longleftrightarrow> (\<forall>k \<in> P (rep a src). \<forall>tDyn v sz.
     tagged_type a k = Ok (tDyn, v) \<and> untag_applies C exact tDyn typ \<and> sizeof (reflect_Value C) tDyn = Ok sz \<longrightarrow>
     (\<forall>i < unat sz. same_block a k (1 + of_nat i) \<and> same_block a dst (of_nat i)))"
| "in_blocks C a P c \<longleftrightarrow> True"

lemma valid_same_block: "same_block a k off \<Longrightarrow> length (nodes a) < 2 ^ 32 \<Longrightarrow> valid a k \<and> valid a (k + off)"
proof (cases "off = 0")
  case False
  assume "same_block a k off" "length (nodes a) < 2 ^ 32"
  with False have "valid a k" "unat k + unat off < length (nodes a)" by (simp_all add: same_block_def)
  moreover from this have "unat (k + off) = unat k + unat off"
    using \<open>length (nodes a) < 2 ^ 32\<close> by (intro unat_add_lem [THEN iffD1]) simp
  ultimately show ?thesis by (simp add: valid_def)
qed (simp add: same_block_def)

lemma permutesD:
  assumes "permutes a nn r" and "nodes a' = nn"
  shows "valid a k \<Longrightarrow> valid a' (ren r k)" "valid a k \<Longrightarrow> nodes a' ! unat (ren r k) = nodes a ! unat k"
    "valid a k \<Longrightarrow> rep a' (ren r k) = rep a k" "same_block a k off \<Longrightarrow> ren r (k + off) = ren r k + off"
proof -
  show v: "valid a k \<Longrightarrow> valid a' (ren r k)" "valid a k \<Longrightarrow> nodes a' ! unat (ren r k) = nodes a ! unat k"
    "same_block a k off \<Longrightarrow> ren r (k + off) = ren r k + off"
    using assms by (simp_all add: permutes_def valid_def)
  then show "valid a k \<Longrightarrow> rep a' (ren r k) = rep a k" by (simp add: rep_def)
qed

lemma permutes_inj: "permutes a nn r \<Longrightarrow> valid a k \<Longrightarrow> valid a l \<Longrightarrow> ren r k = ren r l \<longleftrightarrow> k = l"
  using nth_eq_iff_index_eq [of r "unat k" "unat l"] unsigned_word_eqI [of k l]
  by (auto simp add: permutes_def ren_def valid_def)

lemma tagged_type_ren:
  assumes "permutes a nn r" and "nodes a' = nn" and "valid a k"
  shows "tagged_type a' (ren r k) = bindR (tagged_type a k) (\<lambda>(t, v). Ok (t, ren r k + 1))"
  using permutesD(1,2) [OF assms(1,2) assms(3)] assms(3)
  by (simp add: tagged_type_def taggedValue_def node_ref_valid deref_def split: option.split)

lemma tagged_type_next: "tagged_type a k = Ok (t, v) \<Longrightarrow> v = k + 1 \<and> valid a k"
  by (auto simp: tagged_type_def taggedValue_def node_ref_eq split: if_splits)

lemma satisfies_ren:
  assumes "permutes a nn r" and "nodes a' = nn" and "length (nodes a) < 2 ^ 32"
    and P: "\<forall>s. \<forall>k \<in> P s. valid a k" and ids: "\<forall>k \<in> set (constr_ids c). valid a k" and b: "in_blocks C a P c"
  shows "satisfies C a' (\<lambda>s. ren r ` P s) (ren_constr r c) = satisfies C a P c"
proof -
  note D = permutesD [OF assms(1,2)]
  have mem: "ren r k \<in> ren r ` P s \<longleftrightarrow> k \<in> P s" if "valid a k" for k s
    using permutes_inj [OF assms(1)] P that by (auto simp: image_iff)
  have sub: "ren r ` P s \<subseteq> ren r ` P t \<longleftrightarrow> P s \<subseteq> P t" for s t
  proof (intro iffI)
    assume s: "ren r ` P s \<subseteq> ren r ` P t"
    show "P s \<subseteq> P t"
    proof
      fix k assume "k \<in> P s"
      then have "ren r k \<in> ren r ` P t" "valid a k" using s P by auto
      then show "k \<in> P t" by (simp add: mem)
    qed
  qed (rule image_mono)
  have off: "valid a (k + o') \<and> valid a' (ren r (k + o')) \<and> rep a' (ren r (k + o')) = rep a (k + o') \<and>
      ren r k + o' = ren r (k + o')"
    if "same_block a k o'" for k o'
    using valid_same_block [OF that assms(3)] D(1,3) [of "k + o'"] D(4) [OF that] by simp
  show ?thesis
  proof (cases c)
    case (LoadConstraint o' dst src)
    with ids b show ?thesis by (simp add: D(1,3) off sub cong: ball_cong)
  next
    case (StoreConstraint o' dst src)
    with ids b show ?thesis by (simp add: D(1,3) off sub cong: ball_cong)
  next
    case (OffsetAddrConstraint o' dst src)
    with ids b show ?thesis by (simp add: D(1,3) off mem cong: ball_cong)
  next
    case (TypeFilterConstraint T dst src)
    have "tagged_type a' (ren r k) = bindR (tagged_type a k) (\<lambda>(t, v). Ok (t, ren r k + 1))" if "k \<in> P s" for k s
      using tagged_type_ren [OF assms(1,2)] P that by blast
    moreover have "ren r k \<in> ren r ` P s \<longleftrightarrow> k \<in> P s" if "k \<in> P t" for k s t
      using mem P that by blast
    ultimately show ?thesis using ids TypeFilterConstraint
      by (simp add: D(1,3) bindR_Ok_iff split_beta cong: ball_cong)
  next
    case (UntagConstraint T dst src exact)
    let ?F = "\<lambda>a P d k. \<exists>tDyn v. tagged_type a k = Ok (tDyn, v) \<and> (untag_applies C exact tDyn T \<longrightarrow>
      (\<exists>sz. sizeof (reflect_Value C) tDyn = Ok sz \<and> (\<forall>i < unat sz. valid a (v + of_nat i) \<and>
         valid a (d + of_nat i) \<and> P (rep a (v + of_nat i)) \<subseteq> P (rep a (d + of_nat i)))))"
    have "?F a' (\<lambda>s. ren r ` P s) (ren r dst) (ren r k) = ?F a P dst k" if k: "k \<in> P (rep a src)" for k
    proof (cases "tagged_type a k")
      case (Ok tv)
      then obtain tDyn where t: "tagged_type a k = Ok (tDyn, k + 1)"
        using tagged_type_next by (metis surj_pair)
      have t': "tagged_type a' (ren r k) = Ok (tDyn, ren r k + 1)"
        using tagged_type_ren [OF assms(1,2)] P k t by simp
      show ?thesis
      proof (cases "untag_applies C exact tDyn T \<and> is_ok (sizeof (reflect_Value C) tDyn)")
        case True
        then obtain sz where sz: "sizeof (reflect_Value C) tDyn = Ok sz" by (auto simp: is_ok_iff)
        with b k t True UntagConstraint have
          "\<forall>i < unat sz. same_block a k (1 + of_nat i) \<and> same_block a dst (of_nat i)" by auto
        then show ?thesis using sz True off by (simp add: t t' sub add.assoc cong: imp_cong)
      qed (auto simp: t t')
    qed (use tagged_type_ren [OF assms(1,2)] P k in auto)
    then show ?thesis using ids UntagConstraint by (simp add: D(1,3) cong: ball_cong)
  qed (use ids D in \<open>simp_all add: sub mem\<close>)
qed

section \<open>Renamed tables\<close>

lemma new_id_ren: "permutes a nn r \<Longrightarrow> valid a k \<Longrightarrow> new_id r k = Ok (ren r k)"
proof -
  assume "permutes a nn r" "valid a k"
  then have "unat k < length r" by (simp add: permutes_def valid_def)
  moreover from this have "uint k < int (length r)" by (metis of_nat_less_iff uint_nat)
  ultimately show ?thesis by (simp add: new_id_def slice_get_def in_range_def ren_def)
qed

lemma mapR_Ok: "\<forall>x \<in> set xs. f x = Ok (g x) \<Longrightarrow> mapR f xs = Ok (map g xs)"
  by (induction xs) simp_all

text \<open>Every id of the tables is the id of a node, and no two entries of the lists of call sites are one.\<close>

definition node_sites :: "pcgnode \<Rightarrow> nat list" where
  "node_sites n = cg_sites n @ concat (actualCallerSite n)"

definition table_ids :: "node_tables \<Rightarrow> nodeid set" where
  "table_ids g = snd ` set (globalobj g) \<union> snd ` set (globalval g) \<union>
     (\<Union>n \<in> set (pcgnodes g). {cg_obj n} \<union> snd ` set (localval n) \<union> snd ` set (localobj n) \<union>
        site_targets g ` set (node_sites n)) \<union>
     fst ` set (closureWOGo g) \<union> snd ` set (closureWOGo g) \<union>
     (\<Union>(f, m) \<in> set (closures g). \<Union>(s, ks) \<in> set m. set ks)"

definition ids_ok :: "analysis \<Rightarrow> node_tables \<Rightarrow> bool" where
  "ids_ok a g \<longleftrightarrow> (\<forall>k \<in> table_ids g. valid a k) \<and>
     (\<forall>c \<in> set (constraints a). \<forall>k \<in> set (constr_ids c). valid a k) \<and>
     distinct (concat (map node_sites (pcgnodes g))) \<and> wf_map (closureWOGo g)"

definition ren_node :: "nodeid list \<Rightarrow> pcgnode \<Rightarrow> pcgnode" where
  "ren_node r n = n\<lparr>cg_obj := ren r (cg_obj n), localval := map (map_prod (\<lambda>v. v) (ren r)) (localval n),
     localobj := map (map_prod (\<lambda>v. v) (ren r)) (localobj n)\<rparr>"

definition ren_tables :: "nodeid list \<Rightarrow> node_tables \<Rightarrow> node_tables" where
  "ren_tables r g =
     \<lparr>globalobj = map (map_prod (\<lambda>v. v) (ren r)) (globalobj g),
      globalval = map (map_prod (\<lambda>v. v) (ren r)) (globalval g),
      pcgnodes = map (ren_node r) (pcgnodes g),
      site_targets = (\<lambda>s. if s \<in> set (concat (map node_sites (pcgnodes g)))
         then ren r (site_targets g s) else site_targets g s),
      closureWOGo = map (map_prod (ren r) (ren r)) (closureWOGo g),
      closures = map (map_prod (\<lambda>f. f) (map (map_prod (\<lambda>s. s) (map (ren r))))) (closures g)\<rparr>"

lemma rename_values_ren:
  assumes "\<forall>(k, v) \<in> set m. f v = Ok (g v)"
  shows "rename_values f m = Ok (map (map_prod (\<lambda>k. k) g) m)"
proof -
  have "mapR (\<lambda>(k, v). bindR (f v) (\<lambda>v. Ok (k, v))) m = Ok (map (map_prod (\<lambda>k. k) g) m)"
    using assms by (intro mapR_Ok) auto
  then show ?thesis by (simp add: rename_values_def)
qed

lemma rename_constr_ren:
  "permutes a nn r \<Longrightarrow> \<forall>k \<in> set (constr_ids c). valid a k \<Longrightarrow> rename_constr r c = Ok (ren_constr r c)"
  by (cases c) (simp_all add: new_id_ren)

text \<open>A run over call sites renames each of them once.\<close>

definition ren_sites :: "nodeid list \<Rightarrow> nat list \<Rightarrow> (nat \<Rightarrow> nodeid) \<Rightarrow> nat \<Rightarrow> nodeid" where
  "ren_sites r ss t = (\<lambda>s. if s \<in> set ss then ren r (t s) else t s)"

lemma ren_sites_append:
  "distinct (xs @ ys) \<Longrightarrow> ren_sites r ys (ren_sites r xs t) = ren_sites r (xs @ ys) t"
  by (auto simp: ren_sites_def fun_eq_iff)

lemma rename_sites_ren:
  assumes "permutes a nn r" and "distinct ss" and "\<forall>s \<in> set ss. valid a (t s)"
  shows "loopR (rename_site r) ss t = Ok (ren_sites r ss t)"
  using assms(2,3)
proof (induction ss arbitrary: t)
  case (Cons s ss)
  have "rename_site r s t = Ok (ren_sites r [s] t)"
    using Cons.prems new_id_ren [OF assms(1)] by (auto simp: rename_site_def ren_sites_def fun_eq_iff)
  moreover have "loopR (rename_site r) ss (ren_sites r [s] t) = Ok (ren_sites r ss (ren_sites r [s] t))"
    using Cons.prems by (intro Cons.IH) (auto simp: ren_sites_def)
  ultimately show ?case using ren_sites_append [of "[s]" ss] Cons.prems(1) by simp
qed (simp add: ren_sites_def)

lemma rename_site_lists_ren:
  assumes "permutes a nn r" and "distinct (concat sss)" and "\<forall>s \<in> set (concat sss). valid a (t s)"
  shows "loopR (\<lambda>ss. loopR (rename_site r) ss) sss t = Ok (ren_sites r (concat sss) t)"
  using assms(2,3)
proof (induction sss arbitrary: t)
  case (Cons ss sss)
  have d: "distinct (ss @ concat sss)" using Cons.prems(1) by simp
  have "loopR (rename_site r) ss t = Ok (ren_sites r ss t)"
    using Cons.prems by (intro rename_sites_ren [OF assms(1)]) auto
  moreover have "loopR (\<lambda>ss. loopR (rename_site r) ss) sss (ren_sites r ss t) =
      Ok (ren_sites r (concat sss) (ren_sites r ss t))"
    using Cons.prems d by (intro Cons.IH) (auto simp: ren_sites_def)
  ultimately show ?case using ren_sites_append [OF d] by simp
qed (simp add: ren_sites_def)

lemma rename_cgnodes_ren:
  assumes "permutes a nn r" and "distinct (concat (map node_sites ns))"
    and "\<forall>n \<in> set ns. \<forall>k \<in> {cg_obj n} \<union> snd ` set (localval n) \<union> snd ` set (localobj n) \<union> t ` set (node_sites n). valid a k"
  shows "rename_cgnodes r ns t = Ok (map (ren_node r) ns, ren_sites r (concat (map node_sites ns)) t)"
  using assms(2,3)
proof (induction ns arbitrary: t)
  case (Cons n ns)
  let ?s = "node_sites n" and ?rest = "concat (map node_sites ns)"
  have d: "distinct (?s @ ?rest)" using Cons.prems(1) by simp
  have v: "valid a (cg_obj n)" "\<forall>(x, k) \<in> set (localval n). valid a k" "\<forall>(x, k) \<in> set (localobj n). valid a k"
    "\<forall>s \<in> set ?s. valid a (t s)"
    using Cons.prems(2) [THEN bspec, of n] by (auto simp: ball_Un)
  have "rename_values (new_id r) (localval n) = Ok (map (map_prod (\<lambda>k. k) (ren r)) (localval n))"
    "rename_values (new_id r) (localobj n) = Ok (map (map_prod (\<lambda>k. k) (ren r)) (localobj n))"
    using v(2,3) new_id_ren [OF assms(1)] by (intro rename_values_ren; fastforce)+
  moreover have "loopR (rename_site r) (cg_sites n) t = Ok (ren_sites r (cg_sites n) t)"
    using d v(4) by (intro rename_sites_ren [OF assms(1)]) (auto simp: node_sites_def)
  moreover have "loopR (\<lambda>ss. loopR (rename_site r) ss) (actualCallerSite n) (ren_sites r (cg_sites n) t) =
      Ok (ren_sites r (concat (actualCallerSite n)) (ren_sites r (cg_sites n) t))"
    using d v(4) by (intro rename_site_lists_ren [OF assms(1)]) (auto simp: node_sites_def ren_sites_def)
  moreover have "ren_sites r (concat (actualCallerSite n)) (ren_sites r (cg_sites n) t) = ren_sites r ?s t"
    using ren_sites_append [of "cg_sites n" "concat (actualCallerSite n)" r t] d
    by (metis distinct_append node_sites_def)
  ultimately have "rename_cgnode r n t = Ok (ren_node r n, ren_sites r ?s t)"
    using new_id_ren [OF assms(1) v(1)] by (simp add: rename_cgnode_def rename_locals_def ren_node_def)
  moreover have "rename_cgnodes r ns (ren_sites r ?s t) = Ok (map (ren_node r) ns, ren_sites r ?rest (ren_sites r ?s t))"
  proof (intro Cons.IH ballI)
    fix m k assume m: "m \<in> set ns"
      "k \<in> {cg_obj m} \<union> snd ` set (localval m) \<union> snd ` set (localobj m) \<union> ren_sites r ?s t ` set (node_sites m)"
    have "ren_sites r ?s t ` set (node_sites m) = t ` set (node_sites m)"
      using d m(1) by (intro image_cong) (auto simp: ren_sites_def)
    with m bspec [OF Cons.prems(2), of m] show "valid a k" by (auto simp: ball_Un)
  qed (use d in auto)
  ultimately show ?case using ren_sites_append [OF d] by simp
qed (simp add: ren_sites_def)

lemma rename_keys_ren:
  assumes "permutes a nn r" and "wf_map m" and "\<forall>(k, v) \<in> set m. valid a k \<and> valid a v"
  shows "rename_keys r m = Ok (map (map_prod (ren r) (ren r)) m)"
proof -
  have "loopR (\<lambda>(key, val) tmp. bindR (new_id r key) (\<lambda>k. bindR (new_id r val) (\<lambda>v. Ok (mput k v tmp)))) xs ys =
      Ok (ys @ map (map_prod (ren r) (ren r)) xs)"
    if "wf_map xs" "\<forall>(k, v) \<in> set xs. valid a k \<and> valid a v" "\<forall>(k, v) \<in> set xs. ren r k \<notin> fst ` set ys"
    for xs ys
    using that
  proof (induction xs arbitrary: ys)
    case (Cons kv xs)
    obtain k v where kv: "kv = (k, v)" by fastforce
    have n: "ren r k \<notin> fst ` set ys" "valid a k" "valid a v" using Cons.prems kv by auto
    have u: "mput (ren r k) (ren r v) ys = ys @ [(ren r k, ren r v)]" using n(1) by (induction ys) auto
    have "ren r k' \<noteq> ren r k" if "(k', v') \<in> set xs" for k' v'
    proof
      assume "ren r k' = ren r k"
      moreover have "valid a k'" using Cons.prems(2) that by auto
      ultimately have "k' = k"
        using permutes_inj [OF assms(1)] n(2) by blast
      with that Cons.prems(1) kv show False by (auto simp: wf_map_def image_iff)
    qed
    then have "\<forall>(k', v') \<in> set xs. ren r k' \<notin> fst ` set (ys @ [(ren r k, ren r v)])"
      using Cons.prems(3) by auto
    moreover have "wf_map xs" "\<forall>(k, v) \<in> set xs. valid a k \<and> valid a v"
      using Cons.prems(1,2) by (simp_all add: wf_map_def)
    ultimately have "loopR (\<lambda>(key, val) tmp. bindR (new_id r key) (\<lambda>k. bindR (new_id r val) (\<lambda>v. Ok (mput k v tmp))))
        xs (ys @ [(ren r k, ren r v)]) = Ok ((ys @ [(ren r k, ren r v)]) @ map (map_prod (ren r) (ren r)) xs)"
      by (rule Cons.IH [rotated 2])
    then show ?case using n u by (simp add: kv new_id_ren [OF assms(1)])
  qed simp
  from this [of m "[]"] assms(2,3) show ?thesis by (simp add: rename_keys_def)
qed

section \<open>The whole renumbering\<close>

lemma rename_closures_ren:
  assumes "permutes a nn r" and "\<forall>(f, m) \<in> set cls. \<forall>(s, ks) \<in> set m. \<forall>k \<in> set ks. valid a k"
  shows "rename_values (rename_ctx r) cls =
    Ok (map (map_prod (\<lambda>f. f) (map (map_prod (\<lambda>s. s) (map (ren r))))) cls)"
proof (rule rename_values_ren, safe)
  fix f m assume f: "(f, m) \<in> set cls"
  have "mapR (new_id r) ks = Ok (map (ren r) ks)" if "(s, ks) \<in> set m" for s ks
    using assms(2) f that new_id_ren [OF assms(1)] by (intro mapR_Ok) fastforce
  then show "rename_ctx r m = Ok (map (map_prod (\<lambda>s. s) (map (ren r))) m)"
    unfolding rename_ctx_def by (intro rename_values_ren) auto
qed

lemma renumber_ren:
  assumes "nodes a \<noteq> []" and "object_blocks (tl (nodes a))" and "length (nodes a) < 2 ^ 32"
    and "length (nodes a) < fuel" and "ids_ok a g"
  shows "\<exists>nn r. permutes a nn r \<and>
    renumber fuel a g = Ok (a\<lparr>nodes := nn, constraints := map (ren_constr r) (constraints a)\<rparr>, ren_tables r g)"
proof -
  from permute_nodes_permutes [OF assms(1-4)] obtain nn r where
    p: "permute_nodes fuel a = Ok (nn, r)" "permutes a (map the nn) r" by blast
  note P = p(2)
  have t: "\<And>k. k \<in> table_ids g \<Longrightarrow> valid a k" using assms(5) by (simp add: ids_ok_def)
  have "rename_values (new_id r) m = Ok (map (map_prod (\<lambda>v. v) (ren r)) m)"
    if "snd ` set m \<subseteq> table_ids g" for m :: "(nat, nodeid) gomap"
    using that t new_id_ren [OF P] by (intro rename_values_ren) fastforce
  then have 1: "rename_values (new_id r) (globalobj g) = Ok (map (map_prod (\<lambda>v. v) (ren r)) (globalobj g))"
    "rename_values (new_id r) (globalval g) = Ok (map (map_prod (\<lambda>v. v) (ren r)) (globalval g))"
    by (auto simp: table_ids_def)
  have 2: "mapR (rename_constr r) (constraints a) = Ok (map (ren_constr r) (constraints a))"
    using assms(5) rename_constr_ren [OF P] by (intro mapR_Ok) (auto simp: ids_ok_def)
  have 3: "rename_cgnodes r (pcgnodes g) (site_targets g) =
      Ok (map (ren_node r) (pcgnodes g), ren_sites r (concat (map node_sites (pcgnodes g))) (site_targets g))"
    using assms(5) by (intro rename_cgnodes_ren [OF P] ballI t) (auto simp: ids_ok_def table_ids_def)
  have 4: "rename_keys r (closureWOGo g) = Ok (map (map_prod (ren r) (ren r)) (closureWOGo g))"
    using assms(5) t by (intro rename_keys_ren [OF P]) (force simp: ids_ok_def table_ids_def)+
  have 5: "rename_values (rename_ctx r) (closures g) =
      Ok (map (map_prod (\<lambda>f. f) (map (map_prod (\<lambda>s. s) (map (ren r))))) (closures g))"
    using t by (intro rename_closures_ren [OF P]) (fastforce simp: table_ids_def)
  have "renumber fuel a g =
      Ok (a\<lparr>nodes := map the nn, constraints := map (ren_constr r) (constraints a)\<rparr>, ren_tables r g)"
    unfolding renumber_def p(1) by (simp add: 1 2 3 4 5 ren_tables_def ren_sites_def)
  with P show ?thesis by blast
qed

end
