(* ===== verification/PtrSteps.thy ===== *)
theory PtrSteps
  imports PtrInv
begin

text \<open>
  Every operation of the solver, run on a state below a solution, completes, stays below it, only
  grows, and has the effect its constraint asks for.
\<close>

section \<open>Labels and copies\<close>

lemma copy_at_set [simp]: "copy_at (set_state n s a) i = (if i = solve_ptr n then nset (copyTo s) else copy_at a i)"
  and pts_at_set [simp]: "pts_at (set_state n s a) i = (if i = solve_ptr n then nset (pts s) else pts_at a i)"
  and prev_at_set [simp]: "prev_at (set_state n s a) i = (if i = solve_ptr n then nset (prevPTS s) else prev_at a i)"
  by (simp_all add: copy_at_def pts_at_def prev_at_def)

lemma state_ok_at:
  assumes "within_solution C P a"
  shows "state_ok C a P s"
  using assms by (simp add: within_solution_def)

text \<open>Adding labels to the points-to set of a node.\<close>

lemma add_labels:
  assumes W: "within_solution C P a" and n: "solve_ptr n = i"
    and ps: "wf_ns ps" "nset ps = pts_at a i \<union> L" "L \<subseteq> P i"
  defines "a' \<equiv> set_state n ((state_of a n)\<lparr>pts := ps\<rparr>) a"
  shows "within_solution C P a'" and "grows D a (D \<union> (if L \<subseteq> pts_at a i then {} else {i})) a'"
    and "L \<subseteq> pts_at a' i" and "dirty a' = dirty a" and "copy_at a' = copy_at a"
proof -
  have h: "heap a' i = (heap a i)\<lparr>pts := ps\<rparr>" "\<And>s. s \<noteq> i \<Longrightarrow> heap a' s = heap a s"
    by (simp_all add: a'_def n state_of_def)
  have sets: "pts_at a' i = pts_at a i \<union> L" "\<And>s. s \<noteq> i \<Longrightarrow> pts_at a' s = pts_at a s"
    "prev_at a' = prev_at a" "copy_at a' = copy_at a"
    using h ps(2) n by (auto simp: pts_at_def prev_at_def copy_at_def fun_eq_iff a'_def state_of_def)
  have same: "rep a' = rep a" "valid a' = valid a" "satisfies C a' P = satisfies C a P"
    by (simp_all add: a'_def fun_eq_iff)
  have "state_ok C a' P i"
    using state_ok_at [OF W, of i] ps unfolding state_ok_def sets same h by auto
  then show "within_solution C P a'"
    unfolding a'_def using n by (intro within_set_state [OF W]) simp
  show "grows D a (D \<union> (if L \<subseteq> pts_at a i then {} else {i})) a'"
    unfolding grows_def
  proof (intro conjI allI impI ballI)
    show "nodes a' = nodes a" "constraints a' = constraints a" by (simp_all add: a'_def)
    fix s
    show "prev_at a' s = prev_at a s" "copy_at a s \<subseteq> copy_at a' s" by (simp_all add: sets)
    show "complex (heap a' s) = complex (heap a s)" using h by (cases "s = i") simp_all
    show "pts_at a s \<subseteq> pts_at a' s" using sets by (cases "s = i") auto
    show "pts_at a' s = pts_at a s" if "s \<notin> D \<union> (if L \<subseteq> pts_at a i then {} else {i})"
      using that sets(1,2) by (cases "s = i") (auto split: if_splits)
  qed (auto simp: sets)
  show "L \<subseteq> pts_at a' i" using sets(1) by blast
  show "dirty a' = dirty a" by (simp add: a'_def)
  show "copy_at a' = copy_at a" by (rule sets)
qed

lemma addLabel_spec:
  assumes W: "within_solution C P a" and "valid a ptr" and "label \<in> P (rep a ptr)"
  shows "\<exists>b a'. addLabel ptr label a = Ok (b, a') \<and> within_solution C P a' \<and> dirty a' = dirty a \<and>
    grows D a (D \<union> (if b then {rep a ptr} else {})) a' \<and> label \<in> pts_at a' (rep a ptr)"
proof -
  let ?n = "nodes a ! unat ptr"
  let ?s = "heap a (rep a ptr)"
  have n: "node_ref a ptr = Ok ?n" "solve_ptr ?n = rep a ptr" "state_of a ?n = ?s"
    using assms(2) by (simp_all add: node_ref_valid rep_def state_of_def)
  obtain b ps where ps: "nodeset_add (pts ?s) label = (b, ps)" by fastforce
  have "wf_ns (pts ?s)" using W by (rule within_wf)
  from nodeset_add_spec [OF this ps]
  have q: "wf_ns ps" "nset ps = pts_at a (rep a ptr) \<union> {label}" "b \<longleftrightarrow> \<not> {label} \<subseteq> pts_at a (rep a ptr)"
    by (simp_all add: pts_at_def)
  define a' where "a' = set_state ?n ((state_of a ?n)\<lparr>pts := ps\<rparr>) a"
  from assms(3) have "{label} \<subseteq> P (rep a ptr)" by simp
  note r = add_labels [OF W n(2) q(1,2) this, folded a'_def]
  have "addLabel ptr label a = Ok (b, a')" using n ps by (simp add: addLabel_def a'_def)
  moreover have "grows D a (D \<union> (if b then {rep a ptr} else {})) a'"
    using r(2) [of D] q(3) by (cases b) simp_all
  ultimately show ?thesis using r(1,3,4) by blast
qed

lemma addAll_to_spec:
  assumes W: "within_solution C P a" and n: "solve_ptr n = i" and y: "wf_ns y" "nset y \<subseteq> P i"
  shows "\<exists>b a'. addAll_to n y a = (b, a') \<and> within_solution C P a' \<and> dirty a' = dirty a \<and>
    grows D a (D \<union> (if b then {i} else {})) a' \<and> nset y \<subseteq> pts_at a' i \<and> copy_at a' = copy_at a"
proof -
  let ?s = "heap a i"
  have s: "state_of a n = ?s" by (simp add: state_of_def n)
  obtain b ps where ps: "nodeset_addAll (pts ?s) y = (b, ps)" by fastforce
  have "wf_ns (pts ?s)" using W by (rule within_wf)
  from nodeset_addAll_spec [OF this y(1) ps]
  have q: "wf_ns ps" "nset ps = pts_at a i \<union> nset y" "b \<or> nset y \<subseteq> pts_at a i"
    by (auto simp: pts_at_def)
  define a' where "a' = set_state n ((state_of a n)\<lparr>pts := ps\<rparr>) a"
  note r = add_labels [OF W n q(1,2) y(2), folded a'_def]
  have "addAll_to n y a = (b, a')" using ps by (simp add: addAll_to_def a'_def s)
  moreover have "grows D a (D \<union> (if b then {i} else {})) a'"
  proof (cases "nset y \<subseteq> pts_at a i")
    case True
    then have "grows D a D a'" using r(2) [of D] by simp
    then show ?thesis by (rule grows_more [OF _ _ r(1)]) simp
  next
    case False
    with r(2) [of D] q(3) show ?thesis by simp
  qed
  ultimately show ?thesis using r(1,3-5) by blast
qed

text \<open>
  Adding a copy edge: a state with one more edge is below the solution, and once the labels of the
  source have reached the target, the edge counts as grown.
\<close>

lemma add_edge:
  assumes W: "within_solution C P a" and n: "solve_ptr n = i"
    and ct: "wf_ns ct" "nset ct = insert d (copy_at a i)" "valid a d" "P i \<subseteq> P (rep a d)"
  defines "a' \<equiv> set_state n ((state_of a n)\<lparr>copyTo := ct\<rparr>) a"
  shows "within_solution C P a'" and "d \<in> copy_at a' i" and "dirty a' = dirty a"
    and "d \<in> copy_at a i \<Longrightarrow> grows D a D a'"
    and "grows D a' D' a2 \<Longrightarrow> pts_at a i \<subseteq> pts_at a2 (rep a d) \<Longrightarrow> grows D a D' a2"
proof -
  have h: "heap a' i = (heap a i)\<lparr>copyTo := ct\<rparr>" "\<And>s. s \<noteq> i \<Longrightarrow> heap a' s = heap a s"
    by (simp_all add: a'_def n state_of_def)
  have sets: "copy_at a' i = insert d (copy_at a i)" "\<And>s. s \<noteq> i \<Longrightarrow> copy_at a' s = copy_at a s"
    "pts_at a' = pts_at a" "prev_at a' = prev_at a"
    using h ct(2) n by (auto simp: pts_at_def prev_at_def copy_at_def fun_eq_iff a'_def state_of_def)
  have cx: "complex (heap a' s) = complex (heap a s)" for s using h by (cases "s = i") simp_all
  have same: "rep a' = rep a" "valid a' = valid a" "satisfies C a' P = satisfies C a P"
    "nodes a' = nodes a" "constraints a' = constraints a"
    by (simp_all add: a'_def fun_eq_iff)
  have "state_ok C a' P i"
    using state_ok_at [OF W, of i] ct unfolding state_ok_def sets same h by auto
  then show W': "within_solution C P a'"
    unfolding a'_def using n by (intro within_set_state [OF W]) simp
  show "d \<in> copy_at a' i" by (simp add: sets)
  show "dirty a' = dirty a" by (simp add: a'_def)
  show "grows D a D a'" if "d \<in> copy_at a i"
  proof -
    have "copy_at a' s = copy_at a s" for s using sets(1,2) that by (cases "s = i") auto
    then show ?thesis using sets(3,4) same cx by (simp add: grows_def)
  qed
  show "grows D a D' a2" if g: "grows D a' D' a2" and p: "pts_at a i \<subseteq> pts_at a2 (rep a d)"
    unfolding grows_def
  proof (intro conjI allI ballI impI)
    show "nodes a2 = nodes a" "constraints a2 = constraints a" "D \<subseteq> D'"
      using g same by (simp_all add: grows_def)
    fix s
    show "prev_at a2 s = prev_at a s" "complex (heap a2 s) = complex (heap a s)"
      "pts_at a s \<subseteq> pts_at a2 s" using g sets cx by (simp_all add: grows_def)
    have "copy_at a s \<subseteq> copy_at a' s" using sets(1,2) by (cases "s = i") auto
    then show "copy_at a s \<subseteq> copy_at a2 s" using g unfolding grows_def by blast
    show "pts_at a2 s = pts_at a s" if "s \<notin> D'" using g that sets(3) by (simp add: grows_def)
    fix e assume e: "e \<in> copy_at a2 s - copy_at a s"
    show "processed D' a2 s \<subseteq> pts_at a2 (rep a e)"
    proof (cases "e \<in> copy_at a' s")
      case True
      with e sets(1,2) have "s = i" "e = d" by (cases "s = i"; auto)+
      moreover have "processed D' a2 i \<subseteq> pts_at a i"
        using grows_processed [OF g W', of i] processed_mono [OF W'] sets(3) by auto
      ultimately show ?thesis using p by auto
    next
      case False
      with e g same(1) show ?thesis by (simp add: grows_def)
    qed
  qed
qed

text \<open>
  An online copy: the edge is there afterwards. When it is new, the labels of the source have been
  copied.
\<close>

lemma onlineCopy_spec:
  assumes W: "within_solution C P a"
    and v: "valid a dst" "valid a src" "P (rep a src) \<subseteq> P (rep a dst)"
  shows "\<exists>b a'. onlineCopy dst src a = Ok (b, a') \<and> within_solution C P a' \<and> dirty a' = dirty a \<and>
    grows D a (D \<union> (if b then {rep a dst} else {})) a' \<and>
    (dst = src \<or> dst \<in> copy_at a' (rep a src))"
proof (cases "dst = src")
  case True
  then have "onlineCopy dst src a = Ok (False, a)" by (simp add: onlineCopy_def)
  with True W show ?thesis by (intro exI [of _ False] exI [of _ a]) (simp add: grows_refl)
next
  case False
  let ?n = "nodes a ! unat src"
  let ?m = "nodes a ! unat dst"
  let ?i = "rep a src"
  let ?s = "heap a ?i"
  have n: "node_ref a src = Ok ?n" "solve_ptr ?n = ?i" "state_of a ?n = ?s"
    using v by (simp_all add: node_ref_valid rep_def state_of_def)
  obtain fresh ct where ct: "nodeset_add (copyTo ?s) dst = (fresh, ct)" by fastforce
  have "wf_ns (copyTo ?s)" using W by (rule within_wf)
  from nodeset_add_spec [OF this ct]
  have q: "wf_ns ct" "nset ct = insert dst (copy_at a ?i)" "fresh \<longleftrightarrow> dst \<notin> copy_at a ?i"
    by (simp_all add: copy_at_def)
  define a1 where "a1 = set_state ?n ((state_of a ?n)\<lparr>copyTo := ct\<rparr>) a"
  note r = add_edge [OF W n(2) q(1,2) v(1,3), folded a1_def]
  have m: "node_ref a1 dst = Ok ?m" "solve_ptr ?m = rep a dst" "pts (heap a1 ?i) = pts ?s"
    using v node_ref_valid [of a1 dst] by (simp add: a1_def, simp add: rep_def, simp add: a1_def n(2,3))
  consider (old) "\<not> fresh" | (shared) fresh "rep a dst = ?i" | (new) fresh "rep a dst \<noteq> ?i" by blast
  then show ?thesis
  proof cases
    case old
    then have "onlineCopy dst src a = Ok (False, a1)"
      using False n(1,3) ct by (simp add: onlineCopy_def a1_def)
    moreover have "grows D a D a1" using r(4) q(3) old by blast
    ultimately show ?thesis using r(1-3) by (intro exI [of _ False] exI [of _ a1]) simp
  next
    case shared
    then have "onlineCopy dst src a = Ok (False, a1)"
      using False n ct m(1,2) by (simp add: onlineCopy_def a1_def Let_def)
    moreover have "grows D a D a1" using r(5) [OF grows_refl] shared(2) m(3) by (simp add: pts_at_def)
    ultimately show ?thesis using r(1-3) by (intro exI [of _ False] exI [of _ a1]) simp
  next
    case new
    have y: "wf_ns (pts ?s)" "nset (pts ?s) \<subseteq> P (rep a dst)"
      using state_ok_at [OF W, of ?i] v(3) by (auto simp: state_ok_def pts_at_def)
    obtain b a' where t: "addAll_to ?m (pts ?s) a1 = (b, a')" "within_solution C P a'"
      "dirty a' = dirty a1" "grows D a1 (D \<union> (if b then {rep a dst} else {})) a'"
      "nset (pts ?s) \<subseteq> pts_at a' (rep a dst)"
      using addAll_to_spec [OF r(1) m(2) y, of D] by blast
    have "onlineCopy dst src a = Ok (b, a')"
      using False n ct m new t(1) by (simp add: onlineCopy_def a1_def Let_def state_of_def)
    moreover have "grows D a (D \<union> (if b then {rep a dst} else {})) a'"
      using r(5) [OF t(4)] t(5) by (simp add: pts_at_def)
    moreover have "dst \<in> copy_at a' ?i" using t(4) r(2) by (auto simp: grows_def)
    ultimately show ?thesis using t(2,3) r(3) by (intro exI [of _ b] exI [of _ a']) simp
  qed
qed

section \<open>Effects\<close>

text \<open>What a complex constraint asks of the state for one label.\<close>

fun effect :: "config \<Rightarrow> analysis \<Rightarrow> constr \<Rightarrow> nodeid \<Rightarrow> bool" where
  "effect C a (LoadConstraint off dst src) k \<longleftrightarrow>
     dst = k + off \<or> dst \<in> copy_at a (rep a (k + off))"
| "effect C a (StoreConstraint off dst src) k \<longleftrightarrow> k + off = src \<or> k + off \<in> copy_at a (rep a src)"
| "effect C a (OffsetAddrConstraint off dst src) k \<longleftrightarrow> k + off \<in> pts_at a (rep a dst)"
| "effect C a (TypeFilterConstraint typ dst src) k \<longleftrightarrow>
     (\<forall>tDyn v. tagged_type a k = Ok (tDyn, v) \<longrightarrow> AssignableTo C tDyn typ \<longrightarrow> k \<in> pts_at a (rep a dst))"
| "effect C a (UntagConstraint typ dst src exact) k \<longleftrightarrow>
     (\<forall>tDyn v sz. tagged_type a k = Ok (tDyn, v) \<longrightarrow> untag_applies C exact tDyn typ \<longrightarrow>
        sizeof (reflect_Value C) tDyn = Ok sz \<longrightarrow> (\<forall>i < unat sz.
          dst + of_nat i = v + of_nat i \<or> dst + of_nat i \<in> copy_at a (rep a (v + of_nat i))))"
| "effect C a c k \<longleftrightarrow> False"

lemma grows_same:
  "grows D a D' a' \<Longrightarrow> nodes a' = nodes a" "grows D a D' a' \<Longrightarrow> rep a' = rep a"
  "grows D a D' a' \<Longrightarrow> valid a' = valid a" "grows D a D' a' \<Longrightarrow> tagged_type a' = tagged_type a"
  "grows D a D' a' \<Longrightarrow> satisfies C a' P c = satisfies C a P c"
  "grows D a D' a' \<Longrightarrow> constraints a' = constraints a"
  "grows D a D' a' \<Longrightarrow> complex (heap a' s) = complex (heap a s)"
  "grows D a D' a' \<Longrightarrow> prev_at a' s = prev_at a s"
  using same_nodes [of a' a] by (simp_all add: grows_def)

lemma grows_sets:
  "grows D a D' a' \<Longrightarrow> x \<in> pts_at a s \<Longrightarrow> x \<in> pts_at a' s"
  "grows D a D' a' \<Longrightarrow> x \<in> copy_at a s \<Longrightarrow> x \<in> copy_at a' s"
  by (auto simp: grows_def)

text \<open>The relation that effects are monotone for.\<close>

definition extends :: "analysis \<Rightarrow> analysis \<Rightarrow> bool" where
  "extends a b \<longleftrightarrow> nodes b = nodes a \<and> constraints b = constraints a \<and>
     (\<forall>s. prev_at b s = prev_at a s \<and> pts_at a s \<subseteq> pts_at b s \<and> copy_at a s \<subseteq> copy_at b s \<and>
        set (complex (heap a s)) \<subseteq> set (complex (heap b s)))"

lemma grows_extends: "grows D a D' b \<Longrightarrow> extends a b"
  by (simp add: grows_def extends_def)

lemma effect_extends:
  assumes "effect C a c k" and e: "extends a b"
  shows "effect C b c k"
proof -
  have n: "nodes b = nodes a" using e by (simp add: extends_def)
  note same = same_nodes [OF n]
  have sets: "x \<in> pts_at a s \<Longrightarrow> x \<in> pts_at b s" "x \<in> copy_at a s \<Longrightarrow> x \<in> copy_at b s" for x s
    using e by (auto simp: extends_def)
  show ?thesis
  proof (cases c)
    case (UntagConstraint x1 x2 x3 x4)
    with assms(1) sets(2) show ?thesis by (simp add: same) blast
  qed (use assms(1) in \<open>auto simp: same dest: sets\<close>)
qed

lemma effect_mono: "effect C a c k \<Longrightarrow> grows D a D' b \<Longrightarrow> effect C b c k"
  by (rule effect_extends [OF _ grows_extends])

lemma grows_addWork [simp]: "grows D a D' (addWork k b) = grows D a D' b"
proof -
  have "processed D (addWork k b) = processed D b" for D by (simp add: processed_def fun_eq_iff)
  then show ?thesis by (simp add: grows_def)
qed

text \<open>The state of a loop, with the nodes fixed.\<close>

definition good :: "config \<Rightarrow> (nat \<Rightarrow> nodeid set) \<Rightarrow> pnode list \<Rightarrow> analysis \<Rightarrow> bool" where
  "good C P N a \<longleftrightarrow> within_solution C P a \<and> nodes a = N"

definition progress :: "analysis \<Rightarrow> analysis \<Rightarrow> bool" where
  "progress a b \<longleftrightarrow> grows (dirty a) a (dirty b) b"

interpretation solver: accumulating "good C P N" progress for C P N
  by unfold_locales (auto simp: progress_def good_def intro: grows_refl growth_trans)

lemma progress_grows: "progress a b \<Longrightarrow> grows (dirty a) a (dirty b) b"
  by (simp add: progress_def)

lemma good_same:
  assumes "good C P N a" and "good C P N b"
  shows "rep b = rep a" "valid b = valid a" "tagged_type b = tagged_type a"
    "satisfies C b P c = satisfies C a P c"
  using assms same_nodes [of b a] by (simp_all add: good_def)

text \<open>The state that gained something goes on the worklist.\<close>

lemma queue_changed:
  assumes "good C P N a" and "valid a dst" and "within_solution C P a1" and "dirty a1 = dirty a"
    and g: "grows (dirty a) a (dirty a \<union> (if f then {rep a dst} else {})) a1"
  defines "b \<equiv> (if f then addWork dst a1 else a1)"
  shows "good C P N b \<and> progress a b \<and> copy_at b = copy_at a1 \<and> pts_at b = pts_at a1"
proof -
  have same: "rep a1 = rep a" "valid a1 = valid a" "nodes a1 = nodes a" using grows_same [OF g] by auto
  have "within_solution C P b \<and> dirty b = dirty a \<union> (if f then {rep a dst} else {})"
    using within_addWork [of C P a1 dst] assms(2-4) same by (simp add: b_def)
  moreover have "grows (dirty a) a (dirty a \<union> (if f then {rep a dst} else {})) b"
    using g by (cases f) (simp_all add: b_def)
  ultimately show ?thesis using assms(1) same by (simp add: b_def good_def progress_def)
qed

lemma add_and_work_spec:
  assumes g: "good C P N a" and v: "valid a dst" "label \<in> P (rep a dst)"
  shows "\<exists>b. add_and_work dst label a = Ok b \<and> good C P N b \<and> progress a b \<and>
    label \<in> pts_at b (rep a dst)"
proof -
  from g have W: "within_solution C P a" by (simp add: good_def)
  obtain f a1 where r: "addLabel dst label a = Ok (f, a1)" "within_solution C P a1"
    "dirty a1 = dirty a" "grows (dirty a) a (dirty a \<union> (if f then {rep a dst} else {})) a1"
    "label \<in> pts_at a1 (rep a dst)"
    using addLabel_spec [OF W v, of "dirty a"] by blast
  with queue_changed [OF g v(1) r(2-4)] show ?thesis by (simp add: add_and_work_def)
qed

lemma copy_and_work_spec:
  assumes g: "good C P N a" and v: "valid a dst" "valid a src" "P (rep a src) \<subseteq> P (rep a dst)"
  shows "\<exists>b. bindR (onlineCopy dst src a) (\<lambda>(f, a). Ok (if f then addWork dst a else a)) = Ok b \<and>
    good C P N b \<and> progress a b \<and> (dst = src \<or> dst \<in> copy_at b (rep a src))"
proof -
  from g have W: "within_solution C P a" by (simp add: good_def)
  obtain f a1 where r: "onlineCopy dst src a = Ok (f, a1)" "within_solution C P a1"
    "dirty a1 = dirty a" "grows (dirty a) a (dirty a \<union> (if f then {rep a dst} else {})) a1"
    "dst = src \<or> dst \<in> copy_at a1 (rep a src)"
    using onlineCopy_spec [OF W v, of "dirty a"] by blast
  with queue_changed [OF g v(1) r(2-4)] show ?thesis by simp
qed

section \<open>Complex constraints\<close>

lemma progress_effect: "effect C a c k \<Longrightarrow> progress a b \<Longrightarrow> effect C b c k"
  unfolding progress_def by (rule effect_mono)

lemma progress_same:
  "progress a b \<Longrightarrow> rep b = rep a" "progress a b \<Longrightarrow> valid b = valid a"
  "progress a b \<Longrightarrow> tagged_type b = tagged_type a"
  unfolding progress_def by (simp_all add: grows_same)

lemma progress_sets:
  "progress a b \<Longrightarrow> x \<in> pts_at a s \<Longrightarrow> x \<in> pts_at b s"
  "progress a b \<Longrightarrow> x \<in> copy_at a s \<Longrightarrow> x \<in> copy_at b s"
  unfolding progress_def by (auto dest: grows_sets)

lemma progress_pts: "progress a b \<Longrightarrow> pts_at a s \<subseteq> pts_at b s"
  using progress_sets by blast

lemma onlineCopyN_spec:
  assumes g: "good C P N a"
    and v: "\<forall>i < unat sz. valid a (v + of_nat i) \<and> valid a (dst + of_nat i) \<and>
      P (rep a (v + of_nat i)) \<subseteq> P (rep a (dst + of_nat i))"
  shows "\<exists>b. onlineCopyN dst v sz a = Ok b \<and> good C P N b \<and> progress a b \<and>
    (\<forall>i < unat sz. dst + of_nat i = v + of_nat i \<or> dst + of_nat i \<in> copy_at b (rep a (v + of_nat i)))"
proof -
  have "\<exists>b. onlineCopyN dst v sz a = Ok b \<and> good C P N b \<and> progress a b \<and>
    (\<forall>i \<in> set [0..<unat sz].
       dst + of_nat i = v + of_nat i \<or> dst + of_nat i \<in> copy_at b (rep a (v + of_nat i)))"
    unfolding onlineCopyN_def
  proof (rule solver.loop_all [OF g])
    fix i s assume i: "i \<in> set [0..<unat sz]" and s: "good C P N s"
    note same = good_same [OF g s]
    from copy_and_work_spec [OF s, of "dst + of_nat i" "v + of_nat i"] v i
    show "\<exists>t. bindR (onlineCopy (dst + of_nat i) (v + of_nat i) s)
          (\<lambda>(b, a). Ok (if b then addWork (dst + of_nat i) a else a)) = Ok t \<and>
        good C P N t \<and> progress s t \<and>
        (dst + of_nat i = v + of_nat i \<or> dst + of_nat i \<in> copy_at t (rep a (v + of_nat i)))"
      by (simp add: same)
  qed (auto dest: progress_sets)
  then show ?thesis by fastforce
qed

lemma filter_labels_loop:
  "\<not> Reflection C \<Longrightarrow> filter_labels C ty dst ks a =
     loopR (\<lambda>k a. bindR (tagged_type a k) (\<lambda>(t, _).
       if AssignableTo C t ty then add_and_work dst k a else Ok a)) ks a"
proof (induction ks arbitrary: a)
  case (Cons k ks)
  then show ?case by (cases "tagged_type a k") (auto simp: bindR_assoc intro!: bindR_cong)
qed simp

text \<open>
  The labels of a load constraint: the state carries whether the destination has changed and is
  still to be put on the worklist.
\<close>

definition load_dirty :: "nodeid \<Rightarrow> bool \<times> analysis \<Rightarrow> nat set" where
  "load_dirty dst = (\<lambda>(changed, a). dirty a \<union> (if changed then {rep a dst} else {}))"

definition load_progress :: "nodeid \<Rightarrow> bool \<times> analysis \<Rightarrow> bool \<times> analysis \<Rightarrow> bool" where
  "load_progress dst s t \<longleftrightarrow> grows (load_dirty dst s) (snd s) (load_dirty dst t) (snd t)"

interpretation loading: accumulating "\<lambda>s. good C P N (snd s)" "load_progress dst" for C P N dst
  by unfold_locales (auto simp: load_progress_def good_def intro: grows_refl growth_trans)

lemma load_label_spec:
  assumes g: "good C P N (snd s)" and v: "valid (snd s) dst" "valid (snd s) (k + off)"
    "P (rep (snd s) (k + off)) \<subseteq> P (rep (snd s) dst)"
  shows "\<exists>t. load_label off dst k s = Ok t \<and> good C P N (snd t) \<and> load_progress dst s t \<and>
    (dst = k + off \<or> dst \<in> copy_at (snd t) (rep (snd s) (k + off)))"
proof (cases s)
  case (Pair ch a)
  with g have W: "within_solution C P a" by (simp add: good_def)
  obtain f b where r: "onlineCopy dst (k + off) a = Ok (f, b)" "within_solution C P b"
    "dirty b = dirty a" "grows (load_dirty dst s) a (load_dirty dst s \<union> (if f then {rep a dst} else {})) b"
    "dst = k + off \<or> dst \<in> copy_at b (rep a (k + off))"
    using onlineCopy_spec [OF W, of dst "k + off" "load_dirty dst s"] v Pair by auto
  have "load_dirty dst s \<union> (if f then {rep a dst} else {}) = load_dirty dst (ch \<or> f, b)"
    using r(3) grows_same(2) [OF r(4)] Pair by (auto simp: load_dirty_def)
  with r grows_same(1) [OF r(4)] Pair g show ?thesis
    by (intro exI [of _ "(ch \<or> f, b)"]) (simp add: load_label_def load_progress_def good_def)
qed

lemma load_spec:
  assumes g: "good C P N a" and c: "satisfies C a P (LoadConstraint off dst src)"
    and d: "wf_ns delta" "nset delta \<subseteq> P (rep a src)"
  shows "\<exists>b. solve_constr C (LoadConstraint off dst src) delta a = Ok b \<and> good C P N b \<and>
    progress a b \<and> (\<forall>k \<in> nset delta. effect C b (LoadConstraint off dst src) k)"
proof -
  let ?c = "LoadConstraint off dst src"
  have "\<exists>t. loopR (load_label off dst) (node_list delta) (False, a) = Ok t \<and> good C P N (snd t) \<and>
      load_progress dst (False, a) t \<and> (\<forall>k \<in> set (node_list delta). effect C (snd t) ?c k)"
  proof (rule loading.loop_all)
    show "good C P N (snd (False, a))" using g by simp
    fix k and s :: "bool \<times> analysis"
    assume k: "k \<in> set (node_list delta)" and s: "good C P N (snd s)"
    note same = good_same [OF g s]
    from k d c have v: "valid a dst" "valid a (k + off)" "P (rep a (k + off)) \<subseteq> P (rep a dst)"
      by (auto simp: ns_simps)
    obtain t where t: "load_label off dst k s = Ok t" "good C P N (snd t)" "load_progress dst s t"
      "dst = k + off \<or> dst \<in> copy_at (snd t) (rep a (k + off))"
      using load_label_spec [OF s, of dst k off] v by (auto simp: same)
    moreover have "rep (snd t) = rep a" using good_same(1) [OF g t(2)] .
    ultimately show "\<exists>t. load_label off dst k s = Ok t \<and> good C P N (snd t) \<and> load_progress dst s t \<and>
        effect C (snd t) ?c k" by auto
  qed (unfold load_progress_def, rule effect_mono)
  then obtain ch b where b: "loopR (load_label off dst) (node_list delta) (False, a) = Ok (ch, b)"
    "good C P N b" "load_progress dst (False, a) (ch, b)" "\<forall>k \<in> nset delta. effect C b ?c k"
    using d(1) by (auto simp: ns_simps)
  from b(3) have gr: "grows (dirty a) a (dirty b \<union> (if ch then {rep b dst} else {})) b"
    by (simp add: load_progress_def load_dirty_def)
  define e where "e = (if ch then addWork dst b else b)"
  have "within_solution C P b" using b(2) by (simp add: good_def)
  moreover have "valid b dst" using c good_same(2) [OF g b(2)] by simp
  ultimately have "within_solution C P e \<and> dirty e = dirty b \<union> (if ch then {rep b dst} else {})"
    using within_addWork [of C P b dst] by (simp add: e_def)
  moreover have "grows (dirty a) a (dirty b \<union> (if ch then {rep b dst} else {})) e"
    using gr by (cases ch) (simp_all add: e_def)
  moreover have "effect C e ?c k" if "k \<in> nset delta" for k
    using b(4) that by (simp add: e_def)
  moreover have "nodes e = N" using b(2) by (simp add: e_def good_def)
  moreover have "solve_constr C ?c delta a = Ok e" using b(1) by (simp add: solve_constr_def e_def)
  ultimately show ?thesis by (auto simp: good_def progress_def)
qed

lemma solve_constr_spec:
  assumes g: "good C P N a" and c: "is_complex c" "satisfies C a P c" and R: "\<not> Reflection C"
    and d: "wf_ns delta" "nset delta \<subseteq> P (rep a (constr_ptr c))"
  shows "\<exists>b. solve_constr C c delta a = Ok b \<and> good C P N b \<and> progress a b \<and>
    (\<forall>k \<in> nset delta. effect C b c k)"
proof (cases c)
  case (LoadConstraint off dst src)
  with load_spec [OF g] c d show ?thesis by simp
next
  case (StoreConstraint off dst src)
  have "\<exists>t. loopR (store_label off src) (node_list delta) a = Ok t \<and> good C P N t \<and> progress a t \<and>
      (\<forall>k \<in> set (node_list delta). effect C t c k)"
  proof (rule solver.loop_all [OF g])
    fix k s assume k: "k \<in> set (node_list delta)" and s: "good C P N s"
    note same = good_same [OF g s]
    from k d c StoreConstraint have v: "valid a (k + off)" "valid a src"
      "P (rep a src) \<subseteq> P (rep a (k + off))" by (auto simp: ns_simps)
    obtain t where t: "store_label off src k s = Ok t" "good C P N t" "progress s t"
      "k + off = src \<or> k + off \<in> copy_at t (rep a src)"
      using copy_and_work_spec [OF s, of "k + off" src] v by (auto simp: same store_label_def)
    moreover have "rep t = rep a" using good_same(1) [OF g t(2)] .
    ultimately show "\<exists>t. store_label off src k s = Ok t \<and> good C P N t \<and> progress s t \<and> effect C t c k"
      using StoreConstraint by auto
  qed (rule progress_effect)
  with StoreConstraint d(1) show ?thesis by (simp add: solve_constr_def ns_simps)
next
  case (OffsetAddrConstraint off dst src)
  have "\<exists>t. loopR (\<lambda>k. add_and_work dst (k + off)) (node_list delta) a = Ok t \<and> good C P N t \<and>
      progress a t \<and> (\<forall>k \<in> set (node_list delta). effect C t c k)"
  proof (rule solver.loop_all [OF g])
    fix k s assume k: "k \<in> set (node_list delta)" and s: "good C P N s"
    note same = good_same [OF g s]
    from k d c OffsetAddrConstraint have v: "valid a dst" "k + off \<in> P (rep a dst)"
      by (auto simp: ns_simps)
    obtain t where t: "add_and_work dst (k + off) s = Ok t" "good C P N t" "progress s t"
      "k + off \<in> pts_at t (rep a dst)"
      using add_and_work_spec [OF s, of dst "k + off"] v by (auto simp: same)
    moreover have "rep t = rep a" using good_same(1) [OF g t(2)] .
    ultimately show "\<exists>t. add_and_work dst (k + off) s = Ok t \<and> good C P N t \<and> progress s t \<and>
        effect C t c k" using OffsetAddrConstraint by auto
  qed (rule progress_effect)
  moreover have "node_ref a dst = Ok (nodes a ! unat dst)"
    using c OffsetAddrConstraint by (intro node_ref_valid) simp
  ultimately show ?thesis using OffsetAddrConstraint d(1) by (simp add: solve_constr_def ns_simps)
next
  case (TypeFilterConstraint ty dst src)
  let ?body = "\<lambda>k a. bindR (tagged_type a k) (\<lambda>(t, _).
    if AssignableTo C t ty then add_and_work dst k a else Ok a)"
  have "\<exists>t. loopR ?body (node_list delta) a = Ok t \<and> good C P N t \<and> progress a t \<and>
      (\<forall>k \<in> set (node_list delta). effect C t c k)"
  proof (rule solver.loop_all [OF g])
    fix k s assume k: "k \<in> set (node_list delta)" and s: "good C P N s"
    note same = good_same [OF g s]
    from k d c TypeFilterConstraint obtain tDyn v where v: "valid a dst" "tagged_type a k = Ok (tDyn, v)"
      "AssignableTo C tDyn ty \<longrightarrow> k \<in> P (rep a dst)" by (fastforce simp: ns_simps)
    show "\<exists>t. ?body k s = Ok t \<and> good C P N t \<and> progress s t \<and> effect C t c k"
    proof (cases "AssignableTo C tDyn ty")
      case True
      with v obtain t where t: "add_and_work dst k s = Ok t" "good C P N t" "progress s t"
        "k \<in> pts_at t (rep a dst)" using add_and_work_spec [OF s, of dst k] by (auto simp: same)
      then show ?thesis using True v TypeFilterConstraint good_same(1) [OF g t(2)] by (auto simp: same)
    next
      case False
      then show ?thesis using v s TypeFilterConstraint solver.le_refl by (auto simp: same)
    qed
  qed (rule progress_effect)
  with TypeFilterConstraint d(1) show ?thesis
    by (simp add: solve_constr_def ns_simps filter_labels_loop [OF R])
next
  case (UntagConstraint ty dst src exact)
  have "\<exists>t. loopR (untag_label C ty dst exact) (node_list delta) a = Ok t \<and> good C P N t \<and>
      progress a t \<and> (\<forall>k \<in> set (node_list delta). effect C t c k)"
  proof (rule solver.loop_all [OF g])
    fix k s assume k: "k \<in> set (node_list delta)" and s: "good C P N s"
    note same = good_same [OF g s]
    from k d have "k \<in> P (rep a src)" using UntagConstraint by (auto simp: ns_simps)
    with c UntagConstraint obtain tDyn v where v: "tagged_type a k = Ok (tDyn, v)"
      "untag_applies C exact tDyn ty \<longrightarrow> (\<exists>sz. sizeof (reflect_Value C) tDyn = Ok sz \<and>
        (\<forall>i < unat sz. valid a (v + of_nat i) \<and> valid a (dst + of_nat i) \<and>
           P (rep a (v + of_nat i)) \<subseteq> P (rep a (dst + of_nat i))))" by fastforce
    show "\<exists>t. untag_label C ty dst exact k s = Ok t \<and> good C P N t \<and> progress s t \<and> effect C t c k"
    proof (cases "untag_applies C exact tDyn ty")
      case True
      with v obtain sz where z: "sizeof (reflect_Value C) tDyn = Ok sz"
        "\<forall>i < unat sz. valid s (v + of_nat i) \<and> valid s (dst + of_nat i) \<and>
           P (rep s (v + of_nat i)) \<subseteq> P (rep s (dst + of_nat i))" by (auto simp: same)
      obtain t where t: "onlineCopyN dst v sz s = Ok t" "good C P N t" "progress s t"
        "\<forall>i < unat sz. dst + of_nat i = v + of_nat i \<or>
           dst + of_nat i \<in> copy_at t (rep s (v + of_nat i))"
        using onlineCopyN_spec [OF s z(2)] by blast
      have "untag_label C ty dst exact k s = Ok t"
        using True v(1) z(1) t(1) by (simp add: untag_label_def untag_applies_def same)
      moreover have "effect C t c k"
        using t(4) v(1) z(1) UntagConstraint good_same [OF g t(2)] by (simp add: same)
      ultimately show ?thesis using t(2,3) by blast
    next
      case False
      then show ?thesis using v s UntagConstraint solver.le_refl
        by (auto simp: same untag_label_def untag_applies_def)
    qed
  qed (rule progress_effect)
  with UntagConstraint d(1) show ?thesis by (simp add: solve_constr_def ns_simps)
qed (use c in simp_all)

end
