(* ===== verification/PtrLeast.thy ===== *)
theory PtrLeast
  imports PtrSteps
begin

text \<open>
  The solver as a whole: propagation closes a state under its constraints, the main loop keeps all
  states closed, and when the worklist is empty the points-to sets are the least solution.
\<close>

section \<open>Closed states\<close>

definition closed_for :: "config \<Rightarrow> analysis \<Rightarrow> nodeid set \<Rightarrow> nat \<Rightarrow> bool" where
  "closed_for C a L s \<longleftrightarrow> (\<forall>c \<in> set (complex (heap a s)). \<forall>k \<in> L. effect C a c k) \<and>
     (\<forall>d \<in> copy_at a s. L \<subseteq> pts_at a (rep a d))"

definition closed :: "config \<Rightarrow> analysis \<Rightarrow> nat \<Rightarrow> bool" where
  "closed C a s \<longleftrightarrow> closed_for C a (processed (dirty a) a s) s"

lemma closed_for_empty [simp]: "closed_for C a {} s"
  by (simp add: closed_for_def)

lemma closed_for_Un: "closed_for C a (L \<union> M) s \<longleftrightarrow> closed_for C a L s \<and> closed_for C a M s"
  by (auto simp: closed_for_def)

lemma closed_for_subset: "closed_for C a L s \<Longrightarrow> M \<subseteq> L \<Longrightarrow> closed_for C a M s"
  unfolding closed_for_def by blast

text \<open>Labels that are processed afterwards and were closed before stay closed.\<close>

lemma closed_for_progress:
  assumes p: "progress a b" and c: "closed_for C a L s" and L: "L \<subseteq> processed (dirty b) b s"
  shows "closed_for C b L s"
  unfolding closed_for_def
proof (intro conjI ballI)
  have g: "grows (dirty a) a (dirty b) b" using p by (rule progress_grows)
  fix c' k assume "c' \<in> set (complex (heap b s))" "k \<in> L"
  with c grows_same(7) [OF g] show "effect C b c' k"
    by (auto simp: closed_for_def intro: progress_effect [OF _ p])
next
  have g: "grows (dirty a) a (dirty b) b" using p by (rule progress_grows)
  fix d assume d: "d \<in> copy_at b s"
  show "L \<subseteq> pts_at b (rep b d)"
  proof (cases "d \<in> copy_at a s")
    case True
    with c have "L \<subseteq> pts_at a (rep a d)" by (simp add: closed_for_def)
    then show ?thesis unfolding progress_same(1) [OF p] using progress_pts [OF p] by blast
  next
    case False
    with d g have "processed (dirty b) b s \<subseteq> pts_at b (rep a d)" by (simp add: grows_def)
    with L progress_same(1) [OF p] show ?thesis by auto
  qed
qed

lemma closed_progress:
  assumes "within_solution C P a" and "progress a b" and "closed C a s"
  shows "closed C b s"
proof -
  have "processed (dirty b) b s \<subseteq> processed (dirty a) a s"
    using grows_processed [OF progress_grows [OF assms(2)] assms(1)] .
  with assms(3) have "closed_for C a (processed (dirty b) b s) s"
    unfolding closed_def by (rule closed_for_subset)
  then show ?thesis unfolding closed_def by (rule closed_for_progress [OF assms(2)]) simp
qed

section \<open>Propagation from one node\<close>

definition copies_done :: "nodeid set \<Rightarrow> nodeset \<times> analysis \<Rightarrow> bool" where
  "copies_done L t \<longleftrightarrow> wf_ns (fst t) \<and> (\<forall>m \<in> nset (fst t). L \<subseteq> pts_at (snd t) (rep (snd t) m))"

interpretation copying: accumulating "\<lambda>t. good C P N (snd t) \<and> copies_done L t"
    "\<lambda>s t. progress (snd s) (snd t) \<and> copy_at (snd t) = copy_at (snd s)" for C P N L
  by unfold_locales (auto intro: solver.le_refl solver.le_trans)

lemma copy_edge_spec:
  assumes g: "good C P N (snd s)" and cd: "copies_done (nset delta) s" and y: "wf_ns delta"
    and v: "valid (snd s) mid" "nset delta \<subseteq> P (rep (snd s) mid)"
  shows "\<exists>t. copy_edge delta mid s = Ok t \<and> (good C P N (snd t) \<and> copies_done (nset delta) t) \<and>
    (progress (snd s) (snd t) \<and> copy_at (snd t) = copy_at (snd s)) \<and>
    nset delta \<subseteq> pts_at (snd t) (rep (snd t) mid)"
proof (cases s)
  case (Pair seen a)
  let ?L = "nset delta"
  obtain fresh seen' where se: "nodeset_add seen mid = (fresh, seen')" by fastforce
  from cd Pair have wf: "wf_ns seen" by (simp add: copies_done_def)
  note q = nodeset_add_spec [OF wf se]
  have W: "within_solution C P a" using g Pair by (simp add: good_def)
  show ?thesis
  proof (cases fresh)
    case False
    with q cd Pair have cd': "copies_done ?L (seen', a)" "?L \<subseteq> pts_at a (rep a mid)"
      by (auto simp: copies_done_def)
    moreover have "copy_edge delta mid s = Ok (seen', a)" using False se Pair by (simp add: copy_edge_def)
    moreover have "progress a a" by (simp add: progress_def grows_refl)
    ultimately show ?thesis using g Pair by (intro exI [of _ "(seen', a)"]) simp
  next
    case True
    let ?n = "nodes a ! unat mid"
    have n: "node_ref a mid = Ok ?n" "solve_ptr ?n = rep a mid"
      using v(1) Pair by (simp_all add: node_ref_valid rep_def)
    have v': "?L \<subseteq> P (rep a mid)" "valid a mid" using v Pair by auto
    obtain f a1 where t: "addAll_to ?n delta a = (f, a1)" "within_solution C P a1" "dirty a1 = dirty a"
      "grows (dirty a) a (dirty a \<union> (if f then {rep a mid} else {})) a1"
      "?L \<subseteq> pts_at a1 (rep a mid)" "copy_at a1 = copy_at a"
      using addAll_to_spec [OF W n(2) y v'(1), of "dirty a"] by blast
    define b where "b = (if f then addWork mid a1 else a1)"
    have b: "good C P N b" "progress a b" "copy_at b = copy_at a" "pts_at b = pts_at a1"
      using queue_changed [of C P N a mid a1 f] g Pair v'(2) t by (auto simp: b_def)
    have r: "rep b = rep a" using b(2) by (rule progress_same)
    have "copies_done ?L (seen', b)"
      unfolding copies_done_def
    proof (intro conjI ballI)
      fix m assume "m \<in> nset (fst (seen', b))"
      then have "m = mid \<or> m \<in> nset seen" using q by auto
      then show "?L \<subseteq> pts_at (snd (seen', b)) (rep (snd (seen', b)) m)"
        using t(5) cd Pair progress_pts [OF b(2), of "rep a m"] by (auto simp: r b(4) copies_done_def)
    qed (use q in simp)
    moreover have "copy_edge delta mid s = Ok (seen', b)"
      using True se n t(1) Pair by (simp add: copy_edge_def b_def)
    ultimately show ?thesis using b t(5) r Pair by (intro exI [of _ "(seen', b)"]) simp
  qed
qed

lemma solveConstraints_spec:
  assumes g: "good C P N a" and n: "solve_ptr n = s" and R: "\<not> Reflection C"
    and d: "wf_ns delta" "nset delta \<subseteq> P s"
  shows "\<exists>b. solveConstraints C n delta a = Ok b \<and> good C P N b \<and> progress a b \<and>
    closed_for C b (nset delta) s"
proof (cases "nset delta = {}")
  case True
  then show ?thesis using g solver.le_refl by (simp add: solveConstraints_def ns_simps d)
next
  case False
  have st: "state_of x n = heap x s" for x by (simp add: state_of_def n)
  have ok: "state_ok C a P s" using g by (simp add: good_def state_ok_at)
  have "\<exists>b. loopR (\<lambda>c a. solve_constr C c delta a) (complex (heap a s)) a = Ok b \<and> good C P N b \<and>
      progress a b \<and> (\<forall>c \<in> set (complex (heap a s)). \<forall>k \<in> nset delta. effect C b c k)"
  proof (rule solver.loop_all [OF g])
    fix c t assume c: "c \<in> set (complex (heap a s))" and t: "good C P N t"
    with ok good_same [OF g t] d(2) have "is_complex c" "satisfies C t P c" "nset delta \<subseteq> P (rep t (constr_ptr c))"
      by (auto simp: state_ok_def)
    from solve_constr_spec [OF t this(1,2) R d(1) this(3)]
    show "\<exists>u. solve_constr C c delta t = Ok u \<and> good C P N u \<and> progress t u \<and>
      (\<forall>k \<in> nset delta. effect C u c k)" .
  qed (blast intro: progress_effect)
  then obtain b where b: "loopR (\<lambda>c a. solve_constr C c delta a) (complex (heap a s)) a = Ok b"
    "good C P N b" "progress a b" "\<forall>c \<in> set (complex (heap a s)). \<forall>k \<in> nset delta. effect C b c k"
    by blast
  have okb: "state_ok C b P s" using b(2) by (simp add: good_def state_ok_at)
  then have wf: "wf_ns (copyTo (heap b s))" by (simp add: state_ok_def)
  let ?s0 = "([], b) :: nodeset \<times> analysis"
  have "\<exists>t. loopR (copy_edge delta) (node_list (copyTo (heap b s))) ?s0 = Ok t \<and>
      (good C P N (snd t) \<and> copies_done (nset delta) t) \<and>
      (progress (snd ?s0) (snd t) \<and> copy_at (snd t) = copy_at (snd ?s0)) \<and>
      (\<forall>m \<in> set (node_list (copyTo (heap b s))). nset delta \<subseteq> pts_at (snd t) (rep (snd t) m))"
  proof (rule copying.loop_all)
    show "good C P N (snd ?s0) \<and> copies_done (nset delta) ?s0"
      using b(2) by (simp add: copies_done_def)
    fix m and t :: "nodeset \<times> analysis"
    assume m: "m \<in> set (node_list (copyTo (heap b s)))"
      and t: "good C P N (snd t) \<and> copies_done (nset delta) t"
    have "m \<in> copy_at b s" using m wf by (simp add: ns_simps copy_at_def)
    with okb have "valid b m" "P s \<subseteq> P (rep b m)" by (simp_all add: state_ok_def)
    moreover have "rep (snd t) = rep b" "valid (snd t) = valid b" using t good_same [OF b(2)] by blast+
    ultimately have "valid (snd t) m" "nset delta \<subseteq> P (rep (snd t) m)" using d(2) by auto
    with t d(1) show "\<exists>u. copy_edge delta m t = Ok u \<and> (good C P N (snd u) \<and> copies_done (nset delta) u) \<and>
      (progress (snd t) (snd u) \<and> copy_at (snd u) = copy_at (snd t)) \<and>
      nset delta \<subseteq> pts_at (snd u) (rep (snd u) m)" by (intro copy_edge_spec) auto
  qed (use progress_same(1) progress_sets(1) in \<open>auto 0 3\<close>)
  then obtain seen e where e: "loopR (copy_edge delta) (node_list (copyTo (heap b s))) ([], b) = Ok (seen, e)"
    "good C P N e" "progress b e" "copy_at e = copy_at b"
    "\<forall>m \<in> copy_at b s. nset delta \<subseteq> pts_at e (rep e m)"
    using wf by (auto simp: ns_simps copy_at_def)
  have "progress a e" using solver.le_trans [OF b(2,3) e(3)] .
  moreover have "closed_for C e (nset delta) s"
    using b(4) e(3-5) grows_same(7) [OF progress_grows [OF \<open>progress a e\<close>]]
    by (auto simp: closed_for_def intro: progress_effect)
  moreover have "solveConstraints C n delta a = Ok e"
    using False d(1) b(1) e(1) by (simp add: solveConstraints_def ns_simps st)
  ultimately show ?thesis using e(2) by blast
qed

text \<open>A constraint that has been added to the graph.\<close>

fun attached :: "analysis \<Rightarrow> constr \<Rightarrow> bool" where
  "attached a (AddrConstraint dst src) \<longleftrightarrow> src \<in> pts_at a (rep a dst)"
| "attached a (CopyConstraint dst src) \<longleftrightarrow> dst \<in> copy_at a (rep a src)"
| "attached a c \<longleftrightarrow> c \<in> set (complex (heap a (rep a (constr_ptr c))))"

lemma attached_complex: "is_complex c \<Longrightarrow> attached a c \<longleftrightarrow> c \<in> set (complex (heap a (rep a (constr_ptr c))))"
  by (cases c) simp_all

lemma attached_extends:
  assumes "attached a c" and e: "extends a b"
  shows "attached b c"
proof -
  have r: "rep b = rep a" using e same_nodes(1) [of b a] by (simp add: extends_def)
  have sets: "x \<in> pts_at a s \<Longrightarrow> x \<in> pts_at b s" "x \<in> copy_at a s \<Longrightarrow> x \<in> copy_at b s"
    "y \<in> set (complex (heap a s)) \<Longrightarrow> y \<in> set (complex (heap b s))" for x y s
    using e unfolding extends_def by blast+
  from assms(1) show ?thesis by (cases c) (simp_all add: r sets)
qed

lemma attached_cong:
  assumes "nodes b = nodes a" and "copy_at b = copy_at a" and "pts_at b = pts_at a"
    and "\<And>s. complex (heap b s) = complex (heap a s)"
  shows "attached b c = attached a c"
  using assms same_nodes [of b a] by (cases c) simp_all

lemma progress_attached: "progress a b \<Longrightarrow> attached a c \<Longrightarrow> attached b c"
  using attached_extends grows_extends unfolding progress_def by blast

section \<open>One round of the main loop\<close>

lemma effect_cong:
  assumes "nodes b = nodes a" and "copy_at b = copy_at a" and "pts_at b = pts_at a"
  shows "effect C b c k = effect C a c k"
  using assms same_nodes [of b a] by (cases c) simp_all

lemma closed_for_cong:
  assumes "nodes b = nodes a" and "copy_at b = copy_at a" and "pts_at b = pts_at a"
    and "complex (heap b s) = complex (heap a s)"
  shows "closed_for C b L s = closed_for C a L s"
  using effect_cong [OF assms(1-3)] assms same_nodes(1) [of b a] by (simp add: closed_for_def)

lemma heap_same:
  assumes "heap b = heap a"
  shows "pts_at b = pts_at a" "prev_at b = prev_at a" "copy_at b = copy_at a"
  using assms by (simp_all add: pts_at_def prev_at_def copy_at_def fun_eq_iff)

text \<open>Taking a node off the worklist: its state counts as processed for its previous labels only.\<close>

lemma take_node:
  assumes g: "good C P N a" and cl: "\<forall>s. closed C a s" and t: "TakeMin (work a) = Ok (Some (x, w))"
  defines "k \<equiv> word_of_int x" and "a0 \<equiv> a\<lparr>work := w\<rparr>"
  shows "k \<in> nset (work a)" and "valid a k" and "good C P N a0" and "nset (work a0) = nset (work a) - {k}"
    and "s \<noteq> rep a k \<Longrightarrow> closed C a0 s" and "closed_for C a0 (prev_at a (rep a k)) (rep a k)"
proof -
  have W: "within_solution C P a" using g by (simp add: good_def)
  from TakeMin_nset [OF within_wf(4) [OF W] t]
  show k: "k \<in> nset (work a)" and w: "nset (work a0) = nset (work a) - {k}" and "valid a k"
    using W by (auto simp: k_def a0_def within_solution_def)
  have wf: "wf_ns w" using TakeMin_nset [OF within_wf(4) [OF W] t] by simp
  have n: "nodes a0 = nodes a" "heap a0 = heap a" by (simp_all add: a0_def)
  note same = same_nodes [OF n(1)] heap_same [OF n(2)]
  have "state_ok C a0 P s = state_ok C a P s" for s by (simp add: state_ok_def same n)
  then show "good C P N a0"
    using g wf w by (auto simp: good_def within_solution_def same) (simp_all add: a0_def)
  have cong: "closed_for C a0 L s = closed_for C a L s" for L s
    by (rule closed_for_cong) (simp_all add: n same)
  show "closed C a0 s" if "s \<noteq> rep a k"
  proof -
    have "s \<in> dirty a0 \<longleftrightarrow> s \<in> dirty a" using that w by (auto simp: dirty_def same)
    then have "processed (dirty a0) a0 s = processed (dirty a) a s" by (simp add: processed_def same)
    with cl show ?thesis by (simp add: closed_def cong)
  qed
  have "rep a k \<in> dirty a" using k by (simp add: dirty_def)
  then have "processed (dirty a) a (rep a k) = prev_at a (rep a k)" by (simp add: processed_def)
  with cl cong show "closed_for C a0 (prev_at a (rep a k)) (rep a k)" unfolding closed_def by metis
qed

lemma copy_pts_within:
  assumes g: "good C P N a" and n: "solve_ptr n = s"
  shows "good C P N (set_state n (copy_pts (state_of a n)) a)"
proof -
  have W: "within_solution C P a" using g by (simp add: good_def)
  have "state_ok C (set_state n (copy_pts (state_of a n)) a) P s"
    using state_ok_at [OF W, of s] n by (simp add: state_ok_def state_of_def pts_at_def copy_at_def)
  with W n have "within_solution C P (set_state n (copy_pts (state_of a n)) a)"
    by (intro within_set_state) simp_all
  with g show ?thesis by (simp add: good_def)
qed

text \<open>Processing the new labels of a state, when all other states are closed.\<close>

lemma process_labels:
  assumes g: "good C P N a" and cl: "\<And>s. s \<noteq> i \<Longrightarrow> closed C a s" and ci: "closed_for C a (prev_at a i) i"
    and n: "solve_ptr n = i" and d: "wf_ns d" "nset d = pts_at a i - prev_at a i" and R: "\<not> Reflection C"
  shows "\<exists>b. solveConstraints C n d (set_state n (copy_pts (state_of a n)) a) = Ok b \<and>
    good C P N b \<and> (\<forall>s. closed C b s) \<and> constraints b = constraints a \<and>
    prev_at b = (prev_at a)(i := pts_at a i) \<and> (\<forall>c. attached a c \<longrightarrow> attached b c)"
proof -
  define a1 where "a1 = set_state n (copy_pts (state_of a n)) a"
  have g1: "good C P N a1" unfolding a1_def by (rule copy_pts_within [OF g n])
  then have W1: "within_solution C P a1" by (simp add: good_def)
  have s1: "pts_at a1 = pts_at a" "copy_at a1 = copy_at a" "prev_at a1 = (prev_at a)(i := pts_at a i)"
    "complex (heap a1 s) = complex (heap a s)" "nodes a1 = nodes a" "dirty a1 = dirty a"
    "constraints a1 = constraints a" for s
    using n by (auto simp: a1_def state_of_def fun_eq_iff pts_at_def copy_at_def prev_at_def)
  have cong: "closed_for C a1 L s = closed_for C a L s" for L s
    by (rule closed_for_cong) (simp_all add: s1)
  have cl1: "closed C a1 s" if "s \<noteq> i" for s
  proof -
    have "processed (dirty a1) a1 s = processed (dirty a) a s" using that by (simp add: processed_def s1)
    with cl [OF that] show ?thesis by (simp add: closed_def cong)
  qed
  have sub: "prev_at a i \<subseteq> pts_at a i" "pts_at a i \<subseteq> P i"
    using g state_ok_at [of C P a i] by (auto simp: good_def state_ok_def)
  with d(2) have "nset d \<subseteq> P i" by blast
  from solveConstraints_spec [OF g1 n R d(1) this] obtain b where
    b: "solveConstraints C n d a1 = Ok b" "good C P N b" "progress a1 b" "closed_for C b (nset d) i"
    by blast
  have "closed C b i"
  proof -
    let ?L = "processed (dirty b) b i"
    have "?L \<subseteq> pts_at a i"
      using grows_processed [OF progress_grows [OF b(3)] W1, of i] processed_mono [OF W1, of "dirty a1" i]
      by (auto simp: s1)
    then have L: "?L = (?L \<inter> prev_at a i) \<union> (?L \<inter> nset d)" using d(2) by blast
    have "closed_for C a1 (?L \<inter> prev_at a i) i" using ci cong closed_for_subset by blast
    then have "closed_for C b (?L \<inter> prev_at a i) i" by (rule closed_for_progress [OF b(3)]) simp
    moreover have "closed_for C b (?L \<inter> nset d) i" using b(4) closed_for_subset by blast
    ultimately show ?thesis using L unfolding closed_def by (metis closed_for_Un)
  qed
  then have "closed C b s" for s
    using closed_progress [OF W1 b(3) cl1] by (cases "s = i") simp_all
  moreover have "prev_at b = prev_at a1" "constraints b = constraints a"
    using grows_same(6,8) [OF progress_grows [OF b(3)]] s1 by (simp_all add: fun_eq_iff)
  moreover have "attached b c" if "attached a c" for c
    using progress_attached [OF b(3)] attached_cong [OF s1(5,2,1,4)] that by simp
  ultimately show ?thesis using b(1,2) s1(3) unfolding a1_def by (intro exI [of _ b]) simp
qed

lemma solve_node_spec:
  assumes g: "good C P N a" and cl: "\<forall>s. closed C a s" and R: "\<not> Reflection C"
    and t: "TakeMin (work a) = Ok (Some (x, w))"
  defines "k \<equiv> word_of_int x" and "a0 \<equiv> a\<lparr>work := w\<rparr>"
  shows "\<exists>d b. solve_node C k (delta, a0) = Ok (d, b) \<and> good C P N b \<and> (\<forall>s. closed C b s) \<and>
    constraints b = constraints a \<and> (\<forall>c. attached a c \<longrightarrow> attached b c) \<and>
    (prev_at b = prev_at a \<and> nset (work b) = nset (work a) - {k} \<and> k \<in> nset (work a) \<or>
     prev_at b = (prev_at a)(rep a k := pts_at a (rep a k)) \<and>
     prev_at a (rep a k) \<noteq> pts_at a (rep a k))"
proof -
  note T = take_node [OF g cl t, folded k_def a0_def]
  have W0: "within_solution C P a0" using T(3) by (simp add: good_def)
  let ?s = "rep a k" and ?n = "nodes a ! unat k"
  have n: "nodes a0 = nodes a" "heap a0 = heap a" "constraints a0 = constraints a" by (simp_all add: a0_def)
  note same = same_nodes [OF n(1)] heap_same [OF n(2)]
  have nr: "node_ref a0 k = Ok ?n" "solve_ptr ?n = ?s"
    using node_ref_valid [of a0 k] T(2) by (simp_all add: same n rep_def)
  have st: "state_of a0 ?n = heap a0 ?s" by (simp add: state_of_def nr)
  define d where "d = delta_of (heap a0 ?s) delta"
  have d: "wf_ns d" "nset d = pts_at a0 ?s - prev_at a0 ?s"
    using within_wf(1,2) [OF W0, of ?s] by (simp_all add: d_def ns_simps pts_at_def prev_at_def)
  show ?thesis
  proof (cases "nset d = {}")
    case True
    have "prev_at a0 ?s \<subseteq> pts_at a0 ?s" using state_ok_at [OF W0, of ?s] by (simp add: state_ok_def)
    with True d(2) have "processed (dirty a0) a0 ?s = prev_at a ?s" by (auto simp: processed_def same)
    with T(6) have "closed C a0 ?s" by (simp add: closed_def)
    with T(5) have "\<forall>s. closed C a0 s" by metis
    moreover have "solve_node C k (delta, a0) = Ok (d, a0)"
      using nr True d(1) by (simp add: solve_node_def st d_def [symmetric] ns_simps)
    moreover have "attached a0 c = attached a c" for c
      by (rule attached_cong) (simp_all add: n same)
    ultimately show ?thesis using T(1,3,4) n(3) same(6) by blast
  next
    case False
    have "closed_for C a0 (prev_at a0 ?s) ?s" using T(6) same(6) by simp
    from process_labels [OF T(3,5) this nr(2) d R] obtain b where b:
      "solveConstraints C ?n d (set_state ?n (copy_pts (state_of a0 ?n)) a0) = Ok b"
      "good C P N b" "\<forall>s. closed C b s" "constraints b = constraints a0"
      "prev_at b = (prev_at a0)(?s := pts_at a0 ?s)" "\<forall>c. attached a0 c \<longrightarrow> attached b c" by blast
    have "solve_node C k (delta, a0) = Ok (d, b)"
      using nr(1) False d(1) b(1) by (simp add: solve_node_def st d_def [symmetric] ns_simps)
    moreover have "prev_at a ?s \<noteq> pts_at a ?s" using False d same by auto
    moreover have "attached a0 c = attached a c" for c
      by (rule attached_cong) (simp_all add: n same)
    ultimately show ?thesis using b(2-6) n(3) same
      by (intro exI [of _ d] exI [of _ b]) simp
  qed
qed

section \<open>New constraints\<close>

lemma extends_refl: "extends a a"
  by (simp add: extends_def)

lemma extends_trans:
  assumes "extends a b" and "extends b c"
  shows "extends a c"
proof -
  have "pts_at a s \<subseteq> pts_at c s \<and> copy_at a s \<subseteq> copy_at c s \<and>
      set (complex (heap a s)) \<subseteq> set (complex (heap c s))" for s
    using assms unfolding extends_def by (meson subset_trans)
  with assms show ?thesis by (simp add: extends_def)
qed

lemma closed_for_extends:
  assumes "closed_for C a L s" and e: "extends a b" and "copy_at b s = copy_at a s"
    and "complex (heap b s) = complex (heap a s)"
  shows "closed_for C b L s"
proof -
  have r: "rep b = rep a" "\<forall>s. pts_at a s \<subseteq> pts_at b s"
    using e same_nodes(1) [of b a] by (auto simp: extends_def)
  show ?thesis
    unfolding closed_for_def assms(3,4) r(1)
  proof (intro conjI ballI)
    show "effect C b c k" if "c \<in> set (complex (heap a s))" "k \<in> L" for c k
      using assms(1) that effect_extends [OF _ e] by (simp add: closed_for_def)
    show "L \<subseteq> pts_at b (rep a d)" if "d \<in> copy_at a s" for d
      using assms(1) that r(2) unfolding closed_for_def by blast
  qed
qed

lemma progress_addWork:
  assumes "within_solution C P a" and "valid a k"
  shows "progress a (addWork k a)"
proof -
  have "grows (dirty a) a (dirty a) (addWork k a)" by (simp add: grows_refl)
  moreover have "dirty a \<subseteq> dirty (addWork k a)" "within_solution C P (addWork k a)"
    using within_addWork [OF assms] by auto
  ultimately show ?thesis unfolding progress_def by (rule grows_more)
qed

definition all_closed :: "config \<Rightarrow> (nat \<Rightarrow> nodeid set) \<Rightarrow> pnode list \<Rightarrow> analysis \<Rightarrow> bool" where
  "all_closed C P N a \<longleftrightarrow> good C P N a \<and> (\<forall>s. closed C a s)"

interpretation labelling: accumulating "all_closed C P N" extends for C P N
  by unfold_locales (auto intro: extends_refl extends_trans)

lemma init_addr_spec:
  assumes a: "all_closed C P N a" and c: "satisfies C a P c"
  shows "\<exists>b. init_addr c a = Ok b \<and> all_closed C P N b \<and> extends a b \<and>
    (\<forall>dst src. c = AddrConstraint dst src \<longrightarrow> attached b c)"
proof (cases c)
  case (AddrConstraint dst src)
  let ?n = "nodes a ! unat dst" and ?i = "rep a dst"
  have W: "within_solution C P a" and cl: "\<And>s. closed C a s" using a by (simp_all add: all_closed_def good_def)
  have v: "valid a dst" "{src} \<subseteq> P ?i" using c AddrConstraint by simp_all
  have n: "node_ref a dst = Ok ?n" "solve_ptr ?n = ?i" using v by (simp_all add: node_ref_valid rep_def)
  let ?ps = "snd (nodeset_add (pts (state_of a ?n)) src)"
  have wf: "wf_ns (pts (state_of a ?n))" unfolding state_of_def using W by (rule within_wf)
  have ps: "wf_ns ?ps" "nset ?ps = pts_at a ?i \<union> {src}"
    using wf by (simp_all add: ns_simps) (simp_all add: state_of_def n pts_at_def)
  define a1 where "a1 = set_state ?n ((state_of a ?n)\<lparr>pts := ?ps\<rparr>) a"
  note r = add_labels [OF W n(2) ps v(2), folded a1_def]
  have same: "rep a1 = rep a" "valid a1 = valid a" "nodes a1 = nodes a" "constraints a1 = constraints a"
    by (simp_all add: a1_def)
  define b where "b = (if has_constraints (state_of a1 ?n) then addWork dst a1 else a1)"
  have ext: "extends a a1" "extends a b" using grows_extends [OF r(2) [of "{}"]]
    by (simp_all add: b_def extends_def)
  have h: "complex (heap a1 s) = complex (heap a s)" for s using grows_same(7) [OF r(2) [of "{}"]] .
  have Wb: "within_solution C P b" using within_addWork [OF r(1), of dst] r(1) v(1) by (simp add: b_def same)
  have "closed C b s" for s
  proof (cases "has_constraints (state_of a1 ?n)")
    case True
    then have "dirty b = dirty a \<union> {?i}"
      using within_addWork [OF r(1), of dst] r(4) v(1) by (simp add: b_def same)
    moreover have "grows (dirty a) a (dirty a \<union> {?i}) a1"
      by (rule grows_more [OF r(2) _ r(1)]) auto
    then have "grows (dirty a) a (dirty a \<union> {?i}) b" by (simp add: b_def)
    ultimately have "progress a b" by (simp add: progress_def)
    from closed_progress [OF W this cl] show ?thesis .
  next
    case False
    then have b: "b = a1" by (simp add: b_def)
    show ?thesis
    proof (cases "s = ?i")
      case True
      have "state_of a1 ?n = heap a1 ?i" by (simp add: state_of_def n)
      with False have "complex (heap a1 ?i) = []" "copy_at a1 ?i = {}"
        using within_wf(3) [OF r(1), of ?i] by (simp_all add: has_constraints_def ns_simps copy_at_def)
      with True b show ?thesis by (simp add: closed_def closed_for_def)
    next
      case False
      then have "processed (dirty a1) a1 s = processed (dirty a) a s"
        using r(4) by (simp add: processed_def) (simp add: a1_def n state_of_def)
      with closed_for_extends [OF cl [of s, unfolded closed_def] ext(1)] r(5) h b
      show ?thesis by (simp add: closed_def)
    qed
  qed
  moreover have "attached b c" using r(3) AddrConstraint by (simp add: b_def same)
  moreover have "init_addr c a = Ok b" using n AddrConstraint by (simp add: init_addr_def b_def a1_def Let_def)
  ultimately show ?thesis using ext(2) Wb a by (auto simp: all_closed_def good_def extends_def)
qed (use a in \<open>simp_all add: init_addr_def extends_refl\<close>)

text \<open>
  Attaching constraints: a state that has labels and gains a constraint goes on the worklist, and if
  some of its labels have been processed already, on the list of stale states, which need not be
  closed.
\<close>

definition stale_ok :: "config \<Rightarrow> (nat \<Rightarrow> nodeid set) \<Rightarrow> pnode list \<Rightarrow> nodeset \<times> analysis \<Rightarrow> bool" where
  "stale_ok C P N = (\<lambda>(stale, a). good C P N a \<and> wf_ns stale \<and>
     (\<forall>s. s \<notin> rep a ` nset stale \<longrightarrow> closed C a s) \<and>
     (\<forall>k \<in> nset stale. valid a k \<and> rep a k \<in> dirty a))"

interpretation attaching: accumulating "stale_ok C P N" "\<lambda>s t. extends (snd s) (snd t)" for C P N
  by unfold_locales (auto intro: extends_refl extends_trans)

lemma note_pending_spec:
  assumes inv: "stale_ok C P N (stale, a)" and g: "good C P N a1" and ext: "extends a a1"
    and same: "dirty a1 = dirty a" "pts_at a1 = pts_at a"
    and other: "\<And>s. s \<noteq> rep a nid \<Longrightarrow> copy_at a1 s = copy_at a s \<and> complex (heap a1 s) = complex (heap a s)"
    and v: "valid a nid"
  shows "\<exists>t. note_pending nid (stale, a1) = Ok t \<and> stale_ok C P N t \<and> extends a1 (snd t)"
proof -
  let ?i = "rep a nid" and ?n = "nodes a ! unat nid"
  from inv have wf: "wf_ns stale" and cl: "\<And>s. s \<notin> rep a ` nset stale \<Longrightarrow> closed C a s"
    and st: "\<And>k. k \<in> nset stale \<Longrightarrow> valid a k \<and> rep a k \<in> dirty a" by (auto simp: stale_ok_def)
  have W1: "within_solution C P a1" using g by (simp add: good_def)
  have n1: "nodes a1 = nodes a" using ext by (simp add: extends_def)
  note sn = same_nodes [OF n1]
  have nr: "node_ref a1 nid = Ok ?n" "state_of a1 ?n = heap a1 ?i"
    using node_ref_valid [of a1 nid] v by (simp_all add: sn n1 rep_def state_of_def)
  have prev: "prev_at a1 = prev_at a" using ext by (simp add: extends_def fun_eq_iff)
  have cl1: "closed C a1 s" if "s \<noteq> ?i" "s \<notin> rep a ` nset stale" for s
  proof -
    have "processed (dirty a1) a1 s = processed (dirty a) a s" by (simp add: processed_def same prev)
    with closed_for_extends [OF _ ext] cl [OF that(2)] other [OF that(1)] show ?thesis
      by (simp add: closed_def)
  qed
  show ?thesis
  proof (cases "pts_at a1 ?i = {}")
    case True
    have "processed (dirty a1) a1 ?i \<subseteq> {}" using processed_mono [OF W1] True by blast
    then have "closed C a1 ?i" by (simp add: closed_def)
    then have "closed C a1 s" if "s \<notin> rep a ` nset stale" for s
      using cl1 [OF _ that] by (cases "s = ?i") simp_all
    then have "stale_ok C P N (stale, a1)" using g wf st by (simp add: stale_ok_def sn same)
    moreover have "note_pending nid (stale, a1) = Ok (stale, a1)"
      using True nr within_wf(1) [OF W1] by (simp add: note_pending_def ns_simps pts_at_def)
    ultimately show ?thesis by (intro exI [of _ "(stale, a1)"]) (simp add: extends_refl)
  next
    case False
    let ?b = "addWork nid a1"
    let ?stale = "if prev_at a1 ?i = {} then stale else snd (nodeset_add stale nid)"
    have v1: "valid a1 nid" using v by (simp add: sn)
    have B: "within_solution C P ?b" "dirty ?b = insert ?i (dirty a)"
      using within_addWork [OF W1 v1] by (simp_all add: sn same)
    have "closed C ?b s" if s: "s \<notin> rep a ` nset ?stale" for s
    proof (cases "s = ?i")
      case True
      with s have "prev_at a1 ?i = {}" using wf by (auto simp: ns_simps split: if_splits)
      then have "processed (dirty ?b) ?b ?i = {}" using B by (simp add: processed_def)
      with True show ?thesis by (simp add: closed_def)
    next
      case False
      have "s \<notin> rep a ` nset stale" using s wf by (auto simp: ns_simps split: if_splits)
      from closed_progress [OF W1 progress_addWork [OF W1 v1] cl1 [OF False this]] show ?thesis .
    qed
    moreover have "good C P N ?b" using g B(1) by (simp add: good_def)
    moreover have "wf_ns ?stale" "\<forall>k \<in> nset ?stale. valid a k \<and> rep a k \<in> dirty ?b"
      using wf st v B(2) by (auto simp: ns_simps)
    ultimately have "stale_ok C P N (?stale, ?b)" by (simp add: stale_ok_def sn)
    moreover have "note_pending nid (stale, a1) = Ok (?stale, ?b)"
      using False nr within_wf(1,2) [OF W1] by (simp add: note_pending_def ns_simps pts_at_def prev_at_def)
    moreover have "extends a1 ?b" by (simp add: extends_def)
    ultimately show ?thesis by (intro exI [of _ "(?stale, ?b)"]) simp
  qed
qed

lemma attach_copy_spec:
  assumes g: "good C P N a" and v: "valid a dst" "valid a src" "P (rep a src) \<subseteq> P (rep a dst)"
  shows "\<exists>b. attach_copy dst src a = Ok b \<and> good C P N b \<and> extends a b \<and> dirty b = dirty a \<and>
    pts_at b = pts_at a \<and> dst \<in> copy_at b (rep a src) \<and>
    (\<forall>s. s \<noteq> rep a src \<longrightarrow> copy_at b s = copy_at a s \<and> complex (heap b s) = complex (heap a s))"
proof -
  let ?n = "nodes a ! unat src" and ?i = "rep a src"
  have W: "within_solution C P a" using g by (simp add: good_def)
  have n: "node_ref a src = Ok ?n" "solve_ptr ?n = ?i" using v by (simp_all add: node_ref_valid rep_def)
  have s: "state_of a ?n = heap a ?i" by (simp add: state_of_def n)
  let ?ct = "snd (nodeset_add (copyTo (state_of a ?n)) dst)"
  have wf: "wf_ns (copyTo (heap a ?i))" using W by (rule within_wf)
  have ct: "wf_ns ?ct" "nset ?ct = insert dst (copy_at a ?i)"
    using wf by (simp_all add: s ns_simps copy_at_def)
  define b where "b = set_state ?n ((state_of a ?n)\<lparr>copyTo := ?ct\<rparr>) a"
  note r = add_edge [OF W n(2) ct v(1,3), folded b_def]
  have "pts_at b = pts_at a" "prev_at b = prev_at a" "\<forall>i. complex (heap b i) = complex (heap a i)"
    "\<forall>s. s \<noteq> ?i \<longrightarrow> copy_at b s = copy_at a s" "nodes b = nodes a" "constraints b = constraints a"
    "copy_at b ?i = insert dst (copy_at a ?i)"
    using ct(2) by (auto simp: b_def s n fun_eq_iff pts_at_def prev_at_def copy_at_def)
  moreover from this have "extends a b" unfolding extends_def by (metis order_refl subset_insertI)
  moreover have "attach_copy dst src a = Ok b" using n by (simp add: attach_copy_def b_def)
  ultimately show ?thesis using r(1-3) g by (intro exI [of _ b]) (simp add: good_def)
qed

lemma attach_complex_spec:
  assumes g: "good C P N a" and v: "valid a (constr_ptr c)" "is_complex c" "satisfies C a P c"
  shows "\<exists>b. attach_complex c a = Ok b \<and> good C P N b \<and> extends a b \<and> dirty b = dirty a \<and>
    pts_at b = pts_at a \<and> c \<in> set (complex (heap b (rep a (constr_ptr c)))) \<and>
    (\<forall>s. s \<noteq> rep a (constr_ptr c) \<longrightarrow> copy_at b s = copy_at a s \<and> complex (heap b s) = complex (heap a s))"
proof -
  let ?n = "nodes a ! unat (constr_ptr c)" and ?i = "rep a (constr_ptr c)"
  have W: "within_solution C P a" using g by (simp add: good_def)
  have n: "node_ref a (constr_ptr c) = Ok ?n" "solve_ptr ?n = ?i"
    using v by (simp_all add: node_ref_valid rep_def)
  have s: "state_of a ?n = heap a ?i" by (simp add: state_of_def n)
  define b where "b = set_state ?n ((state_of a ?n)\<lparr>complex := complex (state_of a ?n) @ [c]\<rparr>) a"
  have sets: "pts_at b = pts_at a" "prev_at b = prev_at a" "copy_at b = copy_at a"
    "nodes b = nodes a" "constraints b = constraints a"
    by (auto simp: b_def s n fun_eq_iff pts_at_def prev_at_def copy_at_def)
  have "state_ok C b P ?i"
    using state_ok_at [OF W, of ?i] v by (auto simp: state_ok_def b_def n s pts_at_def copy_at_def prev_at_def)
  then have "within_solution C P b" unfolding b_def using n(2) by (intro within_set_state [OF W]) simp
  moreover have "extends a b" using sets by (auto simp: extends_def b_def n s)
  moreover have "attach_complex c a = Ok b" using n by (simp add: attach_complex_def b_def)
  moreover have "c \<in> set (complex (heap b ?i))" "\<forall>s. s \<noteq> ?i \<longrightarrow> complex (heap b s) = complex (heap a s)"
    "dirty b = dirty a" by (simp_all add: b_def n s)
  ultimately show ?thesis using g sets by (intro exI [of _ b]) (simp add: good_def)
qed

lemma attach_spec:
  assumes inv: "stale_ok C P N t" and c: "satisfies C (snd t) P c" "valid (snd t) (constr_ptr c)"
  shows "\<exists>u. attach c t = Ok u \<and> stale_ok C P N u \<and> extends (snd t) (snd u) \<and>
    (\<not> (\<exists>dst src. c = AddrConstraint dst src) \<longrightarrow> attached (snd u) c)"
proof (cases t)
  case (Pair stale a)
  have g: "good C P N a" using inv Pair by (simp add: stale_ok_def)
  consider (addr) dst src where "c = AddrConstraint dst src"
    | (copy) dst src where "c = CopyConstraint dst src" | (complex) "is_complex c"
    by (cases c) simp_all
  then show ?thesis
  proof cases
    case addr
    with inv Pair show ?thesis by (simp add: attach_def extends_refl)
  next
    case copy
    with c Pair have v: "valid a dst" "valid a src" "P (rep a src) \<subseteq> P (rep a dst)" by simp_all
    from attach_copy_spec [OF g v] obtain a1 where a1: "attach_copy dst src a = Ok a1" "good C P N a1"
      "extends a a1" "dirty a1 = dirty a" "pts_at a1 = pts_at a" "dst \<in> copy_at a1 (rep a src)"
      "\<And>s. s \<noteq> rep a src \<Longrightarrow> copy_at a1 s = copy_at a s \<and> complex (heap a1 s) = complex (heap a s)" by blast
    from note_pending_spec [OF inv [unfolded Pair] a1(2-5) a1(7) v(2)] obtain u where
      u: "note_pending src (stale, a1) = Ok u" "stale_ok C P N u" "extends a1 (snd u)" by blast
    have "attached a1 c" using a1(3,6) copy same_nodes(1) [of a1 a] by (simp add: extends_def)
    with u(3) have "attached (snd u) c" using attached_extends by blast
    with u a1(1) copy Pair extends_trans [OF a1(3) u(3)] show ?thesis by (simp add: attach_def)
  next
    case complex
    from attach_complex_spec [OF g _ complex] c Pair obtain a1 where a1: "attach_complex c a = Ok a1"
      "good C P N a1" "extends a a1" "dirty a1 = dirty a" "pts_at a1 = pts_at a"
      "c \<in> set (complex (heap a1 (rep a (constr_ptr c))))"
      "\<And>s. s \<noteq> rep a (constr_ptr c) \<Longrightarrow> copy_at a1 s = copy_at a s \<and> complex (heap a1 s) = complex (heap a s)"
      by auto
    have v: "valid a (constr_ptr c)" using c(2) Pair by simp
    from note_pending_spec [OF inv [unfolded Pair] a1(2-5) a1(7) v] obtain u where
      u: "note_pending (constr_ptr c) (stale, a1) = Ok u" "stale_ok C P N u" "extends a1 (snd u)" by blast
    have "attached a1 c"
      using a1(3,6) attached_complex [OF complex] same_nodes(1) [of a1 a] by (simp add: extends_def)
    with u(3) have "attached (snd u) c" using attached_extends by blast
    moreover have "attach c t = Ok u" using complex a1(1) u(1) Pair by (cases c) (simp_all add: attach_def)
    ultimately show ?thesis using u(2) Pair extends_trans [OF a1(3) u(3)] by simp
  qed
qed

end
