(* ===== verification/PtrClaims.thy ===== *)
theory PtrClaims
  imports PtrLeast
begin

text \<open>
  The pointer-analysis theorems: the solver computes the least solution of its constraints, the
  layout of flattened types, and the objects behind node ids.
\<close>

section \<open>New constraints in the main loop\<close>

lemma solve_stale_spec:
  assumes g: "good C P N a" and R: "\<not> Reflection C" and k: "valid a k" "rep a k \<in> dirty a"
  shows "\<exists>b. solve_stale C k a = Ok b \<and> good C P N b \<and> progress a b \<and> closed C b (rep a k)"
proof -
  let ?i = "rep a k" and ?n = "nodes a ! unat k"
  have W: "within_solution C P a" using g by (simp add: good_def)
  have n: "node_ref a k = Ok ?n" "solve_ptr ?n = ?i" using k by (simp_all add: node_ref_valid rep_def)
  have st: "state_of a ?n = heap a ?i" by (simp add: state_of_def n)
  have d: "wf_ns (prevPTS (heap a ?i))" "nset (prevPTS (heap a ?i)) = prev_at a ?i"
    using within_wf(2) [OF W] by (simp_all add: prev_at_def)
  have "prev_at a ?i \<subseteq> P ?i" using state_ok_at [OF W, of ?i] by (auto simp: state_ok_def)
  with solveConstraints_spec [OF g n(2) R d(1)] d(2) obtain b where
    b: "solveConstraints C ?n (prevPTS (heap a ?i)) a = Ok b" "good C P N b" "progress a b"
      "closed_for C b (prev_at a ?i) ?i" by auto
  have gr: "grows (dirty a) a (dirty b) b" using b(3) by (rule progress_grows)
  then have "?i \<in> dirty b" using k(2) by (auto simp: grows_def)
  then have "processed (dirty b) b ?i = prev_at a ?i"
    using grows_same(8) [OF gr] by (simp add: processed_def)
  with b n show ?thesis by (simp add: solve_stale_def st closed_def)
qed

definition restored :: "config \<Rightarrow> (nat \<Rightarrow> nodeid set) \<Rightarrow> pnode list \<Rightarrow> nat set \<Rightarrow> analysis \<Rightarrow> bool" where
  "restored C P N S a \<longleftrightarrow> good C P N a \<and> (\<forall>s. s \<notin> S \<longrightarrow> closed C a s) \<and> S \<subseteq> dirty a"

interpretation restoring: accumulating "restored C P N S" progress for C P N S
  by unfold_locales (auto simp: restored_def intro: solver.le_refl solver.le_trans)

lemma solve_stale_all:
  assumes t: "stale_ok C P N (stale, a)" and R: "\<not> Reflection C"
  shows "\<exists>b. loopR (solve_stale C) (node_list stale) a = Ok b \<and> all_closed C P N b \<and> progress a b"
proof -
  let ?S = "rep a ` nset stale"
  have wf: "wf_ns stale" and g: "good C P N a" using t by (simp_all add: stale_ok_def)
  have "\<exists>b. loopR (solve_stale C) (node_list stale) a = Ok b \<and> restored C P N ?S b \<and> progress a b \<and>
      (\<forall>k \<in> set (node_list stale). closed C b (rep a k))"
  proof (rule restoring.loop_all)
    show "restored C P N ?S a" using t by (auto simp: restored_def stale_ok_def)
    fix k s assume k: "k \<in> set (node_list stale)" and s: "restored C P N ?S s"
    then have gs: "good C P N s" by (simp add: restored_def)
    note same = good_same [OF g gs]
    have "k \<in> nset stale" using k wf by (simp add: ns_simps)
    with t s have v: "valid s k" "rep s k \<in> dirty s" by (auto simp: stale_ok_def restored_def same)
    from solve_stale_spec [OF gs R v] obtain b where
      b: "solve_stale C k s = Ok b" "good C P N b" "progress s b" "closed C b (rep s k)" by blast
    have "closed C b i" if "i \<notin> ?S" for i
      using closed_progress [OF _ b(3)] s that by (auto simp: restored_def good_def)
    moreover have "dirty s \<subseteq> dirty b" using progress_grows [OF b(3)] by (simp add: grows_def)
    ultimately have "restored C P N ?S b" using b(2) s by (auto simp: restored_def)
    with b show "\<exists>u. solve_stale C k s = Ok u \<and> restored C P N ?S u \<and> progress s u \<and> closed C u (rep a k)"
      by (simp add: same)
  next
    fix k s u assume s: "restored C P N ?S s" and "closed C s (rep a k)" "progress s u"
    moreover have "within_solution C P s" using s by (simp add: restored_def good_def)
    ultimately show "closed C u (rep a k)" by (blast intro: closed_progress)
  qed
  then obtain b where b: "loopR (solve_stale C) (node_list stale) a = Ok b" "restored C P N ?S b"
    "progress a b" "\<forall>k \<in> nset stale. closed C b (rep a k)" using wf by (auto simp: ns_simps)
  have "closed C b s" for s using b(2,4) by (cases "s \<in> ?S") (auto simp: restored_def)
  then have "all_closed C P N b" using b(2) by (simp add: restored_def all_closed_def)
  with b show ?thesis by blast
qed

lemma drop_constraints:
  assumes "all_closed C P N a"
  shows "all_closed C P N (a\<lparr>constraints := []\<rparr>)"
proof -
  let ?b = "a\<lparr>constraints := []\<rparr>"
  have n: "nodes ?b = nodes a" "heap ?b = heap a" "work ?b = work a" by simp_all
  note same = same_nodes [OF n(1)] heap_same [OF n(2)]
  have "state_ok C ?b P s = state_ok C a P s" for s by (simp add: state_ok_def same)
  moreover have "closed_for C ?b L s = closed_for C a L s" for L s
    by (rule closed_for_cong) (simp_all add: same)
  moreover have "processed (dirty ?b) ?b s = processed (dirty a) a s" for s
    by (simp add: dirty_def processed_def same)
  ultimately show ?thesis
    using assms by (simp add: all_closed_def good_def within_solution_def closed_def same)
qed

lemma process_spec:
  assumes a: "all_closed C P N a" and R: "\<not> Reflection C"
  shows "\<exists>b. processNewConstraints C a = Ok b \<and> all_closed C P N b \<and> constraints b = [] \<and>
    prev_at b = prev_at a \<and> (\<forall>c. c \<in> set (constraints a) \<or> attached a c \<longrightarrow> attached b c)"
proof -
  let ?cs = "constraints a" and ?a0 = "a\<lparr>constraints := []\<rparr>"
  have a0: "all_closed C P N ?a0" using a by (rule drop_constraints)
  have ga: "good C P N a" and g0: "good C P N ?a0" using a a0 by (simp_all add: all_closed_def)
  have cs: "satisfies C a P c \<and> valid a (constr_ptr c)" if "c \<in> set ?cs" for c
    using ga that by (simp add: good_def within_solution_def)
  have "\<exists>b. loopR init_addr ?cs ?a0 = Ok b \<and> all_closed C P N b \<and> extends ?a0 b \<and>
      (\<forall>c \<in> set ?cs. \<forall>dst src. c = AddrConstraint dst src \<longrightarrow> attached b c)"
  proof (rule labelling.loop_all [OF a0])
    fix c s assume c: "c \<in> set ?cs" and s: "all_closed C P N s"
    then have "satisfies C s P c" using cs good_same(4) [OF ga, of s] by (simp add: all_closed_def)
    from init_addr_spec [OF s this] show "\<exists>t. init_addr c s = Ok t \<and> all_closed C P N t \<and> extends s t \<and>
      (\<forall>dst src. c = AddrConstraint dst src \<longrightarrow> attached t c)" .
  qed (blast intro: attached_extends)
  then obtain a1 where a1: "loopR init_addr ?cs ?a0 = Ok a1" "all_closed C P N a1" "extends ?a0 a1"
    "\<And>dst src. AddrConstraint dst src \<in> set ?cs \<Longrightarrow> attached a1 (AddrConstraint dst src)" by blast
  let ?t0 = "([], a1) :: nodeset \<times> analysis"
  have t0: "stale_ok C P N ?t0" using a1(2) unfolding stale_ok_def all_closed_def by simp metis
  have "\<exists>t. loopR attach ?cs ?t0 = Ok t \<and> stale_ok C P N t \<and> extends (snd ?t0) (snd t) \<and>
      (\<forall>c \<in> set ?cs. \<not> (\<exists>dst src. c = AddrConstraint dst src) \<longrightarrow> attached (snd t) c)"
  proof (rule attaching.loop_all [OF t0])
    fix c and t :: "nodeset \<times> analysis" assume c: "c \<in> set ?cs" and t: "stale_ok C P N t"
    then have "good C P N (snd t)" by (auto simp: stale_ok_def)
    with cs [OF c] have "satisfies C (snd t) P c" "valid (snd t) (constr_ptr c)"
      by (simp_all add: good_same [OF ga])
    from attach_spec [OF t this] show "\<exists>u. attach c t = Ok u \<and> stale_ok C P N u \<and> extends (snd t) (snd u) \<and>
      (\<not> (\<exists>dst src. c = AddrConstraint dst src) \<longrightarrow> attached (snd u) c)" .
  qed (blast intro: attached_extends)
  then obtain stale a2 where a2: "loopR attach ?cs ?t0 = Ok (stale, a2)" "stale_ok C P N (stale, a2)"
    "extends a1 a2" "\<And>c. c \<in> set ?cs \<Longrightarrow> \<not> (\<exists>dst src. c = AddrConstraint dst src) \<Longrightarrow> attached a2 c"
    by (auto simp: split_paired_Ex)
  from solve_stale_all [OF a2(2) R] obtain b where
    b: "loopR (solve_stale C) (node_list stale) a2 = Ok b" "all_closed C P N b" "progress a2 b" by blast
  have e3: "extends a2 b" using progress_grows [OF b(3)] by (rule grows_extends)
  have e: "extends ?a0 b" using extends_trans [OF extends_trans [OF a1(3) a2(3)] e3] .
  have "attached b c" if "c \<in> set ?cs" for c
  proof (cases "\<exists>dst src. c = AddrConstraint dst src")
    case True
    with a1(4) that have "attached a1 c" by blast
    then show ?thesis using extends_trans [OF a2(3) e3] by (rule attached_extends)
  next
    case False
    with a2(4) that e3 show ?thesis by (blast intro: attached_extends)
  qed
  moreover have "attached b c" if "attached a c" for c
  proof -
    have "attached ?a0 c = attached a c" by (rule attached_cong) (simp_all add: heap_same [of ?a0 a])
    with that e show ?thesis by (blast intro: attached_extends)
  qed
  moreover have "constraints b = []" "prev_at b = prev_at a"
    using e heap_same(2) [of ?a0 a] by (simp_all add: extends_def fun_eq_iff)
  moreover have "processNewConstraints C a = Ok b"
    using a1(1) a2(1) b(1) by (simp add: processNewConstraints_def Let_def)
  ultimately show ?thesis using b(2) by blast
qed

section \<open>The main loop\<close>

lemma process_none: "constraints a = [] \<Longrightarrow> processNewConstraints C a = Ok a"
  by (simp add: processNewConstraints_def node_list_def AppendTo_def forEach_def)

lemma solveDefault_process:
  assumes "processNewConstraints C a = Ok b" and "constraints b = []"
  shows "solveDefault fuel C (d, a) = solveDefault fuel C (d, b)"
  using assms by (cases fuel) (simp_all add: process_none)

text \<open>What holds of every state the main loop reaches, and of its result.\<close>

definition loop_result :: "config \<Rightarrow> (nat \<Rightarrow> nodeid set) \<Rightarrow> analysis \<Rightarrow> analysis res \<Rightarrow> bool" where
  "loop_result C P a r \<longleftrightarrow> (case r of
       Ok b \<Rightarrow> all_closed C P (nodes a) b \<and> nset (work b) = {} \<and> constraints b = [] \<and>
         (\<forall>c. c \<in> set (constraints a) \<or> attached a c \<longrightarrow> attached b c)
     | Panic _ \<Rightarrow> False
     | OutOfFuel \<Rightarrow> True)"

lemma loop_result_before:
  assumes "loop_result C P b r" and "nodes b = nodes a"
    and "\<forall>c. c \<in> set (constraints a) \<or> attached a c \<longrightarrow> attached b c"
  shows "loop_result C P a r"
  using assms by (cases r) (auto simp: loop_result_def)

lemma solveDefault_result:
  assumes "all_closed C P (nodes a) a" and R: "\<not> Reflection C"
  shows "loop_result C P a (solveDefault fuel C (d, a))"
  using assms(1)
proof (induction fuel arbitrary: d a)
  case 0
  then show ?case by (simp add: loop_result_def)
next
  case (Suc fuel)
  from process_spec [OF Suc.prems R] obtain b where b: "processNewConstraints C a = Ok b"
    "all_closed C P (nodes a) b" "constraints b = []"
    "\<forall>c. c \<in> set (constraints a) \<or> attached a c \<longrightarrow> attached b c" by blast
  have n: "nodes b = nodes a" using b(2) by (simp add: all_closed_def good_def)
  have g: "good C P (nodes a) b" "\<forall>s. closed C b s" using b(2) unfolding all_closed_def by blast+
  from g(1) have "within_solution C P b" by (simp add: good_def)
  then have wf: "wf_ns (work b)" by (rule within_wf)
  from TakeMin_total [OF wf] obtain m where m: "TakeMin (work b) = Ok m" by blast
  show ?case
  proof (cases m)
    case None
    then have "solveDefault (Suc fuel) C (d, a) = Ok b" using b(1) m by simp
    moreover have "nset (work b) = {}" using TakeMin_nset [OF wf m] None by simp
    ultimately show ?thesis using b(2-4) by (simp add: loop_result_def)
  next
    case (Some xw)
    then obtain x w where xw: "m = Some (x, w)" by (cases xw) simp
    from solve_node_spec [OF g R m [unfolded xw], of d] obtain d' e where
      e: "solve_node C (word_of_int x) (d, b\<lparr>work := w\<rparr>) = Ok (d', e)" "good C P (nodes a) e"
      "\<forall>s. closed C e s" "constraints e = constraints b" "\<forall>c. attached b c \<longrightarrow> attached e c" by blast
    have ne: "nodes e = nodes a" using e(2) by (simp add: good_def)
    have "all_closed C P (nodes e) e" using e(2,3) ne unfolding all_closed_def by simp
    from Suc.IH [OF this] have "loop_result C P e (solveDefault fuel C (d', e))" .
    then have "loop_result C P a (solveDefault fuel C (d', e))"
      by (rule loop_result_before) (use ne b(4) e(5) in auto)
    moreover have "solveDefault (Suc fuel) C (d, a) = solveDefault fuel C (d', e)"
      using b(1) m xw e(1) by simp
    ultimately show ?thesis by simp
  qed
qed

section \<open>Termination\<close>

text \<open>
  The labels that are still to be processed; each round that is not empty processes one at least, and
  between two such rounds the worklist shrinks.
\<close>

definition solver_states :: "pnode list \<Rightarrow> nat set" where
  "solver_states N = solve_ptr ` set N"

definition label_count :: "(nat \<Rightarrow> nodeid set) \<Rightarrow> pnode list \<Rightarrow> nat" where
  "label_count P N = (\<Sum>s \<in> solver_states N. card (P s))"

definition solver_bound :: "(nat \<Rightarrow> nodeid set) \<Rightarrow> pnode list \<Rightarrow> nat" where
  "solver_bound P N = (label_count P N + 1) * (length N + 1)"

definition unprocessed :: "(nat \<Rightarrow> nodeid set) \<Rightarrow> analysis \<Rightarrow> nat" where
  "unprocessed P a = (\<Sum>s \<in> solver_states (nodes a). card (P s - prev_at a s))"

definition solver_measure :: "(nat \<Rightarrow> nodeid set) \<Rightarrow> analysis \<Rightarrow> nat" where
  "solver_measure P a = unprocessed P a * (length (nodes a) + 1) + card (nset (work a))"

lemma rep_states: "valid a k \<Longrightarrow> rep a k \<in> solver_states (nodes a)"
  by (simp add: rep_def valid_def solver_states_def)

lemma card_work:
  assumes "good C P N a"
  shows "card (nset (work a)) \<le> length N"
proof -
  have "unat ` nset (work a) \<subseteq> {..<length N}"
    using assms by (auto simp: good_def within_solution_def valid_def)
  then have "card (unat ` nset (work a)) \<le> length N"
    using card_mono [of "{..<length N}"] by auto
  moreover have "inj_on (unat :: nodeid \<Rightarrow> nat) (nset (work a))" by (simp add: inj_on_def word_unat_eq_iff)
  ultimately show ?thesis by (simp add: card_image)
qed

lemma unprocessed_less:
  assumes g: "good C P N a" and n: "nodes b = nodes a" and k: "valid a k"
    and p: "prev_at b = (prev_at a)(rep a k := pts_at a (rep a k))"
    and new: "prev_at a (rep a k) \<noteq> pts_at a (rep a k)"
  shows "unprocessed P b < unprocessed P a"
  unfolding unprocessed_def n
proof (rule sum_strict_mono_ex1)
  let ?i = "rep a k"
  show "finite (solver_states (nodes a))" by (simp add: solver_states_def)
  have "prev_at a ?i \<subseteq> pts_at a ?i" "pts_at a ?i \<subseteq> P ?i"
    using g state_ok_at [of C P a ?i] by (auto simp: good_def state_ok_def)
  then have "P ?i - prev_at b ?i \<subset> P ?i - prev_at a ?i" using new p by auto
  then have "card (P ?i - prev_at b ?i) < card (P ?i - prev_at a ?i)"
    by (intro psubset_card_mono) simp_all
  then show "\<exists>s \<in> solver_states (nodes a). card (P s - prev_at b s) < card (P s - prev_at a s)"
    using rep_states [OF k] by blast
  have "P s - prev_at b s \<subseteq> P s - prev_at a s" for s
    using p \<open>prev_at a ?i \<subseteq> pts_at a ?i\<close> by (cases "s = ?i") auto
  then show "\<forall>s \<in> solver_states (nodes a). card (P s - prev_at b s) \<le> card (P s - prev_at a s)"
    by (intro ballI card_mono) simp_all
qed

lemma measure_step:
  assumes "u < u'" and "w \<le> (n :: nat)"
  shows "u * (n + 1) + w < u' * (n + 1) + w'"
proof -
  have "u * (n + 1) + w < u * (n + 1) + (n + 1)" using assms(2) by simp
  also have "\<dots> = (u + 1) * (n + 1)" by simp
  also have "\<dots> \<le> u' * (n + 1)" using assms(1) by (intro mult_le_mono1) simp
  finally show ?thesis by simp
qed

lemma solveDefault_terminates:
  assumes "all_closed C P (nodes a) a" and R: "\<not> Reflection C" and "constraints a = []"
    and "solver_measure P a < fuel"
  shows "solveDefault fuel C (d, a) \<noteq> OutOfFuel"
  using assms(1,3,4)
proof (induction fuel arbitrary: d a)
  case (Suc fuel)
  have g: "good C P (nodes a) a" "\<forall>s. closed C a s" using Suc.prems(1) unfolding all_closed_def by blast+
  from g(1) have "within_solution C P a" by (simp add: good_def)
  then have wf: "wf_ns (work a)" by (rule within_wf)
  from TakeMin_total [OF wf] obtain m where m: "TakeMin (work a) = Ok m" by blast
  show ?case
  proof (cases m)
    case None
    then show ?thesis using m by (simp add: process_none [OF Suc.prems(2)])
  next
    case (Some xw)
    then obtain x w where xw: "m = Some (x, w)" by (cases xw) simp
    let ?k = "word_of_int x :: nodeid"
    from solve_node_spec [OF g R m [unfolded xw], of d] obtain d' e where
      e: "solve_node C ?k (d, a\<lparr>work := w\<rparr>) = Ok (d', e)" "good C P (nodes a) e"
      "\<forall>s. closed C e s" "constraints e = constraints a"
      "prev_at e = prev_at a \<and> nset (work e) = nset (work a) - {?k} \<and> ?k \<in> nset (work a) \<or>
       prev_at e = (prev_at a)(rep a ?k := pts_at a (rep a ?k)) \<and>
       prev_at a (rep a ?k) \<noteq> pts_at a (rep a ?k)" by blast
    have ne: "nodes e = nodes a" using e(2) by (simp add: good_def)
    have k: "valid a ?k" using take_node(2) [OF g m [unfolded xw]] .
    have "solver_measure P e < solver_measure P a"
      using e(5)
    proof (elim disjE conjE)
      assume s: "prev_at e = prev_at a" "nset (work e) = nset (work a) - {?k}" "?k \<in> nset (work a)"
      have "card (nset (work e)) < card (nset (work a))"
        unfolding s(2) using s(3) by (intro card_Diff1_less) simp
      with s(1) show ?thesis by (simp add: solver_measure_def unprocessed_def ne)
    next
      assume "prev_at e = (prev_at a)(rep a ?k := pts_at a (rep a ?k))"
        "prev_at a (rep a ?k) \<noteq> pts_at a (rep a ?k)"
      from unprocessed_less [OF g(1) ne k this] show ?thesis
        unfolding solver_measure_def ne by (rule measure_step) (rule card_work [OF e(2)])
    qed
    then have "solver_measure P e < fuel" using Suc.prems(3) by simp
    moreover have "all_closed C P (nodes e) e" using e(2,3) ne unfolding all_closed_def by simp
    ultimately have "solveDefault fuel C (d', e) \<noteq> OutOfFuel"
      using e(4) Suc.prems(2) by (intro Suc.IH) simp_all
    then show ?thesis using m xw e(1) by (simp add: process_none [OF Suc.prems(2)])
  qed
qed simp

lemma measure_bound:
  assumes "good C P (nodes a) a"
  shows "solver_measure P a < solver_bound P (nodes a)"
proof -
  have "unprocessed P a \<le> label_count P (nodes a)"
    unfolding unprocessed_def label_count_def by (intro sum_mono card_mono) auto
  then have "unprocessed P a < label_count P (nodes a) + 1" by simp
  from measure_step [OF this card_work [OF assms], of 0] show ?thesis
    by (simp add: solver_measure_def solver_bound_def)
qed

section \<open>The least solution\<close>

definition solution :: "config \<Rightarrow> analysis \<Rightarrow> (nat \<Rightarrow> nodeid set) \<Rightarrow> bool" where
  "solution C a P \<longleftrightarrow> (\<forall>c \<in> set (constraints a). satisfies C a P c)"

text \<open>An analysis that has created nodes and constraints and has not been solved yet.\<close>

definition unsolved :: "analysis \<Rightarrow> bool" where
  "unsolved a \<longleftrightarrow> (\<forall>s. heap a s = new_solverState) \<and> work a = []"

lemma satisfies_valid: "satisfies C a P c \<Longrightarrow> valid a (constr_ptr c)"
  by (cases c) simp_all

lemma unsolved_closed:
  assumes u: "unsolved a" and s: "solution C a P"
  shows "all_closed C P (nodes a) a"
proof -
  have h: "heap a s = new_solverState" for s using u by (simp add: unsolved_def)
  have e: "pts_at a s = {}" "prev_at a s = {}" "copy_at a s = {}" for s
    by (simp_all add: pts_at_def prev_at_def copy_at_def h new_solverState_def)
  have "state_ok C a P s" for s
    unfolding state_ok_def e by (simp add: h new_solverState_def)
  moreover have "closed C a s" for s
    unfolding closed_def closed_for_def e by (simp add: h new_solverState_def)
  moreover have "wf_ns (work a)" "nset (work a) = {}" using u by (simp_all add: unsolved_def)
  ultimately show ?thesis
    using s satisfies_valid unfolding all_closed_def good_def within_solution_def solution_def by blast
qed

text \<open>At the end, every attached constraint holds of the points-to sets themselves.\<close>

lemma attached_satisfied:
  assumes cl: "all_closed C P N b" and "nset (work b) = {}" and att: "attached b c"
    and sat: "satisfies C b P c"
  shows "satisfies C b (pts_at b) c"
proof -
  have g: "good C P N b" and W: "within_solution C P b" and "\<And>s. closed C b s"
    using cl unfolding all_closed_def good_def by blast+
  moreover have "dirty b = {}" using assms(2) by (simp add: dirty_def)
  ultimately have "closed_for C b (pts_at b s) s" for s
    unfolding closed_def by (simp add: processed_def)
  then have ef: "c \<in> set (complex (heap b s)) \<Longrightarrow> k \<in> pts_at b s \<Longrightarrow> effect C b c k"
    and ed: "d \<in> copy_at b s \<Longrightarrow> pts_at b s \<subseteq> pts_at b (rep b d)" for c k d s
    unfolding closed_for_def by blast+
  have sub: "k \<in> pts_at b s \<Longrightarrow> k \<in> P s" for k s using state_ok_at [OF W, of s] by (auto simp: state_ok_def)
  show ?thesis
  proof (cases c)
    case (AddrConstraint dst src)
    with att sat show ?thesis by simp
  next
    case (CopyConstraint dst src)
    with att sat ed show ?thesis by simp
  next
    case (LoadConstraint off dst src)
    have "pts_at b (rep b (k + off)) \<subseteq> pts_at b (rep b dst)" if "k \<in> pts_at b (rep b src)" for k
      using ef [of c, OF _ that] att LoadConstraint ed by auto
    moreover have "valid b (k + off)" if "k \<in> pts_at b (rep b src)" for k
      using sat sub [OF that] LoadConstraint by simp
    ultimately show ?thesis using sat LoadConstraint by simp
  next
    case (StoreConstraint off dst src)
    have "pts_at b (rep b src) \<subseteq> pts_at b (rep b (k + off))" if "k \<in> pts_at b (rep b dst)" for k
      using ef [of c, OF _ that] att StoreConstraint ed by auto
    moreover have "valid b (k + off)" if "k \<in> pts_at b (rep b dst)" for k
      using sat sub [OF that] StoreConstraint by simp
    ultimately show ?thesis using sat StoreConstraint by simp
  next
    case (OffsetAddrConstraint off dst src)
    have "k + off \<in> pts_at b (rep b dst)" if "k \<in> pts_at b (rep b src)" for k
      using ef [of c, OF _ that] att OffsetAddrConstraint by simp
    with sat OffsetAddrConstraint show ?thesis by simp
  next
    case (TypeFilterConstraint ty dst src)
    have "\<exists>tDyn v. tagged_type b k = Ok (tDyn, v) \<and> (AssignableTo C tDyn ty \<longrightarrow> k \<in> pts_at b (rep b dst))"
      if k: "k \<in> pts_at b (rep b src)" for k
    proof -
      have "k \<in> P (rep b src)" using k sub by blast
      with sat TypeFilterConstraint obtain tDyn v where "tagged_type b k = Ok (tDyn, v)" by auto
      then show ?thesis using ef [of c, OF _ k] att TypeFilterConstraint by simp
    qed
    with sat TypeFilterConstraint show ?thesis by simp
  next
    case (UntagConstraint ty dst src exact)
    have "\<exists>tDyn v. tagged_type b k = Ok (tDyn, v) \<and> (untag_applies C exact tDyn ty \<longrightarrow>
        (\<exists>sz. sizeof (reflect_Value C) tDyn = Ok sz \<and>
          (\<forall>i < unat sz. valid b (v + of_nat i) \<and> valid b (dst + of_nat i) \<and>
             pts_at b (rep b (v + of_nat i)) \<subseteq> pts_at b (rep b (dst + of_nat i)))))"
      if k: "k \<in> pts_at b (rep b src)" for k
    proof -
      have "k \<in> P (rep b src)" using k sub by blast
      with sat UntagConstraint obtain tDyn v where t: "tagged_type b k = Ok (tDyn, v)"
        "untag_applies C exact tDyn ty \<longrightarrow> (\<exists>sz. sizeof (reflect_Value C) tDyn = Ok sz \<and>
          (\<forall>i < unat sz. valid b (v + of_nat i) \<and> valid b (dst + of_nat i)))" by auto
      have "pts_at b (rep b (v + of_nat i)) \<subseteq> pts_at b (rep b (dst + of_nat i))"
        if "untag_applies C exact tDyn ty" "sizeof (reflect_Value C) tDyn = Ok sz" "i < unat sz" for sz i
        using ef [of c, OF _ k] att UntagConstraint t(1) that ed [of "dst + of_nat i"] by auto
      with t show ?thesis by auto
    qed
    with sat UntagConstraint show ?thesis by simp
  qed
qed

lemma solveDefault_least:
  assumes u: "unsolved a" and R: "\<not> Reflection C" and s: "solution C a P"
    and f: "solver_bound P (nodes a) \<le> fuel"
  shows "\<exists>b. solveDefault fuel C (d, a) = Ok b \<and> nodes b = nodes a \<and> solution C a (pts_at b) \<and>
    (\<forall>Q. solution C a Q \<longrightarrow> (\<forall>i. pts_at b i \<subseteq> Q i))"
proof -
  have cl: "all_closed C Q (nodes a) a" if "solution C a Q" for Q
    using unsolved_closed [OF u that] .
  from process_spec [OF cl [OF s] R] obtain a1 where a1: "processNewConstraints C a = Ok a1"
    "all_closed C P (nodes a) a1" "constraints a1 = []" by blast
  have n1: "nodes a1 = nodes a" using a1(2) by (simp add: all_closed_def good_def)
  have "solver_measure P a1 < fuel"
    using measure_bound [of C P a1] a1(2) f n1 by (simp add: all_closed_def)
  with solveDefault_terminates [of C P a1 fuel d] a1 n1 R
  have "solveDefault fuel C (d, a) \<noteq> OutOfFuel" by (simp add: solveDefault_process [OF a1(1,3)])
  moreover have res: "loop_result C Q a (solveDefault fuel C (d, a))" if "solution C a Q" for Q
    using solveDefault_result [OF cl [OF that] R] .
  ultimately obtain b where b: "solveDefault fuel C (d, a) = Ok b"
    using res [OF s] by (cases "solveDefault fuel C (d, a)") (auto simp: loop_result_def)
  have below: "all_closed C Q (nodes a) b \<and> nset (work b) = {} \<and>
      (\<forall>c \<in> set (constraints a). attached b c)" if "solution C a Q" for Q
    using res [OF that] by (simp add: b loop_result_def)
  then have nb: "nodes b = nodes a" using s by (simp add: all_closed_def good_def)
  have "satisfies C a (pts_at b) c" if c: "c \<in> set (constraints a)" for c
  proof -
    have "satisfies C b P c" using s c same_nodes(4) [OF nb] by (simp add: solution_def)
    with attached_satisfied [of C P "nodes a" b c] below [OF s] c same_nodes(4) [OF nb]
    show ?thesis by simp
  qed
  moreover have "pts_at b i \<subseteq> Q i" if "solution C a Q" for Q i
    using below [OF that] state_ok_at [of C Q b i] by (auto simp: all_closed_def good_def state_ok_def)
  ultimately show ?thesis using b nb by (auto simp: solution_def)
qed

lemma release_nodes:
  "nodes (fold (\<lambda>n a. set_state n ((state_of a n)\<lparr>complex := [], copyTo := Clear, prevPTS := Clear\<rparr>) a) ns a) = nodes a"
  "pts_at (fold (\<lambda>n a. set_state n ((state_of a n)\<lparr>complex := [], copyTo := Clear, prevPTS := Clear\<rparr>) a) ns a) = pts_at a"
proof (induction ns arbitrary: a)
  case (Cons n ns)
  case 2
  have "pts_at (set_state n ((state_of a n)\<lparr>complex := [], copyTo := Clear, prevPTS := Clear\<rparr>) a) = pts_at a"
    by (simp add: fun_eq_iff state_of_def pts_at_def)
  with Cons(2) show ?case by simp
qed simp_all

lemma release_same: "nodes (release a) = nodes a" "pts_at (release a) = pts_at a"
  using release_nodes by (simp_all add: release_def)

text \<open>
  C6: The solver, run on the constraints of a program without a limit on the
  size of points-to sets: if the constraints have any solution in which the dereferenced labels are
  nodes and node 0 is empty, \<open>solve\<close> terminates without a panic, and the points-to sets it computes
  are a solution and are contained in every other one.
\<close>

theorem solver_least_solution:
  assumes "unsolved a" and "\<not> Reflection C" and "solution C a P"
    and "P (rep a 0) = {}" and "nodes a \<noteq> []" and "solver_bound P (nodes a) \<le> fuel"
  shows "\<exists>b. solve fuel C 0 a = Ok b \<and> nodes b = nodes a \<and> solution C a (pts_at b) \<and>
    (\<forall>Q. solution C a Q \<longrightarrow> (\<forall>i. pts_at b i \<subseteq> Q i))"
proof -
  from solveDefault_least [OF assms(1-3,6), of "[]"] obtain b where
    b: "solveDefault fuel C ([], a) = Ok b" "nodes b = nodes a" "solution C a (pts_at b)"
      "\<forall>Q. solution C a Q \<longrightarrow> (\<forall>i. pts_at b i \<subseteq> Q i)" by blast
  let ?n = "nodes b ! 0"
  have "valid b 0" using assms(5) b(2) by (simp add: valid_def)
  then have n: "node_ref b 0 = Ok ?n" "solve_ptr ?n = rep a 0"
    using b(2) by (simp_all add: node_ref_valid rep_def)
  have "pts_at b (rep a 0) = {}" using b(4) assms(3,4) by blast
  moreover have "loop_result C P a (Ok b)"
    using solveDefault_result [OF unsolved_closed [OF assms(1,3)] assms(2), of fuel "[]"] b(1) by simp
  then have "within_solution C P b" by (simp add: loop_result_def all_closed_def good_def)
  then have "wf_ns (pts (heap b (rep a 0)))" by (rule within_wf)
  ultimately have "nodeset_IsEmpty (pts (state_of b ?n))"
    by (simp add: state_of_def n ns_simps pts_at_def)
  then have "solve fuel C 0 a = Ok (release b)" using b(1) n(1) by (simp add: solve_def)
  with b(2-4) show ?thesis by (auto simp: release_same)
qed

text \<open>\<open>p = &x; q = &y; *p = q; r = *p\<close>: the nodes 1 to 5 are p, q, x, y, r.\<close>

definition no_types :: config where
  "no_types = \<lparr>reflect_Value = None, AssignableTo = (\<lambda>s t. s = t), Identical = (\<lambda>s t. s = t),
     Signature = (\<lambda>_. (None, TTuple [], TTuple [])), Reflection = False\<rparr>"

definition empty_analysis :: analysis where
  "empty_analysis = \<lparr>nodes = [], heap = (\<lambda>_. new_solverState), next_ptr = 0, constraints = [], work = []\<rparr>"

definition example_nodes :: analysis where
  "example_nodes = fold (\<lambda>t a. snd (addOneNode t None a))
     [TBasic ''invalid type'', TPointer 1, TPointer 2, TPointer 2, TBasic ''int'', TPointer 2] empty_analysis"

definition example_constraints :: analysis where
  "example_constraints = fold addConstraint
     [AddrConstraint 1 3, AddrConstraint 2 4, StoreConstraint 0 1 2, LoadConstraint 0 5 1] example_nodes"

definition example_solution :: "nat \<Rightarrow> nodeid set" where
  "example_solution i = (if i = 1 then {3} else if i = 2 \<or> i = 3 \<or> i = 5 then {4} else {})"

lemma example_nodes_eq:
  "nodes example_constraints = map2 (\<lambda>t i. \<lparr>node_obj = None, node_typ = t, subelement = None, solve_ptr = i\<rparr>)
     [TBasic ''invalid type'', TPointer 1, TPointer 2, TPointer 2, TBasic ''int'', TPointer 2] [0..<6]"
  "heap example_constraints = (\<lambda>_. new_solverState)" "work example_constraints = []"
  "constraints example_constraints =
     [AddrConstraint 1 3, AddrConstraint 2 4, StoreConstraint 0 1 2, LoadConstraint 0 5 1]"
  by (simp_all add: example_constraints_def example_nodes_def empty_analysis_def addConstraint_def
      addOneNode_def upt_conv_Cons fun_eq_iff)

theorem solver_least_solution_witness:
  "\<exists>b. solve 1000 no_types 0 example_constraints = Ok b \<and> pts_at b 1 = {3} \<and> pts_at b 5 = {4}"
proof -
  have n: "length (nodes example_constraints) = 6" by (simp add: example_nodes_eq)
  have v: "valid example_constraints k = (unat k < 6)" for k by (simp add: valid_def n)
  have r: "rep example_constraints 0 = 0" "rep example_constraints 1 = 1" "rep example_constraints 2 = 2"
    "rep example_constraints 3 = 3" "rep example_constraints 4 = 4" "rep example_constraints 5 = 5"
    by (simp_all add: rep_def example_nodes_eq upt_conv_Cons)
  have u: "unsolved example_constraints" by (simp add: unsolved_def example_nodes_eq)
  have s: "solution no_types example_constraints example_solution"
    by (simp add: solution_def example_nodes_eq v r example_solution_def)
  have "solver_states (nodes example_constraints) = {0, 1, 2, 3, 4, 5}"
    by (simp add: solver_states_def example_nodes_eq upt_conv_Cons eval_nat_numeral)
  then have "solver_bound example_solution (nodes example_constraints) \<le> 1000"
    by (simp add: solver_bound_def label_count_def n example_solution_def)
  moreover have "\<not> Reflection no_types" "example_solution (rep example_constraints 0) = {}"
    "nodes example_constraints \<noteq> []" using n by (auto simp: no_types_def r example_solution_def)
  ultimately obtain b where b: "solve 1000 no_types 0 example_constraints = Ok b"
    "solution no_types example_constraints (pts_at b)" "\<forall>i. pts_at b i \<subseteq> example_solution i"
    using solver_least_solution [OF u _ s, of 1000] s by blast
  from b(2) have p: "3 \<in> pts_at b 1" "4 \<in> pts_at b 2"
    "\<forall>k \<in> pts_at b 1. pts_at b 2 \<subseteq> pts_at b (rep example_constraints k)"
    "\<forall>k \<in> pts_at b 1. pts_at b (rep example_constraints k) \<subseteq> pts_at b 5"
    by (auto simp: solution_def example_nodes_eq v r)
  have "pts_at b 2 \<subseteq> pts_at b 3" "pts_at b 3 \<subseteq> pts_at b 5"
    using bspec [OF p(3,1)] bspec [OF p(4,1)] by (simp_all add: r)
  with p(1,2) have "pts_at b 1 = {3}" "pts_at b 5 = {4}"
    using spec [OF b(3), of 1] spec [OF b(3), of 5] by (auto simp: example_solution_def)
  with b(1) show ?thesis by blast
qed

section \<open>Type filters with reflection\<close>

text \<open>
  With \<open>config.Reflection\<close>, a type filter, whose type is an interface by the
  comment of \<open>typeFilterConstraint\<close>, adds no label at all: it stops at the first label whose type is
  assignable.
\<close>

theorem reflection_filter_drops:
  assumes "isInterface ty" and "Reflection C" and "filter_labels C ty dst ks a = Ok b"
  shows "b = a"
  using assms(3)
proof (induction ks arbitrary: a)
  case (Cons k ks)
  have "(case ty of TPointer _ \<Rightarrow> False | _ \<Rightarrow> True)"
    using assms(1) by (cases ty) (simp_all add: isInterface_def)
  with Cons assms(2) show ?case by (auto split: if_splits)
qed simp

definition tagged_analysis :: analysis where
  "tagged_analysis = empty_analysis\<lparr>nodes :=
     [\<lparr>node_obj = None, node_typ = TBasic ''invalid type'', subelement = None, solve_ptr = 0\<rparr>,
      \<lparr>node_obj = Some \<lparr>obj_flags = otTagged, obj_size = 2\<rparr>, node_typ = TBasic ''int'',
         subelement = None, solve_ptr = 1\<rparr>,
      \<lparr>node_obj = None, node_typ = TBasic ''int'', subelement = None, solve_ptr = 2\<rparr>,
      \<lparr>node_obj = None, node_typ = TInterface 0, subelement = None, solve_ptr = 3\<rparr>], next_ptr := 4\<rparr>"

definition any_type :: "bool \<Rightarrow> config" where
  "any_type r = no_types\<lparr>AssignableTo := (\<lambda>s t. True), Reflection := r\<rparr>"

text \<open>The label 1, of a type that is assignable: dropped with reflection, added without.\<close>

theorem reflection_filter_drops_witness:
  "(\<forall>b. filter_labels (any_type True) (TInterface 0) 3 [1] tagged_analysis = Ok b \<longrightarrow> pts_at b 3 = {}) \<and>
   filter_labels (any_type True) (TInterface 0) 3 [1] tagged_analysis = Ok tagged_analysis \<and>
   (\<exists>b. filter_labels (any_type False) (TInterface 0) 3 [1] tagged_analysis = Ok b \<and> pts_at b 3 = {1})"
proof -
  have t: "tagged_type tagged_analysis 1 = Ok (TBasic ''int'', 2)"
    by (simp add: tagged_type_def taggedValue_def node_ref_def slice_get_def in_range_def
        tagged_analysis_def otTagged_def otIndirect_def)
  have e: "pts_at tagged_analysis 3 = {}"
    by (simp add: pts_at_def tagged_analysis_def empty_analysis_def new_solverState_def)
  have "pts_at b 3 = {}"
    if "filter_labels (any_type True) (TInterface 0) 3 [1] tagged_analysis = Ok b" for b
    using reflection_filter_drops [OF _ _ that] e by (simp add: isInterface_def any_type_def)
  moreover have "filter_labels (any_type True) (TInterface 0) 3 [1] tagged_analysis = Ok tagged_analysis"
    using t by (simp add: any_type_def)
  moreover have "\<exists>b. filter_labels (any_type False) (TInterface 0) 3 [1] tagged_analysis = Ok b \<and>
      pts_at b 3 = {1}"
  proof -
    obtain b ps where ps: "nodeset_add [] 1 = (b, ps)" by fastforce
    then have "b" "nset ps = {1}" using nodeset_add_spec [OF wf_ns_Nil(1) ps] by simp_all
    then show ?thesis using t ps
      by (simp add: any_type_def add_and_work_def addLabel_def node_ref_def slice_get_def in_range_def
          tagged_analysis_def empty_analysis_def state_of_def new_solverState_def pts_at_def addWork_def
          set_state_def no_types_def)
  qed
  ultimately show ?thesis by blast
qed

end
