(* ===== verification/PtrObjClaims.thy ===== *)
theory PtrObjClaims
  imports PtrRenumProps PtrClaims
begin

text \<open>
  The properties of object blocks: the object of a label, the order of fields, and renumbering.
\<close>

section \<open>The object of a label\<close>

lemma scan_back_hit:
  assumes "valid a (of_nat (h + d))" and "h + d < 2 ^ 32" and "d < fuel"
    and "node_obj (nodes a ! h) = Some ob" and "\<forall>m \<in> {h<..h + d}. node_obj (nodes a ! m) = None"
  shows "scan_back fuel a nid (of_nat (h + d)) =
    (if of_nat h + obj_size ob \<le> nid then Ok None else Ok (Some (of_nat h)))"
  using assms
proof (induction d arbitrary: fuel)
  case 0
  then obtain f where "fuel = Suc f" by (cases fuel) auto
  with 0 show ?case by (simp add: node_ref_valid unat_of_nat_len)
next
  case (Suc d)
  then obtain f where f: "fuel = Suc f" "d < f" by (cases fuel) auto
  have "unat (of_nat (h + d) :: nodeid) = h + d" "unat (of_nat (h + Suc d) :: nodeid) = h + Suc d"
    using Suc.prems(2) by (intro unat_of_nat_len; simp)+
  then have v: "valid a (of_nat (h + d))" "node_ref a (of_nat (h + Suc d)) = Ok (nodes a ! (h + Suc d))"
    using Suc.prems(1) by (simp_all add: valid_def node_ref_valid del: add_Suc_right of_nat_add of_nat_Suc)
  have "scan_back f a nid (of_nat (h + d)) =
      (if of_nat h + obj_size ob \<le> nid then Ok None else Ok (Some (of_nat h)))"
    using Suc.prems f v by (intro Suc.IH) auto
  moreover have "node_obj (nodes a ! (h + Suc d)) = None" using Suc.prems(5) by auto
  moreover have "(of_nat (h + Suc d) :: nodeid) - 1 = of_nat (h + d)" by simp
  ultimately show ?case using f(1) v(2) by (simp del: of_nat_add of_nat_Suc add_Suc_right)
qed

lemma scan_back_wrap:
  assumes "d < length (nodes a)" and "length (nodes a) < 2 ^ 32" and "d + 1 < fuel"
    and "\<forall>m \<le> d. node_obj (nodes a ! m) = None"
  shows "scan_back fuel a nid (of_nat d) = Panic IndexOutOfRange"
  using assms
proof (induction d arbitrary: fuel)
  case 0
  then obtain f where f: "fuel = Suc (Suc f)" by (metis Suc_eq_plus1 add_0 less_imp_Suc_add plus_1_eq_Suc add_Suc)
  have "\<not> valid a (- 1)" using 0(2) by (simp add: valid_def unsigned_minus_1_eq_mask mask_eq_exp_minus_1)
  then have "node_ref a (- 1) = Panic IndexOutOfRange" by (simp add: node_ref_eq)
  moreover have "node_ref a 0 = Ok (nodes a ! 0)" using 0(1) by (simp add: node_ref_eq valid_def)
  ultimately show ?case using 0(4) f by simp
next
  case (Suc d)
  then obtain f where f: "fuel = Suc f" "d + 1 < f" by (cases fuel) auto
  have "node_ref a (of_nat (Suc d)) = Ok (nodes a ! Suc d)"
    using node_at(1) [OF Suc.prems(2,1)] .
  moreover have "scan_back f a nid (of_nat d) = Panic IndexOutOfRange"
    using Suc.prems f by (intro Suc.IH) auto
  moreover have "(of_nat (Suc d) :: nodeid) - 1 = of_nat d" by simp
  ultimately show ?case using f(1) Suc.prems(4) by (simp del: of_nat_Suc)
qed

lemma enclosing_inside:
  assumes "object_blocks (nodes a)" and "length (nodes a) < 2 ^ 32"
    and h: "node_obj (nodes a ! h) = Some ob" "h < length (nodes a)" and k: "k \<in> {h..<h + unat (obj_size ob)}"
  shows "enclosingObj a (of_nat k) = Ok (of_nat h) \<and>
    labelFor a (of_nat k) = Ok (Some ob, subelement (nodes a ! k))"
proof -
  have int: "\<forall>m \<in> {h<..k}. m < length (nodes a) \<and> node_obj (nodes a ! m) = None"
    using block_interior [OF assms(1) h(2,1)] k by auto
  have len: "k < length (nodes a)" using int h(2) k by (cases "k = h") auto
  have "h + unat (obj_size ob) - 1 < length (nodes a)" if "1 < unat (obj_size ob)"
    using block_interior [OF assms(1) h(2,1), of "h + unat (obj_size ob) - 1"] that by simp
  then have sum: "h + unat (obj_size ob) \<le> length (nodes a)" using h(2) by linarith
  have w: "unat (of_nat k :: nodeid) = k" "unat (of_nat h :: nodeid) = h" using len h(2) assms(2)
    by (intro unat_of_nat_len; simp)+
  have "unat (of_nat h + obj_size ob) = h + unat (obj_size ob)"
    using sum assms(2) w(2) unat_add_lem [of "of_nat h" "obj_size ob"] by simp
  then have "\<not> of_nat h + obj_size ob \<le> (of_nat k :: nodeid)" using k w(1) by (simp add: word_le_nat_alt)
  moreover have "scan_back (unat (of_nat k :: nodeid) + 2) a (of_nat k) (of_nat (h + (k - h))) =
      (if of_nat h + obj_size ob \<le> (of_nat k :: nodeid) then Ok None else Ok (Some (of_nat h)))"
    using k int len assms(2) w h(1) by (intro scan_back_hit) (auto simp: valid_def)
  moreover have "h + (k - h) = k" using k by simp
  ultimately have "scan_back (unat (of_nat k :: nodeid) + 2) a (of_nat k) (of_nat k) = Ok (Some (of_nat h))"
    by (simp del: scan_back.simps of_nat_add)
  then have e: "enclosingObj a (of_nat k) = Ok (of_nat h)" by (simp add: enclosingObj_def del: scan_back.simps)
  then show ?thesis
    using h(1) node_at(1) [OF assms(2) h(2)] node_at(1) [OF assms(2) len] by (simp add: labelFor_def)
qed

text \<open>
  C39. For nodes in well-formed object blocks, the enclosing object of a node inside an
  object is the first node of that object, its label carries that object and its own path; for a node
  with no object node at or before it, the search backwards runs past node 0 and panics with an index
  out of range instead of trying the following nodes.
\<close>

theorem enclosing_object:
  assumes "object_blocks (nodes a)" and "length (nodes a) < 2 ^ 32"
  shows "(\<forall>h < length (nodes a). \<forall>ob. node_obj (nodes a ! h) = Some ob \<longrightarrow>
      (\<forall>k \<in> {h..<h + unat (obj_size ob)}. enclosingObj a (of_nat k) = Ok (of_nat h) \<and>
         labelFor a (of_nat k) = Ok (Some ob, subelement (nodes a ! k)))) \<and>
    (\<forall>k < length (nodes a). (\<forall>m \<le> k. node_obj (nodes a ! m) = None) \<longrightarrow>
      enclosingObj a (of_nat k) = Panic IndexOutOfRange)"
proof (intro conjI allI impI ballI)
  fix k assume k: "k < length (nodes a)" "\<forall>m \<le> k. node_obj (nodes a ! m) = None"
  then have "unat (of_nat k :: nodeid) = k" using assms(2) by (intro unat_of_nat_len) simp
  with scan_back_wrap [OF k(1) assms(2) _ k(2), of "k + 2" "of_nat k"]
  show "enclosingObj a (of_nat k) = Panic IndexOutOfRange"
    by (simp add: enclosingObj_def del: scan_back.simps)
qed (use enclosing_inside [OF assms] in blast)+

text \<open>Nodes 0 to 4: the zero node, a pointer, a struct object with one field, a pointer.\<close>

definition block_nodes :: analysis where
  "block_nodes = \<lparr>nodes = map2 (\<lambda>(t, ob) i. \<lparr>node_obj = ob, node_typ = t, subelement = None, solve_ptr = i\<rparr>)
     [(TBasic ''invalid type'', None), (TPointer 1, None),
      (TStruct [(''f'', TBasic ''int'')], Some \<lparr>obj_flags = 0, obj_size = 2\<rparr>), (TBasic ''int'', None),
      (TPointer 2, None)] [0..<5],
     heap = (\<lambda>_. new_solverState), next_ptr = 5,
     constraints = [AddrConstraint 1 2, OffsetAddrConstraint 1 4 1], work = []\<rparr>"

lemma block_nodes_eq:
  "nodes block_nodes = [\<lparr>node_obj = None, node_typ = TBasic ''invalid type'', subelement = None, solve_ptr = 0\<rparr>,
     \<lparr>node_obj = None, node_typ = TPointer 1, subelement = None, solve_ptr = 1\<rparr>,
     \<lparr>node_obj = Some \<lparr>obj_flags = 0, obj_size = 2\<rparr>, node_typ = TStruct [(''f'', TBasic ''int'')], subelement = None, solve_ptr = 2\<rparr>,
     \<lparr>node_obj = None, node_typ = TBasic ''int'', subelement = None, solve_ptr = 3\<rparr>,
     \<lparr>node_obj = None, node_typ = TPointer 2, subelement = None, solve_ptr = 4\<rparr>]"
  "constraints block_nodes = [AddrConstraint 1 2, OffsetAddrConstraint 1 4 1]"
  by (simp_all add: block_nodes_def upt_conv_Cons)

lemma block_nodes_ok: "object_blocks (nodes block_nodes)" "length (nodes block_nodes) = 5"
  by (simp_all add: block_nodes_eq)

theorem enclosing_object_witness:
  "enclosingObj block_nodes 3 = Ok 2 \<and> enclosingObj block_nodes 1 = Panic IndexOutOfRange"
proof -
  have e: "(\<forall>h < 5. \<forall>ob. node_obj (nodes block_nodes ! h) = Some ob \<longrightarrow>
      (\<forall>k \<in> {h..<h + unat (obj_size ob)}. enclosingObj block_nodes (of_nat k) = Ok (of_nat h) \<and>
         labelFor block_nodes (of_nat k) = Ok (Some ob, subelement (nodes block_nodes ! k)))) \<and>
    (\<forall>k < 5. (\<forall>m \<le> k. node_obj (nodes block_nodes ! m) = None) \<longrightarrow>
      enclosingObj block_nodes (of_nat k) = Panic IndexOutOfRange)"
    using enclosing_object [of block_nodes] block_nodes_ok by simp
  have "node_obj (nodes block_nodes ! 2) = Some \<lparr>obj_flags = 0, obj_size = 2\<rparr>"
    "\<forall>m \<le> 1. node_obj (nodes block_nodes ! m) = None" by (simp_all add: block_nodes_eq le_Suc_eq)
  then have "\<forall>k \<in> {2..<2 + unat (2 :: nodeid)}. enclosingObj block_nodes (of_nat k) = Ok (of_nat 2)"
    using e [THEN conjunct1, THEN spec, of 2] by simp
  from this [THEN bspec, of 3] have "enclosingObj block_nodes (of_nat 3) = Ok (of_nat 2)" by simp
  moreover have "enclosingObj block_nodes (of_nat 1) = Panic IndexOutOfRange"
    using e [THEN conjunct2, THEN spec, of 1] \<open>\<forall>m \<le> 1. node_obj (nodes block_nodes ! m) = None\<close> by simp
  ultimately show ?thesis by simp
qed

section \<open>Offsets of fields\<close>

text \<open>
  C38. Flattening a struct puts the identity node first and then, in order, the nodes
  of every field: the nodes from \<open>offsetOf(struct, k)\<close> on are exactly the flattened type of field \<open>k\<close>,
  each under the step \<open>.f\<close>, and they are scalars or identity nodes, never tuples.
\<close>

theorem offset_selects_field:
  assumes "flatten rv (TStruct fs) = Ok fl" and "k < length fs" and "rv_ok rv"
    and "length fl < 2 ^ 32"
  shows "\<exists>off mid. offsetOf rv (TStruct fs) (int k) = Ok off \<and> flatten rv (snd (fs ! k)) = Ok mid \<and>
    1 \<le> unat off \<and> unat off + length mid \<le> length fl \<and>
    take (length mid) (drop (unat off) fl) = map (within (OpField (fst (fs ! k)))) mid \<and>
    (\<forall>fi \<in> set fl. node_type (fi_typ fi))"
proof -
  from assms(1) obtain l where l: "flatten_fields rv fs = Ok l" "fl = scalar_info (TStruct fs) # l"
    by (auto simp: res_simps)
  from flatten_fields_nth [OF l(1) assms(2), of 1] obtain pre mid post where
    m: "flatten rv (snd (fs ! k)) = Ok mid" "l = pre @ map (within (OpField (fst (fs ! k)))) mid @ post"
      "offset_loop rv (map snd fs) (int k) 1 = Ok (1 + of_nat (length pre))" by blast
  have "unat (of_nat (Suc (length pre)) :: 32 word) = Suc (length pre)"
    using assms(4) l(2) m(2) by (intro unat_of_nat_len) simp
  then have u: "unat (1 + of_nat (length pre) :: 32 word) = Suc (length pre)" by simp
  have "\<forall>fi \<in> set fl. node_type (fi_typ fi)" using flatten_node_types(1) [OF assms(3,1)] by blast
  moreover have "offsetOf rv (TStruct fs) (int k) = Ok (1 + of_nat (length pre))"
    using m(3) by (simp add: offsetOf_def)
  ultimately show ?thesis using m u l(2)
    by (intro exI [of _ "1 + of_nat (length pre)"] exI [of _ mid]) simp
qed

theorem offset_selects_field_witness:
  "offsetOf None (TStruct [(''a'', TArray 3 (TPointer 1)), (''b'', TChan 2)]) 1 = Ok 3 \<and>
   (\<exists>fl. flatten None (TStruct [(''a'', TArray 3 (TPointer 1)), (''b'', TChan 2)]) = Ok fl \<and>
      map fi_typ (take 1 (drop 3 fl)) = [TChan 2])"
proof -
  let ?s = "[(''a'', TArray 3 (TPointer 1)), (''b'', TChan 2)]"
  obtain fl where fl: "flatten None (TStruct ?s) = Ok fl" "length fl = 4" by simp
  have "\<exists>off mid. offsetOf None (TStruct ?s) (int 1) = Ok off \<and> flatten None (snd (?s ! 1)) = Ok mid \<and>
    1 \<le> unat off \<and> unat off + length mid \<le> length fl \<and>
    take (length mid) (drop (unat off) fl) = map (within (OpField (fst (?s ! 1)))) mid \<and>
    (\<forall>fi \<in> set fl. node_type (fi_typ fi))"
    by (rule offset_selects_field) (use fl in \<open>simp_all add: rv_ok_def\<close>)
  moreover have "offsetOf None (TStruct ?s) (int 1) = Ok 3"
    by (simp add: offsetOf_def offset_loop_def sizeof_def slice_get_def in_range_def)
  ultimately show ?thesis using fl by (auto simp: scalar_info_def)
qed

section \<open>Renumbering\<close>

text \<open>
  C37. \<open>renumber\<close> computes a permutation: every node is found under its new id, no two
  ids share a new one, node 0 stays, the nodes of a block stay together in their order, and every node
  of an object comes before every node outside objects.
\<close>

theorem renumber_roundtrip:
  assumes "nodes a \<noteq> []" and "object_blocks (tl (nodes a))" and "length (nodes a) < 2 ^ 32"
    and "length (nodes a) < fuel"
  shows "\<exists>newNodes r. permute_nodes fuel a = Ok (newNodes, r) \<and>
    length newNodes = length (nodes a) \<and> length r = length (nodes a) \<and> distinct r \<and> r ! 0 = 0 \<and>
    (\<forall>i < length (nodes a). newNodes ! unat (r ! i) = Some (nodes a ! i)) \<and>
    (\<forall>i < length (nodes a). \<forall>off. same_block a (of_nat i) off \<longrightarrow> r ! (i + unat off) = r ! i + off) \<and>
    (\<forall>i < length (nodes a). \<forall>j < length (nodes a). in_object a i \<and> \<not> in_object a j \<and> j \<noteq> 0 \<longrightarrow> r ! i < r ! j)"
proof -
  from permute_nodes_spec [OF assms] obtain nn r where
    p: "permute_nodes fuel a = Ok (nn, r)" "length nn = length (nodes a)" "length r = length (nodes a)"
      "placed a (id_order a) 0 nn r" by blast
  then have pl: "placement a nn r" using assms by (simp add: placement_def)
  have w: "unat (of_nat i :: nodeid) = i" if "i < length (nodes a)" for i
    using that assms(3) by (intro unat_of_nat_len) simp
  note P = permuted [OF pl, unfolded permutes_def]
  have n: "nn ! unat (r ! i) = Some (nodes a ! i)" if "i < length (nodes a)" for i
    using position [OF pl that] w by metis
  have b: "r ! (i + unat off) = r ! i + off" if "i < length (nodes a)" "same_block a (of_nat i) off" for i off
  proof -
    have "unat (of_nat i + off) = i + unat off"
    proof (cases "off = 0")
      case False
      with that assms(3) w [OF that(1)] have "unat (of_nat i :: nodeid) + unat off < 2 ^ 32"
        by (simp add: same_block_def)
      with w [OF that(1)] show ?thesis by (simp add: unat_add_lem [THEN iffD1])
    qed (simp add: w [OF that(1)])
    moreover have "ren r (of_nat i + off) = ren r (of_nat i) + off" using P that(2) by blast
    ultimately show ?thesis by (simp add: ren_def w [OF that(1)])
  qed
  have "distinct r" "r ! 0 = 0" using P by (simp_all add: ren_def)
  with p(1-3) n b objects_first [OF pl] show ?thesis by blast
qed

theorem renumber_roundtrip_witness:
  "\<exists>newNodes r. permute_nodes 10 block_nodes = Ok (newNodes, r) \<and> r ! 3 = r ! 2 + 1 \<and> r ! 2 < r ! 1"
proof -
  have o': "in_object block_nodes 2" "\<not> in_object block_nodes 1" "in_object block_nodes 3"
    by (simp_all add: in_object_def block_nodes_eq)
  have "{2<..2 + unat (1 :: nodeid)} = {3 :: nat}" by auto
  with o' have "same_block block_nodes (of_nat 2) 1"
    by (simp add: same_block_def valid_def block_nodes_eq)
  moreover have "nodes block_nodes \<noteq> []" "object_blocks (tl (nodes block_nodes))"
    by (simp_all add: block_nodes_eq)
  moreover have "5 = length (nodes block_nodes)" by (simp add: block_nodes_ok)
  ultimately obtain nn r where R: "permute_nodes 10 block_nodes = Ok (nn, r)"
    "\<forall>i < 5. \<forall>off. same_block block_nodes (of_nat i) off \<longrightarrow> r ! (i + unat off) = r ! i + off"
    "\<forall>i < 5. \<forall>j < 5. in_object block_nodes i \<and> \<not> in_object block_nodes j \<and> j \<noteq> 0 \<longrightarrow> r ! i < r ! j"
    using renumber_roundtrip [of block_nodes 10] by auto
  from R(2) [rule_format, of 2 1] \<open>same_block block_nodes (of_nat 2) 1\<close> have "r ! 3 = r ! 2 + 1" by simp
  moreover have "r ! 2 < r ! 1" using R(3) [rule_format, of 2 1] o' by simp
  ultimately show ?thesis using R(1) by blast
qed

text \<open>
  C36. \<open>renumber\<close> terminates without a panic, replaces every id of the tables
  and of the constraints by the new id of the same node, each call site once, and changes nothing about
  the points-to relation: a solution whose labels are nodes and whose accesses stay in their blocks
  solves the constraints exactly if the solution with renamed labels solves the renamed constraints.
\<close>

theorem renumber_preserves_solutions:
  assumes "nodes a \<noteq> []" and "object_blocks (tl (nodes a))" and "length (nodes a) < 2 ^ 32"
    and "length (nodes a) < fuel" and "ids_ok a g"
  shows "\<exists>a' r. renumber fuel a g = Ok (a', ren_tables r g) \<and> permutes a (nodes a') r \<and>
    constraints a' = map (ren_constr r) (constraints a) \<and>
    (\<forall>C P. (\<forall>s. \<forall>k \<in> P s. valid a k) \<and> (\<forall>c \<in> set (constraints a). in_blocks C a P c) \<longrightarrow>
       solution C a' (\<lambda>s. ren r ` P s) = solution C a P)"
proof -
  from renumber_ren [OF assms] obtain nn r where P: "permutes a nn r" and
    R: "renumber fuel a g = Ok (a\<lparr>nodes := nn, constraints := map (ren_constr r) (constraints a)\<rparr>, ren_tables r g)"
    by blast
  let ?a = "a\<lparr>nodes := nn, constraints := map (ren_constr r) (constraints a)\<rparr>"
  have n: "nodes ?a = nn" by simp
  have "solution C ?a (\<lambda>s. ren r ` Q s) = solution C a Q"
    if "\<forall>s. \<forall>k \<in> Q s. valid a k" "\<forall>c \<in> set (constraints a). in_blocks C a Q c" for C Q
    using satisfies_ren [OF P n assms(3) that(1)] that(2) assms(5)
    by (simp add: solution_def ids_ok_def)
  with P R show ?thesis by (intro exI [of _ ?a] exI [of _ r]) simp
qed

definition block_tables :: node_tables where
  "block_tables = \<lparr>globalobj = [(7, 2)], globalval = [(8, 1)],
     pcgnodes = [\<lparr>cg_obj = 2, cg_sites = [0, 1], actualCallerSite = [], localval = [(9, 4)], localobj = []\<rparr>],
     site_targets = (\<lambda>_. 4), closureWOGo = [(1, 4)], closures = [(5, [(0, [2, 4])])]\<rparr>"

theorem renumber_preserves_solutions_witness:
  "\<exists>a' r. renumber 10 block_nodes block_tables = Ok (a', ren_tables r block_tables) \<and>
     solution no_types a' (\<lambda>s. ren r ` (if s = 1 then {2} else if s = 4 then {3} else {}))"
proof -
  let ?P = "\<lambda>s :: nat. (if s = 1 then {2} else if s = 4 then {3} else {}) :: nodeid set"
  have v: "valid block_nodes k = (unat k < 5)" for k by (simp add: valid_def block_nodes_ok)
  have o': "in_object block_nodes 2" "in_object block_nodes 3"
    by (simp_all add: in_object_def block_nodes_eq)
  have "{2<..Suc 2} = {3 :: nat}" by auto
  with o' have b: "same_block block_nodes 2 1"
    by (simp add: same_block_def v) (simp add: block_nodes_eq)
  have r: "rep block_nodes 1 = 1" "rep block_nodes 4 = 4" by (simp_all add: rep_def block_nodes_eq)
  have "ids_ok block_nodes block_tables"
    by (auto simp: ids_ok_def table_ids_def block_tables_def v node_sites_def block_nodes_eq wf_map_def)
  with renumber_preserves_solutions [of block_nodes 10 block_tables] obtain a' r where
    R: "renumber 10 block_nodes block_tables = Ok (a', ren_tables r block_tables)" and
    S: "\<forall>C P. (\<forall>s. \<forall>k \<in> P s. valid block_nodes k) \<and>
      (\<forall>c \<in> set (constraints block_nodes). in_blocks C block_nodes P c) \<longrightarrow>
      solution C a' (\<lambda>s. ren r ` P s) = solution C block_nodes P"
    by (auto simp: block_nodes_eq)
  have "solution no_types a' (\<lambda>s. ren r ` ?P s) = solution no_types block_nodes ?P"
    using b by (intro S [rule_format]) (simp add: block_nodes_eq(2) v r)
  moreover have "solution no_types block_nodes ?P"
    by (simp add: solution_def block_nodes_eq(2) v r)
  ultimately show ?thesis using R by (intro exI [of _ a'] exI [of _ r]) simp
qed

text \<open>
  \<open>Ctx2nodeid.renumberHVN\<close> drops the ids that are not remapped: the slice of new ids keeps the zero it
  was made with, where \<open>cgnode.renumberHVN\<close> keeps the old id.
\<close>

lemma hvn_ids_lost: "hvn_ids [0, 1, 1] [1, 2] = Ok [0, 1]"
  by (simp add: hvn_ids_def new_id_def slice_get_def slice_set_def in_range_def upt_conv_Cons)

lemma hvn_locals_kept: "hvn_id [0, 1, 1] 1 = Ok 1" "hvn_id [0, 1, 1] 2 = Ok 1"
  by (simp_all add: hvn_id_def new_id_def slice_get_def in_range_def)

end
